(* ===== verification/RB_Prelude.thy ===== *)
theory RB_Prelude
  imports Main "HOL-Library.Word"
begin

text \<open>
  The prelude of the RingBuf development: the machine types of the C code on the x86-64
  Linux target its Makefile builds for (\<open>-m64\<close>), the collections of hints the components
  share, and the facts on 64-bit words (power-of-two masks, wrapping differences, the
  correspondence between unbounded ticket numbers and their 64-bit images) that every ring
  variant rests on.
\<close>

unbundle bit_operations_syntax

section \<open>Machine types\<close>

type_synonym size_t = "64 word"
type_synonym byte = "8 word"
type_synonym c_int = "32 word"

text \<open>\<open>ssize_t\<close> and \<open>intptr_t\<close> values are the two's complement reading of a 64-bit word.\<close>

definition ssize_of :: "size_t \<Rightarrow> int" where
  "ssize_of w = sint w"

named_theorems ring_simps "unfolding of the ring operations"
named_theorems word_simps "conversion of 64-bit facts to natural numbers"

section \<open>Powers of two\<close>

lemma nat_and_pred_eq_0_iff:
  "0 < n \<Longrightarrow> (n AND (n - 1) = (0::nat)) \<longleftrightarrow> (\<exists>p. n = 2 ^ p)"
proof (induction n rule: less_induct)
  case (less n)
  show ?case
  proof (cases "even n")
    case True
    then obtain m where n: "n = 2 * m" by (auto elim: evenE)
    with less.prems have m: "0 < m" "m < n" by auto
    from m(1) have "(n - 1) div 2 = m - 1" "n div 2 = m" using n by auto
    with True have "n AND (n - 1) = 2 * (m AND (m - 1))"
      by (subst and_nat_rec) simp
    then have "(n AND (n - 1) = 0) \<longleftrightarrow> (\<exists>p. m = 2 ^ p)"
      using less.IH [OF m(2) m(1)] by simp
    also have "\<dots> \<longleftrightarrow> (\<exists>p. n = 2 ^ p)"
    proof
      assume "\<exists>p. m = 2 ^ p"
      then obtain p where "m = 2 ^ p" ..
      then have "n = 2 ^ Suc p" using n by simp
      then show "\<exists>p. n = 2 ^ p" ..
    next
      assume "\<exists>p. n = 2 ^ p"
      then obtain p where p: "n = 2 ^ p" ..
      with True have "p \<noteq> 0" by (cases p) auto
      with p n show "\<exists>p. m = 2 ^ p" by (cases p) auto
    qed
    finally show ?thesis .
  next
    case False
    then obtain m where n: "n = 2 * m + 1" by (auto elim: oddE)
    have "n AND (n - 1) = 2 * m"
      by (subst and_nat_rec) (simp add: n)
    moreover have "(\<exists>p. n = 2 ^ p) \<longleftrightarrow> m = 0"
    proof
      assume "\<exists>p. n = 2 ^ p"
      then obtain p where p: "n = 2 ^ p" ..
      with False have "p = 0" by (cases p) auto
      with p n show "m = 0" by simp
    next
      assume "m = 0"
      then have "n = 2 ^ 0" using n by simp
      then show "\<exists>p. n = 2 ^ p" ..
    qed
    ultimately show ?thesis by simp
  qed
qed

lemma unat_dec: "(x::size_t) \<noteq> 0 \<Longrightarrow> unat (x - 1) = unat x - 1"
  by (rule unat_minus_one)

lemma word_and_pred_eq_0_iff:
  assumes "(x::size_t) \<noteq> 0"
  shows "(x AND (x - 1) = 0) \<longleftrightarrow> (\<exists>p < 64. unat x = 2 ^ p)"
proof -
  have pos: "0 < unat x" using assms by (simp add: unat_gt_0)
  have "(x AND (x - 1) = 0) \<longleftrightarrow> unat (x AND (x - 1)) = 0" by (simp add: unat_0_iff)
  also have "\<dots> \<longleftrightarrow> unat x AND (unat x - 1) = 0"
    by (simp add: unsigned_and_eq unat_dec assms)
  also have "\<dots> \<longleftrightarrow> (\<exists>p. unat x = 2 ^ p)"
    using nat_and_pred_eq_0_iff [OF pos] .
  also have "\<dots> \<longleftrightarrow> (\<exists>p < 64. unat x = 2 ^ p)"
  proof
    assume "\<exists>p. unat x = 2 ^ p"
    then obtain p where p: "unat x = 2 ^ p" ..
    have "(2::nat) ^ p < 2 ^ 64" using unsigned_less [of x, where ?'a = nat] p by simp
    then have "p < 64" by (rule power_less_imp_less_exp [rotated]) simp
    with p show "\<exists>p < 64. unat x = 2 ^ p" by blast
  qed blast
  finally show ?thesis .
qed

lemma unat_and_mask:
  assumes "unat (m::size_t) = 2 ^ p"
  shows "unat (x AND (m - 1)) = unat x mod unat m"
proof -
  have "m \<noteq> 0" using assms by (metis power_not_zero unsigned_0 zero_neq_numeral)
  then have "unat (m - 1) = 2 ^ p - 1" by (simp add: unat_dec assms)
  also have "\<dots> = mask p" by (simp add: mask_eq_exp_minus_1)
  finally have "unat (x AND (m - 1)) = unat x AND mask p" by (simp add: unsigned_and_eq)
  then show ?thesis by (simp add: assms flip: take_bit_eq_mask take_bit_eq_mod)
qed

section \<open>Tickets\<close>

text \<open>
  Positions of the rings are unbounded ticket numbers, kept by the code as 64-bit words.
  These facts move between the two.
\<close>

lemma unat_of_nat64 [word_simps]: "n < 2 ^ 64 \<Longrightarrow> unat (of_nat n :: size_t) = n"
  by (simp add: unat_of_nat)

lemma unat_less64: "unat (x::size_t) < 2 ^ 64"
  using unsigned_less [of x] by simp

lemma of_nat_minus64 [word_simps]:
  "b \<le> a \<Longrightarrow> (of_nat a - of_nat b :: size_t) = of_nat (a - b)"
  by (simp add: of_nat_diff)

lemma unat_ticket_diff [word_simps]:
  "b \<le> a \<Longrightarrow> a - b < 2 ^ 64 \<Longrightarrow> unat (of_nat a - of_nat b :: size_t) = a - b"
  by (simp only: of_nat_minus64 unat_of_nat64)

lemma ticket_inject:
  assumes "(of_nat a :: size_t) = of_nat b" "b \<le> a" "a - b < 2 ^ 64"
  shows "a = b"
proof -
  have "unat (of_nat a - of_nat b :: size_t) = 0" using assms(1) by simp
  then show ?thesis using unat_ticket_diff [OF assms(2,3)] assms(2) by simp
qed

lemma ticket_inject_small:
  "(of_nat a :: size_t) = of_nat b \<Longrightarrow> a < 2 ^ 64 \<Longrightarrow> b < 2 ^ 64 \<Longrightarrow> a = b"
  by (metis unat_of_nat64)

lemma dvd_pow64: "p < 64 \<Longrightarrow> (2::nat) ^ p dvd 2 ^ 64"
  by (rule le_imp_power_dvd) simp

lemma unat_ticket_mod:
  assumes "N = 2 ^ p" "p < 64"
  shows "unat (of_nat n :: size_t) mod N = n mod N"
  using mod_mod_cancel [of N "2 ^ 64" n] dvd_pow64 [OF assms(2)] assms(1)
  by (simp add: unat_of_nat)

lemma unat_le_iff: "(x::size_t) \<le> y \<longleftrightarrow> unat x \<le> unat y"
  by (rule word_le_nat_alt)

lemma unat_less_iff: "(x::size_t) < y \<longleftrightarrow> unat x < unat y"
  by (rule word_less_nat_alt)

lemma unat_add_small:
  "unat (a::size_t) + unat b < 2 ^ 64 \<Longrightarrow> unat (a + b) = unat a + unat b"
  by (subst unat_word_ariths) simp

lemma unat_mult_small:
  "unat (a::size_t) * unat b < 2 ^ 64 \<Longrightarrow> unat (a * b) = unat a * unat b"
  by (subst unat_word_ariths) simp

lemma mod_less_distinct:
  "(a::nat) < b \<Longrightarrow> b < a + n \<Longrightarrow> a mod n \<noteq> b mod n"
  by (metis add_diff_cancel_left' add_less_cancel_left dvd_imp_le less_imp_add_positive
      linorder_not_less mod_eq_dvd_iff_nat nat_less_le)

lemma signed_reading:
  assumes "n < 2 ^ 64"
  shows "signed_take_bit 63 (int n) = (if n < 2 ^ 63 then int n else int n - 2 ^ 64)"
proof -
  have shift: "signed_take_bit 63 (int n) = (int n + 2 ^ 63) mod 2 ^ 64 - 2 ^ 63"
    by (simp add: signed_take_bit_eq_take_bit_shift take_bit_eq_mod)
  show ?thesis
  proof (cases "n < 2 ^ 63")
    case True
    then have "(int n + 2 ^ 63) mod 2 ^ 64 = int n + 2 ^ 63"
      by (intro mod_pos_pos_trivial) simp_all
    with True shift show ?thesis by simp
  next
    case False
    have "int n + 2 ^ 63 = int n - 2 ^ 63 + 2 ^ 64" by simp
    then have "(int n + 2 ^ 63) mod 2 ^ 64 = (int n - 2 ^ 63) mod 2 ^ 64"
      by (simp only: mod_add_self2)
    also have "\<dots> = int n - 2 ^ 63"
      by (intro mod_pos_pos_trivial) (use False assms in simp_all)
    finally show ?thesis using False shift by simp
  qed
qed

lemma ssize_of_eq:
  "ssize_of w = (if unat w < 2 ^ 63 then int (unat w) else int (unat w) - 2 ^ 64)"
proof -
  have "ssize_of w = signed_take_bit 63 (int (unat w))"
    by (simp add: ssize_of_def sint_uint)
  then show ?thesis using signed_reading [OF unat_less64, of w] by (simp only:)
qed

lemma ssize_of_small: "unat w < 2 ^ 63 \<Longrightarrow> ssize_of w = int (unat w)"
  by (simp only: ssize_of_eq if_True)

lemma ssize_of_neg_iff: "ssize_of w < 0 \<longleftrightarrow> 2 ^ 63 \<le> unat w"
proof -
  have neg: "(if n < 2 ^ 63 then int n else int n - 2 ^ 64) < 0 \<longleftrightarrow> 2 ^ 63 \<le> n"
    if "n < 2 ^ 64" for n :: nat
    using that by auto
  show ?thesis unfolding ssize_of_eq by (rule neg) (rule unat_less64)
qed

section \<open>Counting\<close>

text \<open>The number of indices with a property, when the property changes at one index only.\<close>

lemma card_upd:
  assumes "finite {t. f t}" "\<And>t. u \<noteq> t \<Longrightarrow> g t = f t"
  shows "card {t. g t} + (if f u then 1 else 0) = card {t. f t} + (if g u then 1 else 0)"
proof -
  have F: "{t. f t} = (if f u then insert u {t. t \<noteq> u \<and> f t} else {t. t \<noteq> u \<and> f t})"
    and G: "{t. g t} = (if g u then insert u {t. t \<noteq> u \<and> f t} else {t. t \<noteq> u \<and> f t})"
    using assms(2) by (auto split: if_splits) metis+
  have "finite {t. t \<noteq> u \<and> f t}" using assms(1) by (rule rev_finite_subset) auto
  then show ?thesis unfolding F G by simp
qed

end
