(* ===== verification/RB_Layout.thy ===== *)
theory RB_Layout
  imports RB_Prelude
begin

text \<open>
  The memory layout of a ring: \<^verbatim>\<open>get_aligned_offset\<close>, \<^verbatim>\<open>SizeInfo_t\<close> and
  \<^verbatim>\<open>get_total_size\<close> of \<^verbatim>\<open>RingBuf_common.c\<close>, with \<open>size_t\<close> arithmetic kept at its
  64 bits, and the sizes of the structures of \<^verbatim>\<open>RingBuf_private.h\<close> computed from their
  members by the C layout rule.
\<close>

section \<open>Structure sizes\<close>

definition CACHE_LINE_SIZE :: size_t where
  "CACHE_LINE_SIZE = 64"

definition HUGEPAGE_SIZE :: size_t where
  "HUGEPAGE_SIZE = 2 * 1024 * 1024"

text \<open>
  A structure's members as pairs of a size and an alignment, in order: each starts at the
  next multiple of its alignment, and the structure ends at a multiple of its own.
\<close>

definition align_nat :: "nat \<Rightarrow> nat \<Rightarrow> nat" where
  "align_nat a n = (n + a - 1) div a * a"

fun place_members :: "nat \<Rightarrow> (nat \<times> nat) list \<Rightarrow> nat" where
  "place_members off [] = off"
| "place_members off ((sz, al) # ms) = place_members (align_nat al off + sz) ms"

definition struct_size :: "nat \<Rightarrow> (nat \<times> nat) list \<Rightarrow> nat" where
  "struct_size al ms = align_nat al (place_members 0 ms)"

text \<open>The metadata block both ring structures hold, without and with the two offsets.\<close>

definition sizeof_meta :: nat where
  "sizeof_meta = struct_size 64 [(8, 8), (8, 8), (8, 8), (8, 8), (4, 4), (4, 4), (8, 8), (8, 8)]"

definition sizeof_block_meta :: nat where
  "sizeof_block_meta = struct_size 64 [(8, 8), (8, 8), (8, 8), (8, 8), (4, 4), (4, 4)]"

definition sizeof_RingBuf :: nat where
  "sizeof_RingBuf = struct_size 64 [(8, 64), (8, 64), (sizeof_meta, 64)]"

definition sizeof_Slot :: nat where
  "sizeof_Slot = struct_size 64 [(8, 64)]"

text \<open>The sizes of \<open>pthread_mutex_t\<close> and \<open>pthread_cond_t\<close> are the C library's.\<close>

definition sizeof_BRingBuf :: "nat \<Rightarrow> nat \<Rightarrow> nat" where
  "sizeof_BRingBuf mutex_size cond_size =
     struct_size 64 [(8, 64), (8, 64), (mutex_size, 64), (cond_size, 64), (cond_size, 64),
       (sizeof_block_meta, 64)]"

lemmas struct_sizes =
  sizeof_RingBuf_def sizeof_Slot_def sizeof_BRingBuf_def sizeof_meta_def sizeof_block_meta_def
  struct_size_def align_nat_def

lemma sizeof_RingBuf_eq [simp]: "sizeof_RingBuf = 192"
  by (simp add: struct_sizes)

lemma sizeof_Slot_eq [simp]: "sizeof_Slot = 64"
  by (simp add: struct_sizes)

section \<open>Alignment and total size\<close>

definition get_aligned_offset :: "size_t \<Rightarrow> size_t \<Rightarrow> size_t" where
  "get_aligned_offset base_offset alignment =
     (base_offset + alignment - 1) AND NOT (alignment - 1)"

definition NO_SLOT :: c_int where "NO_SLOT = push_bit 0 1"
definition MPSC_SLOT :: c_int where "MPSC_SLOT = push_bit 1 1"
definition MPMC_SLOT :: c_int where "MPMC_SLOT = push_bit 2 1"

lemmas slot_flags = NO_SLOT_def MPSC_SLOT_def MPMC_SLOT_def

record SizeInfo =
  buf_off_s :: size_t
  buf_off_e :: size_t
  slot_off_s :: size_t
  slot_off_e :: size_t
  total_size :: size_t
  aligned_objSize :: size_t

definition get_total_size :: "size_t \<Rightarrow> size_t \<Rightarrow> c_int \<Rightarrow> SizeInfo" where
  "get_total_size objNum objSize useSlot =
     (let aligned = get_aligned_offset objSize CACHE_LINE_SIZE;
          buffer_offset_start = get_aligned_offset (of_nat sizeof_RingBuf) CACHE_LINE_SIZE;
          buffer_offset_end =
            get_aligned_offset (buffer_offset_start + aligned * objNum) CACHE_LINE_SIZE;
          use_slots = (useSlot AND (MPMC_SLOT OR MPSC_SLOT) \<noteq> 0);
          slot_offset_start =
            (if use_slots then get_aligned_offset buffer_offset_end CACHE_LINE_SIZE else 0);
          slot_offset_end =
            (if use_slots
             then get_aligned_offset (slot_offset_start + of_nat sizeof_Slot * objNum)
                    CACHE_LINE_SIZE
             else 0);
          total =
            (if use_slots then slot_offset_end
             else if useSlot AND NO_SLOT \<noteq> 0 then buffer_offset_end
             else 0)
      in \<lparr>buf_off_s = buffer_offset_start, buf_off_e = buffer_offset_end,
          slot_off_s = slot_offset_start, slot_off_e = slot_offset_end,
          total_size = total, aligned_objSize = aligned\<rparr>)"


section \<open>What alignment computes\<close>

lemma align_nat_props:
  assumes "0 < a"
  shows align_nat_dvd: "a dvd align_nat a n"
    and align_nat_ge: "n \<le> align_nat a n"
    and align_nat_less: "align_nat a n < n + a"
proof -
  show "a dvd align_nat a n" by (simp add: align_nat_def)
  have split: "align_nat a n + (n + a - 1) mod a = n + a - 1"
    by (simp add: align_nat_def)
  moreover have "(n + a - 1) mod a < a" using assms by simp
  ultimately show "n \<le> align_nat a n" "align_nat a n < n + a"
    using assms by linarith+
qed

lemma align_nat_fixed: "a dvd n \<Longrightarrow> 0 < a \<Longrightarrow> align_nat a n = n"
  using align_nat_dvd [of a n] align_nat_ge [of a n] align_nat_less [of a n]
  by (auto elim!: dvdE) (metis add.commute mult.commute mult_Suc mult_less_cancel1 less_Suc_eq_le
      le_antisym mult_le_cancel1)

lemma and_not_minus: "(w::size_t) AND NOT m = w - (w AND m)"
proof -
  have "w - (w AND m) = w AND NOT (w AND m)"
    by (rule disjunctive_diff_eq_and_not) (auto simp: bit_eq_iff bit_simps)
  also have "\<dots> = w AND NOT m" by (auto simp: bit_eq_iff bit_simps)
  finally show ?thesis by simp
qed

lemma unat_and_not_mask:
  assumes "unat (a::size_t) = 2 ^ p"
  shows "unat (w AND NOT (a - 1)) = unat w div unat a * unat a"
proof -
  have "w AND NOT (a - 1) = w - (w AND (a - 1))" by (rule and_not_minus)
  moreover have le: "unat (w AND (a - 1)) \<le> unat w"
    by (simp add: unat_and_mask [OF assms])
  ultimately have "unat (w AND NOT (a - 1)) = unat w - unat w mod unat a"
    by (simp add: unat_sub unat_le_iff unat_and_mask [OF assms])
  then show ?thesis by (simp add: minus_mod_eq_div_mult)
qed

lemma get_aligned_offset_exact:
  assumes a: "unat a = 2 ^ p" and fit: "unat x + unat a \<le> 2 ^ 64"
  shows "unat (get_aligned_offset x a) = align_nat (unat a) (unat x)"
proof -
  have ne: "a \<noteq> 0" using a by (metis power_not_zero unsigned_0 zero_neq_numeral)
  have pos: "0 < unat a" using a by simp
  have "x + a - 1 = x + (a - 1)" by (rule add_diff_eq [symmetric])
  moreover have "unat x + unat (a - 1) < 2 ^ 64"
    using fit pos by (simp add: unat_dec ne)
  ultimately have "unat (x + a - 1) = unat x + unat (a - 1)"
    by (simp only: unat_add_small)
  then have "unat (x + a - 1) = unat x + unat a - 1"
    using pos by (simp add: unat_dec ne)
  then show ?thesis
    by (simp add: get_aligned_offset_def unat_and_not_mask [OF a] align_nat_def)
qed

lemma get_aligned_offset_wraps:
  assumes a: "unat a = 2 ^ p" and over: "2 ^ 64 < unat x + unat a"
  shows "get_aligned_offset x a = 0"
proof -
  have ne: "a \<noteq> 0" using a by (metis power_not_zero unsigned_0 zero_neq_numeral)
  have x: "unat x < 2 ^ 64" and a64: "unat a < 2 ^ 64" by (rule unat_less64)+
  have "unat (x + (a - 1)) = (unat x + (unat a - 1)) mod 2 ^ 64"
    by (simp add: unat_word_ariths unat_dec ne)
  also have "\<dots> = unat x + (unat a - 1) - 2 ^ 64"
    using x a64 over by (subst mod_if) auto
  also have "\<dots> < unat a" using x over by linarith
  finally have small: "unat (x + (a - 1)) < unat a" .
  have "x + a - 1 = x + (a - 1)" by (rule add_diff_eq [symmetric])
  with small have "unat (x + a - 1) div unat a = 0" by (simp only: div_less)
  then have "unat (get_aligned_offset x a) = 0"
    by (simp add: get_aligned_offset_def unat_and_not_mask [OF a])
  then show ?thesis by (simp add: unat_0_iff)
qed

lemma unat_CACHE_LINE [simp]: "unat CACHE_LINE_SIZE = 64"
  by (simp add: CACHE_LINE_SIZE_def)

lemma align_cache_line:
  "unat x + 64 \<le> 2 ^ 64 \<Longrightarrow> unat (get_aligned_offset x CACHE_LINE_SIZE) = align_nat 64 (unat x)"
  using get_aligned_offset_exact [of CACHE_LINE_SIZE 6 x] by simp


section \<open>Rings whose size computation does not wrap\<close>

text \<open>
  The code checks neither the rounding of the object size nor the product for overflow.
  This is the exact condition under which no step of \<^verbatim>\<open>get_total_size\<close> wraps.
\<close>

definition layout_fits :: "size_t \<Rightarrow> size_t \<Rightarrow> bool" where
  "layout_fits objNum objSize \<longleftrightarrow>
     unat objSize + 64 \<le> 2 ^ 64 \<and>
     192 + (align_nat 64 (unat objSize) + 64) * unat objNum + 64 \<le> 2 ^ 64"

lemma layout_fitsD:
  assumes "layout_fits objNum objSize"
  shows "unat objSize + 64 \<le> 2 ^ 64"
    and "192 + align_nat 64 (unat objSize) * unat objNum + 64 * unat objNum + 64 \<le> 2 ^ 64"
  using assms by (simp_all add: layout_fits_def algebra_simps)

lemma aligned_obj_size:
  "layout_fits objNum objSize \<Longrightarrow>
   unat (get_aligned_offset objSize CACHE_LINE_SIZE) = align_nat 64 (unat objSize)"
  by (rule align_cache_line) (rule layout_fitsD)

lemma buffer_start:
  "get_aligned_offset 192 CACHE_LINE_SIZE = 192"
  by (simp add: get_aligned_offset_def CACHE_LINE_SIZE_def)

lemma aligned_noop:
  assumes "64 dvd unat x" "unat x + 64 \<le> 2 ^ 64"
  shows "get_aligned_offset x CACHE_LINE_SIZE = x"
proof -
  have "unat (get_aligned_offset x CACHE_LINE_SIZE) = unat x"
    using assms by (simp only: align_cache_line) (simp add: align_nat_fixed)
  then show ?thesis by (simp only: word_unat_eq_iff)
qed

lemma buffer_region:
  assumes "layout_fits objNum objSize"
  defines "A \<equiv> get_aligned_offset objSize CACHE_LINE_SIZE"
  shows "unat (192 + A * objNum) = 192 + align_nat 64 (unat objSize) * unat objNum"
    and "get_aligned_offset (192 + A * objNum) CACHE_LINE_SIZE = 192 + A * objNum"
proof -
  note fits = layout_fitsD [OF assms(1)]
  have A: "unat A = align_nat 64 (unat objSize)"
    unfolding A_def by (rule aligned_obj_size [OF assms(1)])
  have prod: "unat (A * objNum) = unat A * unat objNum"
    by (rule unat_mult_small) (unfold A, use fits(2) in linarith)
  have "unat (192 + A * objNum) = unat (192::size_t) + unat (A * objNum)"
    by (rule unat_add_small) (use fits(2) A prod in simp)
  then show sum: "unat (192 + A * objNum) = 192 + align_nat 64 (unat objSize) * unat objNum"
    by (simp add: prod A)
  show "get_aligned_offset (192 + A * objNum) CACHE_LINE_SIZE = 192 + A * objNum"
  proof (rule aligned_noop)
    have "64 dvd align_nat 64 (unat objSize)" by (simp add: align_nat_dvd)
    then show "64 dvd unat (192 + A * objNum)" unfolding sum by simp
    show "unat (192 + A * objNum) + 64 \<le> 2 ^ 64" unfolding sum using fits(2) by linarith
  qed
qed

lemma slot_region:
  assumes "layout_fits objNum objSize"
  defines "B \<equiv> 192 + get_aligned_offset objSize CACHE_LINE_SIZE * objNum"
  shows "unat (B + 64 * objNum) = unat B + 64 * unat objNum"
    and "get_aligned_offset (B + 64 * objNum) CACHE_LINE_SIZE = B + 64 * objNum"
proof -
  note fits = layout_fitsD [OF assms(1)]
  note B = buffer_region(1) [OF assms(1), folded B_def]
  have prod: "unat (64 * objNum) = 64 * unat objNum"
    by (subst unat_mult_small) (use fits(2) in simp_all)
  show sum: "unat (B + 64 * objNum) = unat B + 64 * unat objNum"
    unfolding prod [symmetric] by (rule unat_add_small) (use fits(2) B prod in simp)
  show "get_aligned_offset (B + 64 * objNum) CACHE_LINE_SIZE = B + 64 * objNum"
  proof (rule aligned_noop)
    have "64 dvd align_nat 64 (unat objSize)" by (simp add: align_nat_dvd)
    then show "64 dvd unat (B + 64 * objNum)" unfolding sum B by simp
    show "unat (B + 64 * objNum) + 64 \<le> 2 ^ 64" unfolding sum B using fits(2) by linarith
  qed
qed

lemma get_total_size_slots:
  assumes fits: "layout_fits objNum objSize" and slots: "useSlot AND (MPMC_SLOT OR MPSC_SLOT) \<noteq> 0"
  defines "info \<equiv> get_total_size objNum objSize useSlot"
    and "A \<equiv> align_nat 64 (unat objSize)" and "N \<equiv> unat objNum"
  shows "unat (aligned_objSize info) = A" "unat (buf_off_s info) = sizeof_RingBuf"
    "unat (buf_off_e info) = sizeof_RingBuf + A * N" "slot_off_s info = buf_off_e info"
    "unat (slot_off_e info) = sizeof_RingBuf + A * N + sizeof_Slot * N"
    "total_size info = slot_off_e info"
  using slots slot_region [OF fits] buffer_region [OF fits] aligned_obj_size [OF fits]
  by (simp_all add: info_def A_def N_def get_total_size_def Let_def buffer_start)

lemma get_total_size_no_slots:
  assumes fits: "layout_fits objNum objSize"
  defines "info \<equiv> get_total_size objNum objSize NO_SLOT"
    and "A \<equiv> align_nat 64 (unat objSize)" and "N \<equiv> unat objNum"
  shows "unat (aligned_objSize info) = A" "unat (buf_off_s info) = sizeof_RingBuf"
    "unat (buf_off_e info) = sizeof_RingBuf + A * N" "slot_off_s info = 0" "slot_off_e info = 0"
    "total_size info = buf_off_e info"
  using buffer_region [OF fits] aligned_obj_size [OF fits]
  by (simp_all add: info_def A_def N_def get_total_size_def Let_def buffer_start slot_flags)

end
