(* ===== verification/RB_Error.thy ===== *)
theory RB_Error
  imports RB_Prelude
begin

text \<open>
  Return codes of the library (\<^verbatim>\<open>RingBuf_public.h\<close>, lines 40 to 53) and
  \<^verbatim>\<open>RingBuf_strerror\<close> of \<^verbatim>\<open>RingBuf_common.c\<close>. The codes are \<open>int\<close> values: every operation
  returns them through \<open>int\<close> or \<open>ssize_t\<close>, neither of which they overflow. The C library's
  \<open>strerror\<close> and the thread's \<open>errno\<close> are parameters.
\<close>

named_theorems err_codes "the values of the return codes"

definition RINGBUF_SUCCESS :: int where [err_codes]: "RINGBUF_SUCCESS = 0"
definition RINGBUF_FULL :: int where [err_codes]: "RINGBUF_FULL = - 100"
definition RINGBUF_EMPTY :: int where [err_codes]: "RINGBUF_EMPTY = - 101"
definition RINGBUF_CONTENTION :: int where [err_codes]: "RINGBUF_CONTENTION = - 103"
definition RINGBUF_INVALID_PARAM :: int where [err_codes]: "RINGBUF_INVALID_PARAM = - 104"
definition RINGBUF_NO_MAPPING_TYPE :: int where [err_codes]: "RINGBUF_NO_MAPPING_TYPE = - 105"
definition RINGBUF_CAPACITY_WRONG :: int where [err_codes]: "RINGBUF_CAPACITY_WRONG = - 106"
definition RINGBUF_MAPPING_NOT_EXISTS :: int where
  [err_codes]: "RINGBUF_MAPPING_NOT_EXISTS = - 107"
definition RINGBUF_MAPPING_SIZE_ERROR :: int where
  [err_codes]: "RINGBUF_MAPPING_SIZE_ERROR = - 108"
definition RINGBUF_PUSH_SIZE_TOO_LARGE :: int where
  [err_codes]: "RINGBUF_PUSH_SIZE_TOO_LARGE = - 109"
definition RINGBUF_POP_SIZE_TOO_LARGE :: int where
  [err_codes]: "RINGBUF_POP_SIZE_TOO_LARGE = - 110"
definition RINGBUF_USE_SLOT_NA :: int where [err_codes]: "RINGBUF_USE_SLOT_NA = - 111"
definition RINGBUF_SLOT_WRITING_DATA :: int where
  [err_codes]: "RINGBUF_SLOT_WRITING_DATA = - 112"
definition RINGBUF_SLOT_STAT_UNKNOWN :: int where
  [err_codes]: "RINGBUF_SLOT_STAT_UNKNOWN = - 113"

text \<open>
  The \<open>switch\<close> of \<^verbatim>\<open>RingBuf_strerror\<close>. Its default branch describes the current \<open>errno\<close>,
  not the code it was given.
\<close>

definition RingBuf_strerror :: "(int \<Rightarrow> string) \<Rightarrow> int \<Rightarrow> int \<Rightarrow> string" where
  "RingBuf_strerror strerror errno error_code =
     (if error_code = RINGBUF_SUCCESS then ''Success''
      else if error_code = RINGBUF_FULL then ''Ring buffer is full''
      else if error_code = RINGBUF_EMPTY then ''Ring buffer is empty''
      else if error_code = RINGBUF_CONTENTION then ''High contention, retry suggested''
      else if error_code = RINGBUF_INVALID_PARAM then ''Invalid parameters''
      else if error_code = RINGBUF_NO_MAPPING_TYPE then ''No mapping type specified''
      else if error_code = RINGBUF_CAPACITY_WRONG
        then ''Capacity must be the power of two and >= 2''
      else if error_code = RINGBUF_MAPPING_NOT_EXISTS
        then ''Use MAP_EXISTS but memory mapping does not exist''
      else if error_code = RINGBUF_MAPPING_SIZE_ERROR then ''Mapping size mismatch''
      else if error_code = RINGBUF_PUSH_SIZE_TOO_LARGE then ''Push size exceeded base obj size''
      else if error_code = RINGBUF_SLOT_WRITING_DATA then ''Producer is writing slot''
      else if error_code = RINGBUF_SLOT_STAT_UNKNOWN
        then ''Ring buffer slot data unknown, probably won't happen''
      else strerror errno)"

text \<open>Every error code the header defines, with the two the \<open>switch\<close> leaves out last.\<close>

definition described_codes :: "int list" where
  "described_codes =
     [RINGBUF_SUCCESS, RINGBUF_FULL, RINGBUF_EMPTY, RINGBUF_CONTENTION, RINGBUF_INVALID_PARAM,
      RINGBUF_NO_MAPPING_TYPE, RINGBUF_CAPACITY_WRONG, RINGBUF_MAPPING_NOT_EXISTS,
      RINGBUF_MAPPING_SIZE_ERROR, RINGBUF_PUSH_SIZE_TOO_LARGE, RINGBUF_SLOT_WRITING_DATA,
      RINGBUF_SLOT_STAT_UNKNOWN]"

lemma described_codes_distinct: "distinct described_codes"
  by (simp add: described_codes_def err_codes)

lemma strerror_described_distinct:
  "distinct (map (RingBuf_strerror strerror errno) described_codes)"
  by (simp add: described_codes_def err_codes RingBuf_strerror_def)

text \<open>The codes the ring operations return are negative, so none is a ticket.\<close>

lemma codes_negative [err_codes]:
  "RINGBUF_FULL < 0" "RINGBUF_EMPTY < 0" "RINGBUF_CONTENTION < 0"
  "RINGBUF_PUSH_SIZE_TOO_LARGE < 0" "RINGBUF_POP_SIZE_TOO_LARGE < 0"
  "RINGBUF_SLOT_WRITING_DATA < 0" "RINGBUF_SLOT_STAT_UNKNOWN < 0"
  by (simp_all add: RINGBUF_FULL_def RINGBUF_EMPTY_def RINGBUF_CONTENTION_def
      RINGBUF_PUSH_SIZE_TOO_LARGE_def RINGBUF_POP_SIZE_TOO_LARGE_def
      RINGBUF_SLOT_WRITING_DATA_def RINGBUF_SLOT_STAT_UNKNOWN_def)

end
