(* ===== verification/RB_Ring.thy ===== *)
theory RB_Ring
  imports RB_Layout RB_Error
begin

text \<open>
  The shared ring: \<^verbatim>\<open>RingBuf_t\<close> of \<^verbatim>\<open>RingBuf_private.h\<close> with the memory that follows it,
  the two address macros, \<open>memcpy\<close> into and out of an element, the compare-and-exchange on
  the two positions, and the initialisation branch of \<^verbatim>\<open>get_buf\<close>.

  The block a ring lives in is addressed by offsets from its start. \<open>bytes\<close> holds the
  element area byte by byte, \<open>cells\<close> the \<open>atomic_size_t\<close> slots by the offset of the slot;
  the layout facts of \<^verbatim>\<open>RB_Layout\<close> show that the two areas do not overlap.
\<close>

section \<open>State\<close>

record ring =
  r_head :: size_t
  r_tail :: size_t
  r_objSize :: size_t
  r_objNum :: size_t
  r_mask :: size_t
  r_totalSize :: size_t
  r_mapType :: c_int
  r_fd :: int
  r_buffer_offset :: size_t
  r_slot_offset :: size_t
  bytes :: "size_t \<Rightarrow> byte"
  cells :: "size_t \<Rightarrow> size_t"

definition SLOT_UNKNOWN :: c_int where "SLOT_UNKNOWN = 0"
definition SLOT_EMPTY :: c_int where "SLOT_EMPTY = push_bit 0 1"
definition SLOT_VALID :: c_int where "SLOT_VALID = push_bit 1 1"

lemmas slot_stats = SLOT_UNKNOWN_def SLOT_EMPTY_def SLOT_VALID_def

text \<open>\<open>&GET_BUFFER(r)[idx * r->objSize_]\<close> and the address of \<open>GET_SLOT(r, i)\<close>.\<close>

definition GET_BUFFER :: "ring \<Rightarrow> size_t \<Rightarrow> size_t" where
  "GET_BUFFER r idx = r_buffer_offset r + idx * r_objSize r"

definition GET_SLOT :: "ring \<Rightarrow> size_t \<Rightarrow> size_t" where
  "GET_SLOT r i = r_slot_offset r + i * of_nat sizeof_Slot"

definition load_slot :: "ring \<Rightarrow> size_t \<Rightarrow> size_t" where
  "load_slot r i = cells r (GET_SLOT r i)"

definition store_slot :: "ring \<Rightarrow> size_t \<Rightarrow> size_t \<Rightarrow> ring" where
  "store_slot r i v = r\<lparr>cells := (cells r)(GET_SLOT r i := v)\<rparr>"

section \<open>memcpy and compare-and-exchange\<close>

text \<open>
  The caller's object is the function from byte positions to bytes that its pointer denotes.
\<close>

type_synonym src = "nat \<Rightarrow> byte"

definition write_byte :: "ring \<Rightarrow> size_t \<Rightarrow> byte \<Rightarrow> ring" where
  "write_byte r a v = r\<lparr>bytes := (bytes r)(a := v)\<rparr>"

primrec memcpy_in :: "ring \<Rightarrow> size_t \<Rightarrow> src \<Rightarrow> nat \<Rightarrow> ring" where
  "memcpy_in r a src 0 = r"
| "memcpy_in r a src (Suc n) = write_byte (memcpy_in r a src n) (a + of_nat n) (src n)"

definition memcpy_out :: "ring \<Rightarrow> size_t \<Rightarrow> nat \<Rightarrow> byte list" where
  "memcpy_out r a n = map (\<lambda>i. bytes r (a + of_nat i)) [0..<n]"

text \<open>
  \<open>atomic_compare_exchange_strong_explicit\<close>: whether it succeeded, the value left in
  \<open>expected\<close>, and the new state.
\<close>

definition cas_head :: "ring \<Rightarrow> size_t \<Rightarrow> size_t \<Rightarrow> bool \<times> size_t \<times> ring" where
  "cas_head r expected desired =
     (if r_head r = expected then (True, expected, r\<lparr>r_head := desired\<rparr>)
      else (False, r_head r, r))"

definition cas_tail :: "ring \<Rightarrow> size_t \<Rightarrow> size_t \<Rightarrow> bool \<times> size_t \<times> ring" where
  "cas_tail r expected desired =
     (if r_tail r = expected then (True, expected, r\<lparr>r_tail := desired\<rparr>)
      else (False, r_tail r, r))"

section \<open>Initialisation\<close>

definition MAP_MALLOC :: c_int where "MAP_MALLOC = push_bit 24 1"
definition MAP_SHM :: c_int where "MAP_SHM = push_bit 25 1"
definition MAP_NEW :: c_int where "MAP_NEW = push_bit 26 1"
definition MAP_EXISTS :: c_int where "MAP_EXISTS = push_bit 27 1"

lemmas map_flags = MAP_MALLOC_def MAP_SHM_def MAP_NEW_def MAP_EXISTS_def

text \<open>The slot loops of \<^verbatim>\<open>get_buf\<close>: \<open>for (i = 0; i < n; ++i) GET_SLOT(r, i) = f i\<close>.\<close>

primrec init_slots :: "(size_t \<Rightarrow> size_t) \<Rightarrow> nat \<Rightarrow> ring \<Rightarrow> ring" where
  "init_slots f 0 r = r"
| "init_slots f (Suc n) r = store_slot (init_slots f n r) (of_nat n) (f (of_nat n))"

text \<open>The branch \<open>if (needNew)\<close> of \<^verbatim>\<open>get_buf\<close>, on the block it obtained.\<close>

definition init_ring :: "ring \<Rightarrow> SizeInfo \<Rightarrow> size_t \<Rightarrow> bool \<Rightarrow> int \<Rightarrow> c_int \<Rightarrow> ring" where
  "init_ring r0 info objNum useMalloc fd useSlot =
     (let r = r0\<lparr>r_head := 0, r_tail := 0, r_objSize := aligned_objSize info, r_objNum := objNum,
            r_mask := objNum - 1, r_totalSize := total_size info,
            r_mapType := (if useMalloc then MAP_MALLOC else MAP_SHM), r_fd := fd,
            r_buffer_offset := buf_off_s info\<rparr>
      in if useSlot AND MPMC_SLOT \<noteq> 0
         then init_slots (\<lambda>i. i) (unat objNum) (r\<lparr>r_slot_offset := slot_off_s info\<rparr>)
         else if useSlot AND MPSC_SLOT \<noteq> 0
         then init_slots (\<lambda>i. ucast SLOT_EMPTY) (unat objNum) (r\<lparr>r_slot_offset := slot_off_s info\<rparr>)
         else r)"

section \<open>Geometry: the fields no operation changes\<close>

definition geom :: "ring \<Rightarrow> size_t \<times> size_t \<times> size_t \<times> size_t \<times> size_t" where
  "geom r = (r_objSize r, r_objNum r, r_mask r, r_buffer_offset r, r_slot_offset r)"

definition cap :: "ring \<Rightarrow> nat" where
  "cap r = unat (r_objNum r)"

definition osz :: "ring \<Rightarrow> nat" where
  "osz r = unat (r_objSize r)"

text \<open>
  A well-formed ring: a power-of-two capacity and an element area inside the address space.
  \<open>slots_wf\<close> is the same for the slots, which a ring made with \<open>NO_SLOT\<close> does not have.
\<close>

definition ring_wf :: "ring \<Rightarrow> bool" where
  "ring_wf r \<longleftrightarrow> 2 \<le> r_objNum r \<and> r_objNum r AND (r_objNum r - 1) = 0 \<and>
     r_mask r = r_objNum r - 1 \<and>
     unat (r_buffer_offset r) + cap r * osz r \<le> 2 ^ 64"

definition slots_wf :: "ring \<Rightarrow> bool" where
  "slots_wf r \<longleftrightarrow> unat (r_slot_offset r) + cap r * sizeof_Slot \<le> 2 ^ 64"

text \<open>The address of the element of ticket \<open>k\<close>, and one of its bytes.\<close>

definition elem_addr :: "ring \<Rightarrow> nat \<Rightarrow> size_t" where
  "elem_addr r k = GET_BUFFER r (of_nat k AND r_mask r)"

definition byte_at :: "ring \<Rightarrow> nat \<Rightarrow> nat \<Rightarrow> byte" where
  "byte_at r k i = bytes r (elem_addr r k + of_nat i)"

definition seq_at :: "ring \<Rightarrow> nat \<Rightarrow> size_t" where
  "seq_at r k = load_slot r (of_nat k AND r_mask r)"

lemma geom_eqD:
  assumes "geom r' = geom r"
  shows "r_objSize r' = r_objSize r" "r_objNum r' = r_objNum r" "r_mask r' = r_mask r"
    "r_buffer_offset r' = r_buffer_offset r" "r_slot_offset r' = r_slot_offset r"
    "cap r' = cap r" "osz r' = osz r" "elem_addr r' k = elem_addr r k"
    "GET_BUFFER r' i = GET_BUFFER r i" "GET_SLOT r' i = GET_SLOT r i" "ring_wf r' = ring_wf r"
    "slots_wf r' = slots_wf r"
  using assms
  by (simp_all add: geom_def cap_def osz_def elem_addr_def GET_BUFFER_def GET_SLOT_def ring_wf_def
      slots_wf_def)

lemma geom_updates [simp]:
  "geom (r\<lparr>r_head := h\<rparr>) = geom r" "geom (r\<lparr>r_tail := t\<rparr>) = geom r"
  "geom (r\<lparr>bytes := b\<rparr>) = geom r" "geom (r\<lparr>cells := c\<rparr>) = geom r"
  "geom (store_slot r i v) = geom r" "geom (write_byte r a w) = geom r"
  by (simp_all add: geom_def store_slot_def write_byte_def)

lemma geom_memcpy_in [simp]: "geom (memcpy_in r a src n) = geom r"
  by (induction n) simp_all

lemma geom_init_slots [simp]: "geom (init_slots f n r) = geom r"
  by (induction n) simp_all

lemmas geom_simps [simp] =
  geom_eqD [OF geom_updates(1)] geom_eqD [OF geom_updates(2)] geom_eqD [OF geom_updates(3)]
  geom_eqD [OF geom_updates(4)] geom_eqD [OF geom_updates(5)] geom_eqD [OF geom_updates(6)]
  geom_eqD [OF geom_memcpy_in] geom_eqD [OF geom_init_slots]

lemma field_updates [simp]:
  "r_head (store_slot r i v) = r_head r" "r_tail (store_slot r i v) = r_tail r"
  "bytes (store_slot r i v) = bytes r"
  "r_head (write_byte r a w) = r_head r" "r_tail (write_byte r a w) = r_tail r"
  "cells (write_byte r a w) = cells r"
  "r_head (memcpy_in r a src n) = r_head r" "r_tail (memcpy_in r a src n) = r_tail r"
  "cells (memcpy_in r a src n) = cells r"
  "r_head (init_slots f n r) = r_head r" "r_tail (init_slots f n r) = r_tail r"
  "bytes (init_slots f n r) = bytes r"
  by (induction n; simp add: store_slot_def write_byte_def)+


section \<open>Addresses of elements and slots\<close>

lemma wf_capE:
  assumes "ring_wf r"
  obtains p where "cap r = 2 ^ p" "1 \<le> p" "p < 64" "r_mask r = r_objNum r - 1"
proof -
  from assms have two: "2 \<le> cap r" by (simp add: ring_wf_def cap_def unat_le_iff)
  then have "r_objNum r \<noteq> 0" by (auto simp: cap_def)
  from word_and_pred_eq_0_iff [OF this] assms obtain p where p: "p < 64" "cap r = 2 ^ p"
    by (auto simp: ring_wf_def cap_def)
  from p two have "1 \<le> p" by (cases p) auto
  with p assms show ?thesis by (auto intro: that simp: ring_wf_def)
qed

lemma wf_cap:
  assumes "ring_wf r"
  shows wf_cap_ge2: "2 \<le> cap r" and wf_cap_pos: "0 < cap r" and wf_cap_le: "cap r \<le> 2 ^ 63"
proof -
  from assms obtain p where p: "cap r = 2 ^ p" "1 \<le> p" "p < 64" by (rule wf_capE)
  from p(1,2) show "2 \<le> cap r" using power_increasing [of 1 p "2::nat"] by simp
  then show "0 < cap r" by simp
  from p(3) have "(2::nat) ^ p \<le> 2 ^ 63" by (intro power_increasing) auto
  with p(1) show "cap r \<le> 2 ^ 63" by simp
qed

lemma unat_index:
  assumes "ring_wf r"
  shows "unat (w AND r_mask r) = unat w mod cap r"
proof -
  from assms obtain p where p: "cap r = 2 ^ p" and mask: "r_mask r = r_objNum r - 1"
    by (rule wf_capE)
  from p have "unat (r_objNum r) = 2 ^ p" by (simp add: cap_def)
  then show ?thesis unfolding mask cap_def by (rule unat_and_mask)
qed

lemma unat_ticket_index:
  assumes "ring_wf r"
  shows "unat (of_nat k AND r_mask r) = k mod cap r"
proof -
  from assms obtain p where "cap r = 2 ^ p" "p < 64" by (rule wf_capE)
  then show ?thesis by (simp only: unat_index [OF assms] unat_ticket_mod)
qed

lemma unat_elem_byte:
  assumes wf: "ring_wf r" and i: "i < osz r"
  shows "unat (elem_addr r k + of_nat i) = unat (r_buffer_offset r) + k mod cap r * osz r + i"
proof -
  let ?j = "k mod cap r"
  have j: "?j < cap r" using wf_cap_pos [OF wf] by simp
  then have "Suc ?j * osz r \<le> cap r * osz r" by (intro mult_le_mono1) simp
  then have fit: "unat (r_buffer_offset r) + ?j * osz r + i < 2 ^ 64"
    using wf i by (simp add: ring_wf_def)
  have "unat ((of_nat k AND r_mask r) * r_objSize r) = ?j * osz r"
    using fit by (subst unat_mult_small) (simp_all add: unat_ticket_index [OF wf] osz_def)
  then have "unat (elem_addr r k) = unat (r_buffer_offset r) + ?j * osz r"
    unfolding elem_addr_def GET_BUFFER_def using fit by (subst unat_add_small) simp_all
  moreover have "unat (of_nat i :: size_t) = i" using fit by (intro unat_of_nat64) simp
  ultimately show ?thesis using fit by (subst unat_add_small) simp_all
qed

lemma row_index_inject:
  assumes "a * n + i = b * n + j" "i < n" "j < (n::nat)"
  shows "a = b \<and> i = j"
proof -
  from assms have "(a * n + i) div n = (b * n + j) div n" "(a * n + i) mod n = (b * n + j) mod n"
    by simp_all
  with assms(2,3) show ?thesis by simp
qed

lemma elem_byte_eq_iff:
  assumes "ring_wf r" "i < osz r" "j < osz r"
  shows "elem_addr r k + of_nat i = elem_addr r l + of_nat j \<longleftrightarrow> k mod cap r = l mod cap r \<and> i = j"
proof
  assume "elem_addr r k + of_nat i = elem_addr r l + of_nat j"
  then have "unat (elem_addr r k + of_nat i) = unat (elem_addr r l + of_nat j)" by simp
  then show "k mod cap r = l mod cap r \<and> i = j"
    unfolding unat_elem_byte [OF assms(1,2)] unat_elem_byte [OF assms(1,3)]
    using row_index_inject [OF _ assms(2,3)] by simp
next
  assume "k mod cap r = l mod cap r \<and> i = j"
  then show "elem_addr r k + of_nat i = elem_addr r l + of_nat j"
    by (simp only: word_unat_eq_iff unat_elem_byte [OF assms(1,2)] unat_elem_byte [OF assms(1,3)])
qed

lemma unat_slot_addr:
  assumes wf: "ring_wf r" "slots_wf r"
  shows "unat (GET_SLOT r (of_nat k AND r_mask r)) = unat (r_slot_offset r) + k mod cap r * 64"
proof -
  have j: "k mod cap r < cap r" using wf_cap_pos [OF wf(1)] by simp
  then have "Suc (k mod cap r) * 64 \<le> cap r * 64" by (intro mult_le_mono1) simp
  then have fit: "unat (r_slot_offset r) + k mod cap r * 64 < 2 ^ 64"
    using wf(2) by (simp add: slots_wf_def)
  have "unat ((of_nat k AND r_mask r) * 64) = k mod cap r * 64"
    using fit by (subst unat_mult_small) (simp_all add: unat_ticket_index [OF wf(1)])
  then show ?thesis using fit by (simp add: GET_SLOT_def unat_add_small)
qed

lemma slot_addr_eq_iff:
  assumes "ring_wf r" "slots_wf r"
  shows "GET_SLOT r (of_nat k AND r_mask r) = GET_SLOT r (of_nat l AND r_mask r) \<longleftrightarrow>
    k mod cap r = l mod cap r"
  by (simp only: word_unat_eq_iff unat_slot_addr [OF assms]) simp


section \<open>Reading back what was written\<close>

lemma byte_at_frame [simp]:
  "byte_at (r\<lparr>r_head := h\<rparr>) k i = byte_at r k i" "byte_at (r\<lparr>r_tail := t\<rparr>) k i = byte_at r k i"
  "byte_at (store_slot r j v) k i = byte_at r k i"
  "byte_at (init_slots f n r) k i = byte_at r k i"
  by (simp_all add: byte_at_def)

lemma seq_at_frame [simp]:
  "seq_at (r\<lparr>r_head := h\<rparr>) k = seq_at r k" "seq_at (r\<lparr>r_tail := t\<rparr>) k = seq_at r k"
  "seq_at (write_byte r a w) k = seq_at r k" "seq_at (memcpy_in r a src n) k = seq_at r k"
  by (simp_all add: seq_at_def load_slot_def)

lemma byte_at_write:
  assumes "ring_wf r" "i < osz r" "j < osz r"
  shows "byte_at (write_byte r (elem_addr r l + of_nat j) v) k i =
    (if k mod cap r = l mod cap r \<and> i = j then v else byte_at r k i)"
  using elem_byte_eq_iff [OF assms, of k l]
  by (auto simp: byte_at_def write_byte_def elem_addr_def GET_BUFFER_def)

lemma byte_at_memcpy_in:
  assumes "ring_wf r" "i < osz r" "n \<le> osz r"
  shows "byte_at (memcpy_in r (elem_addr r l) src n) k i =
    (if k mod cap r = l mod cap r \<and> i < n then src i else byte_at r k i)"
  using assms(3)
proof (induction n)
  case 0
  then show ?case by simp
next
  case (Suc n)
  let ?r = "memcpy_in r (elem_addr r l) src n"
  have "byte_at (write_byte ?r (elem_addr ?r l + of_nat n) (src n)) k i =
      (if k mod cap ?r = l mod cap ?r \<and> i = n then src n else byte_at ?r k i)"
    by (rule byte_at_write) (use assms Suc.prems in simp_all)
  then show ?case using Suc by (auto simp: less_Suc_eq)
qed

lemma memcpy_out_bytes: "memcpy_out r (elem_addr r k) n = map (byte_at r k) [0..<n]"
  by (simp add: memcpy_out_def byte_at_def)

lemma memcpy_out_0: "memcpy_out r a 0 = []"
  by (simp add: memcpy_out_def)

lemma length_memcpy_out [simp]: "length (memcpy_out r a n) = n"
  by (simp add: memcpy_out_def)

lemma byte_at_mod: "ring_wf r \<Longrightarrow> k mod cap r = l mod cap r \<Longrightarrow> byte_at r k i = byte_at r l i"
  by (simp only: byte_at_def elem_addr_def word_unat_eq_iff [symmetric]) 
    (metis unat_ticket_index word_unat_eq_iff)

lemma seq_at_mod: "ring_wf r \<Longrightarrow> k mod cap r = l mod cap r \<Longrightarrow> seq_at r k = seq_at r l"
  by (simp only: seq_at_def word_unat_eq_iff [symmetric])
    (metis unat_ticket_index word_unat_eq_iff)

lemma seq_at_store:
  assumes "ring_wf r" "slots_wf r"
  shows "seq_at (store_slot r (of_nat l AND r_mask r) v) k =
    (if k mod cap r = l mod cap r then v else seq_at r k)"
  using slot_addr_eq_iff [OF assms, of k l]
  by (simp add: seq_at_def load_slot_def store_slot_def GET_SLOT_def)

section \<open>A fresh ring\<close>

lemma seq_at_init_slots:
  assumes "ring_wf r" "slots_wf r" "n \<le> cap r"
  shows "seq_at (init_slots f n r) k =
    (if k mod cap r < n then f (of_nat (k mod cap r)) else seq_at r k)"
  using assms(3)
proof (induction n)
  case 0
  then show ?case by simp
next
  case (Suc n)
  let ?r = "init_slots f n r"
  have small: "n mod cap r = n" using Suc.prems by simp
  then have "(of_nat n AND r_mask ?r) = (of_nat n :: size_t)"
    using unat_ticket_index [OF assms(1), of n] Suc.prems wf_cap_le [OF assms(1)]
    by (simp add: word_unat_eq_iff unat_of_nat64)
  moreover have "seq_at (store_slot ?r (of_nat n AND r_mask ?r) (f (of_nat n))) k =
      (if k mod cap ?r = n mod cap ?r then f (of_nat n) else seq_at ?r k)"
    by (rule seq_at_store) (use assms in simp_all)
  ultimately show ?case using Suc small by (auto simp: less_Suc_eq)
qed

text \<open>What \<^verbatim>\<open>get_buf\<close> accepts: a power-of-two capacity of at least two.\<close>

definition good_capacity :: "size_t \<Rightarrow> bool" where
  "good_capacity objNum \<longleftrightarrow> 2 \<le> objNum \<and> objNum AND (objNum - 1) = 0"

definition slot_mode :: "c_int \<Rightarrow> bool" where
  "slot_mode useSlot \<longleftrightarrow> useSlot \<in> {NO_SLOT, MPSC_SLOT, MPMC_SLOT}"

lemma init_ring_fields [simp]:
  "r_head (init_ring r0 info n m fd u) = 0" "r_tail (init_ring r0 info n m fd u) = 0"
  "r_objNum (init_ring r0 info n m fd u) = n"
  "r_objSize (init_ring r0 info n m fd u) = aligned_objSize info"
  "r_mask (init_ring r0 info n m fd u) = n - 1"
  "r_buffer_offset (init_ring r0 info n m fd u) = buf_off_s info"
  "bytes (init_ring r0 info n m fd u) = bytes r0"
  by (simp_all add: init_ring_def Let_def)

lemma init_ring_cap [simp]: "cap (init_ring r0 info n m fd u) = unat n"
  by (simp add: cap_def)

lemma init_ring_wf:
  assumes "good_capacity n" "layout_fits n sz" "slot_mode u"
  shows "ring_wf (init_ring r0 (get_total_size n sz u) n m fd u)"
proof -
  note fits = layout_fitsD(2) [OF assms(2)]
  have "unat (aligned_objSize (get_total_size n sz u)) = align_nat 64 (unat sz)"
    using assms(2) by (simp add: get_total_size_def Let_def aligned_obj_size)
  moreover have "unat (buf_off_s (get_total_size n sz u)) = 192"
    by (simp add: get_total_size_def Let_def buffer_start)
  ultimately show ?thesis
    using fits assms(1) by (simp add: ring_wf_def good_capacity_def osz_def mult.commute)
qed


lemma init_slot_ring_wf:
  assumes "layout_fits n sz" "u = MPMC_SLOT \<or> u = MPSC_SLOT"
  shows "slots_wf (init_ring r0 (get_total_size n sz u) n m fd u)"
proof -
  have slots: "u AND (MPMC_SLOT OR MPSC_SLOT) \<noteq> 0"
    using assms(2) by (auto simp: slot_flags)
  note info = get_total_size_slots [OF assms(1) slots]
  have "r_slot_offset (init_ring r0 (get_total_size n sz u) n m fd u)
      = slot_off_s (get_total_size n sz u)"
    using assms(2) by (auto simp: init_ring_def Let_def slot_flags)
  moreover have "192 + align_nat 64 (unat sz) * unat n + 64 * unat n \<le> 2 ^ 64"
    using layout_fitsD(2) [OF assms(1)] by simp
  ultimately show ?thesis
    using info by (simp add: slots_wf_def mult.commute)
qed

lemma seq_at_init_ring:
  fixes u :: c_int and r0 :: ring and m :: bool and fd :: int
  assumes "good_capacity n" "layout_fits n sz" "u = MPMC_SLOT \<or> u = MPSC_SLOT"
  defines "r \<equiv> init_ring r0 (get_total_size n sz u) n m fd u"
  shows "seq_at r k = (if u = MPMC_SLOT then of_nat (k mod cap r) else 1)"
proof -
  let ?r = "r0\<lparr>r_head := 0, r_tail := 0, r_objSize := aligned_objSize (get_total_size n sz u),
     r_objNum := n, r_mask := n - 1, r_totalSize := total_size (get_total_size n sz u),
     r_mapType := (if m then MAP_MALLOC else MAP_SHM), r_fd := fd,
     r_buffer_offset := buf_off_s (get_total_size n sz u),
     r_slot_offset := slot_off_s (get_total_size n sz u)\<rparr>"
  let ?f = "\<lambda>i. if u = MPMC_SLOT then i else 1"
  have r: "r = init_slots ?f (unat n) ?r"
    using assms(3) by (auto simp: r_def init_ring_def Let_def slot_flags slot_stats)
  have u: "slot_mode u" using assms(3) by (auto simp: slot_mode_def)
  have "ring_wf r" "slots_wf r"
    unfolding r_def by (rule init_ring_wf [OF assms(1,2) u]) (rule init_slot_ring_wf [OF assms(2,3)])
  then have wf: "ring_wf ?r" "slots_wf ?r" unfolding r by simp_all
  have "unat n \<le> cap ?r" by (simp add: cap_def)
  then have at: "seq_at r k =
      (if k mod cap ?r < unat n then ?f (of_nat (k mod cap ?r)) else seq_at ?r k)"
    unfolding r by (rule seq_at_init_slots [OF wf])
  have "cap ?r = cap r" "k mod cap r < unat n"
    using wf_cap_pos [OF wf(1)] unfolding r by (simp_all add: cap_def)
  then show ?thesis unfolding at by (simp only: if_True)
qed


section \<open>The queue a ring holds\<close>

text \<open>
  The object of position \<open>w\<close>, and the objects between the two positions, oldest first. Both
  are read through 64-bit positions, so nothing is assumed about their wrapping around.
\<close>

definition elem :: "ring \<Rightarrow> size_t \<Rightarrow> byte list" where
  "elem r w = memcpy_out r (GET_BUFFER r (w AND r_mask r)) (osz r)"

definition count :: "ring \<Rightarrow> nat" where
  "count r = unat (r_head r - r_tail r)"

definition ring_queue :: "ring \<Rightarrow> byte list list" where
  "ring_queue r = map (\<lambda>i. elem r (r_tail r + of_nat i)) [0..<count r]"

lemma length_ring_queue [simp]: "length (ring_queue r) = count r"
  by (simp add: ring_queue_def)

lemma length_elem [simp]: "length (elem r w) = osz r"
  by (simp add: elem_def)

lemma elem_of_nat: "elem r (of_nat k) = map (byte_at r k) [0..<osz r]"
  by (simp add: elem_def memcpy_out_bytes [symmetric] elem_addr_def)

lemma elem_frame [simp]:
  "elem (r\<lparr>r_head := h\<rparr>) w = elem r w" "elem (r\<lparr>r_tail := t\<rparr>) w = elem r w"
  "elem (store_slot r j v) w = elem r w"
  by (simp_all add: elem_def memcpy_out_def)

lemma elem_memcpy_in:
  assumes "ring_wf r" "n \<le> osz r"
  shows "elem (memcpy_in r (GET_BUFFER r (w AND r_mask r)) src n) v =
    (if unat v mod cap r = unat w mod cap r then map src [0..<n] @ drop n (elem r v)
     else elem r v)"
proof -
  let ?r' = "memcpy_in r (GET_BUFFER r (w AND r_mask r)) src n"
  have addr: "GET_BUFFER r (w AND r_mask r) = elem_addr r (unat w)"
    by (simp add: elem_addr_def)
  have at: "byte_at ?r' (unat v) i =
      (if unat v mod cap r = unat w mod cap r \<and> i < n then src i else byte_at r (unat v) i)"
    if "i < osz r" for i
    unfolding addr by (rule byte_at_memcpy_in [OF assms(1) that assms(2)])
  have old: "elem q v = map (byte_at q (unat v)) [0..<osz q]" for q
    using elem_of_nat [of q "unat v"] by simp
  show ?thesis
    unfolding old using at assms(2)
    by (auto intro!: nth_equalityI simp: nth_append drop_map)
qed

lemma position_mod:
  assumes "ring_wf r"
  shows "unat (w + of_nat i :: size_t) mod cap r = (unat w + i) mod cap r"
proof -
  from assms obtain p where "cap r = 2 ^ p" "p < 64" by (rule wf_capE)
  from unat_ticket_mod [OF this, of "unat w + i"] show ?thesis by simp
qed

lemma count_cap_less: "ring_wf r \<Longrightarrow> count r \<le> cap r \<Longrightarrow> count r < 2 ^ 64 - 1"
  using wf_cap_le [of r] by simp

lemma head_eq_tail_plus: "r_head r = r_tail r + of_nat (count r)"
  by (simp add: count_def)

lemma count_push:
  assumes "count r < 2 ^ 64 - 1"
  shows "unat (r_head r + 1 - r_tail r) = Suc (count r)"
proof -
  have "r_head r + 1 - r_tail r = of_nat (Suc (count r))"
    by (simp add: count_def)
  then show ?thesis using assms by (simp only: unat_of_nat64)
qed

lemma count_pop:
  assumes "0 < count r"
  shows "unat (r_head r - (r_tail r + 1)) = count r - 1"
proof -
  have "r_head r - r_tail r \<noteq> 0" using assms by (auto simp: count_def)
  then have "unat (r_head r - r_tail r - 1) = count r - 1"
    unfolding count_def by (rule unat_dec)
  then show ?thesis by (simp only: diff_diff_eq)
qed

text \<open>A ring that differs in the element at the head only holds the same queue, and with the head
  advanced that element is its last.\<close>

lemma elem_before_head:
  assumes wf: "ring_wf r" and room: "count r < cap r" and i: "i < count r"
  shows "unat (r_tail r + of_nat i) mod cap r \<noteq> unat (r_head r) mod cap r"
proof -
  have "(unat (r_tail r) + i) mod cap r \<noteq> (unat (r_tail r) + count r) mod cap r"
    by (rule mod_less_distinct) (use i room in simp_all)
  then show ?thesis by (subst head_eq_tail_plus) (simp only: position_mod [OF wf] not_False_eq_True)
qed

lemma ring_queue_same:
  assumes wf: "ring_wf r" and room: "count r < cap r"
    and ends: "r_tail r' = r_tail r" "r_head r' = r_head r"
    and same: "\<And>v. unat v mod cap r \<noteq> unat (r_head r) mod cap r \<Longrightarrow> elem r' v = elem r v"
  shows "ring_queue r' = ring_queue r"
  using elem_before_head [OF wf room] same by (simp add: ring_queue_def count_def ends)

lemma ring_queue_append:
  assumes wf: "ring_wf r" and room: "count r < cap r"
    and ends: "r_tail r' = r_tail r" "r_head r' = r_head r + 1"
    and same: "\<And>v. unat v mod cap r \<noteq> unat (r_head r) mod cap r \<Longrightarrow> elem r' v = elem r v"
  shows "count r' = Suc (count r)" "ring_queue r' = ring_queue r @ [elem r' (r_head r)]"
proof -
  show cnt: "count r' = Suc (count r)"
    using count_push [of r] count_cap_less [OF wf] room by (simp add: count_def ends)
  have "ring_queue r' = map (\<lambda>i. elem r' (r_tail r + of_nat i)) [0..<count r]
      @ [elem r' (r_tail r + of_nat (count r))]"
    by (simp add: ring_queue_def cnt ends)
  also have "\<dots> = ring_queue r @ [elem r' (r_head r)]"
    using elem_before_head [OF wf room] same by (simp add: ring_queue_def flip: head_eq_tail_plus)
  finally show "ring_queue r' = ring_queue r @ [elem r' (r_head r)]" .
qed

text \<open>Copying an object in at the head and advancing the head appends it to the queue.\<close>

lemma ring_queue_push:
  fixes src :: src
  assumes wf: "ring_wf r" and room: "count r < cap r" and n: "n \<le> osz r"
  defines "r' \<equiv> (memcpy_in r (GET_BUFFER r (r_head r AND r_mask r)) src n)\<lparr>r_head := r_head r + 1\<rparr>"
  shows "count r' = Suc (count r)"
    and "ring_queue r' =
      ring_queue r @ [map src [0..<n] @ drop n (elem r (r_head r))]"
proof -
  have elems: "elem r' v = (if unat v mod cap r = unat (r_head r) mod cap r
      then map src [0..<n] @ drop n (elem r v) else elem r v)" for v
    by (simp add: r'_def elem_memcpy_in [OF wf n])
  note append = ring_queue_append [OF wf room, of r']
  show "count r' = Suc (count r)" by (rule append(1)) (simp_all add: elems, simp_all add: r'_def)
  have "ring_queue r' = ring_queue r @ [elem r' (r_head r)]"
    by (rule append(2)) (simp_all add: elems, simp_all add: r'_def)
  then show "ring_queue r' = ring_queue r @ [map src [0..<n] @ drop n (elem r (r_head r))]"
    by (simp add: elems)
qed

text \<open>Advancing the tail drops the oldest object.\<close>

lemma ring_queue_pop:
  assumes "0 < count r"
  shows "ring_queue r = elem r (r_tail r) # ring_queue (r\<lparr>r_tail := r_tail r + 1\<rparr>)"
    and "count (r\<lparr>r_tail := r_tail r + 1\<rparr>) = count r - 1"
proof -
  show cnt: "count (r\<lparr>r_tail := r_tail r + 1\<rparr>) = count r - 1"
    using count_pop [OF assms] by (simp add: count_def)
  have "[0..<count r] = 0 # map Suc [0..<count r - 1]"
    using assms by (simp add: map_Suc_upt upt_conv_Cons)
  then show "ring_queue r = elem r (r_tail r) # ring_queue (r\<lparr>r_tail := r_tail r + 1\<rparr>)"
    by (simp add: ring_queue_def cnt add.assoc)
qed

lemma ring_queue_frame [simp]:
  "ring_queue (store_slot r j v) = ring_queue r" "count (store_slot r j v) = count r"
  by (simp_all add: ring_queue_def count_def)

lemma ring_queue_Nil_iff: "ring_queue r = [] \<longleftrightarrow> r_head r = r_tail r"
  by (auto simp: ring_queue_def count_def unat_0_iff)

lemma count_init_ring [simp]: "count (init_ring r0 info n m fd u) = 0"
  by (simp add: count_def)


text \<open>
  A client that got an element's address writes bytes at offsets of its choice, in its order;
  what that makes of the element.
\<close>

primrec write_all :: "ring \<Rightarrow> size_t \<Rightarrow> (nat \<times> byte) list \<Rightarrow> ring" where
  "write_all r a [] = r"
| "write_all r a (w # ws) = write_all (write_byte r (a + of_nat (fst w)) (snd w)) a ws"

primrec put_all :: "byte list \<Rightarrow> (nat \<times> byte) list \<Rightarrow> byte list" where
  "put_all v [] = v"
| "put_all v (w # ws) = put_all (v[fst w := snd w]) ws"

lemma write_all_frame [simp]:
  "geom (write_all r a ws) = geom r" "r_head (write_all r a ws) = r_head r"
  "r_tail (write_all r a ws) = r_tail r" "cells (write_all r a ws) = cells r"
  by (induction ws arbitrary: r) simp_all

lemmas write_all_geom [simp] = geom_eqD [OF write_all_frame(1)]

lemma elem_write:
  assumes "ring_wf r" "j < osz r"
  shows "elem (write_byte r (GET_BUFFER r (w AND r_mask r) + of_nat j) b) v =
    (if unat v mod cap r = unat w mod cap r then (elem r v)[j := b] else elem r v)"
proof -
  have addr: "GET_BUFFER r (w AND r_mask r) = elem_addr r (unat w)" by (simp add: elem_addr_def)
  have old: "elem q v = map (byte_at q (unat v)) [0..<osz q]" for q
    using elem_of_nat [of q "unat v"] by simp
  show ?thesis
    unfolding old addr using byte_at_write [OF assms(1) _ assms(2), of _ "unat w" b "unat v"]
    by (auto intro!: nth_equalityI simp: nth_list_update)
qed

lemma elem_write_all:
  assumes "ring_wf r" "\<forall>w \<in> set ws. fst w < osz r"
  shows "elem (write_all r (GET_BUFFER r (w AND r_mask r)) ws) v =
    (if unat v mod cap r = unat w mod cap r then put_all (elem r v) ws else elem r v)"
  using assms
proof (induction ws arbitrary: r)
  case (Cons x ws)
  let ?r = "write_byte r (GET_BUFFER r (w AND r_mask r) + of_nat (fst x)) (snd x)"
  have "elem (write_all ?r (GET_BUFFER ?r (w AND r_mask ?r)) ws) v =
      (if unat v mod cap ?r = unat w mod cap ?r then put_all (elem ?r v) ws else elem ?r v)"
    by (rule Cons.IH) (use Cons.prems in simp_all)
  then show ?case using elem_write [OF Cons.prems(1), of "fst x" w "snd x" v] Cons.prems(2) by simp
qed simp

text \<open>
  A ring on a zeroed \<^verbatim>\<open>malloc\<close> block, as \<^verbatim>\<open>get_buf\<close> makes it (whose descriptor is then
  \<open>-9999\<close>): the concrete rings of the examples.
\<close>

definition blank_block :: ring where
  "blank_block = \<lparr>r_head = 0, r_tail = 0, r_objSize = 0, r_objNum = 0, r_mask = 0, r_totalSize = 0,
     r_mapType = 0, r_fd = 0, r_buffer_offset = 0, r_slot_offset = 0, bytes = (\<lambda>_. 0),
     cells = (\<lambda>_. 0)\<rparr>"

definition make_ring :: "size_t \<Rightarrow> size_t \<Rightarrow> c_int \<Rightarrow> ring" where
  "make_ring n sz u = init_ring blank_block (get_total_size n sz u) n True (- 9999) u"

lemma make_ring_4_8:
  "good_capacity 4" "layout_fits 4 8"
  by (simp_all add: good_capacity_def layout_fits_def align_nat_def)

end
