(* ===== verification/RB_Fifo.thy ===== *)
theory RB_Fifo
  imports RB_Prelude
begin

text \<open>
  The contract every ring variant promises to a client that uses it from one thread at a
  time: a bounded first-in first-out queue of objects. The abstract queue is a list, its
  operations are \<open>spec_op\<close>, and the locale \<open>bounded_queue\<close> states the laws an
  implementation has to satisfy. The lemmas of the locale are what a client gets: any
  sequence of operations behaves as on the list.
\<close>

type_synonym obj = "byte list"

datatype qop = Enq obj | Deq

text \<open>An operation's visible outcome: whether the object was taken, or the object handed out.\<close>

datatype qres = Pushed bool | Popped "obj option"

fun spec_op :: "nat \<Rightarrow> obj list \<Rightarrow> qop \<Rightarrow> qres \<times> obj list" where
  "spec_op c q (Enq v) = (if length q < c then (Pushed True, q @ [v]) else (Pushed False, q))"
| "spec_op c [] Deq = (Popped None, [])"
| "spec_op c (v # q) Deq = (Popped (Some v), q)"

fun run_ops :: "('s \<Rightarrow> qop \<Rightarrow> qres \<times> 's) \<Rightarrow> 's \<Rightarrow> qop list \<Rightarrow> qres list \<times> 's" where
  "run_ops f s [] = ([], s)"
| "run_ops f s (x # xs) =
     (let (y, s') = f s x; (ys, s'') = run_ops f s' xs in (y # ys, s''))"

fun op_fits :: "nat \<Rightarrow> qop \<Rightarrow> bool" where
  "op_fits n (Enq v) \<longleftrightarrow> length v = n"
| "op_fits n Deq \<longleftrightarrow> True"

lemma spec_op_bounded: "length q \<le> c \<Longrightarrow> length (snd (spec_op c q x)) \<le> c"
  by (cases "(c, q, x)" rule: spec_op.cases) auto

lemma spec_enq_all:
  "length q + length vs \<le> c \<Longrightarrow>
   run_ops (spec_op c) q (map Enq vs) = (replicate (length vs) (Pushed True), q @ vs)"
  by (induction vs arbitrary: q) auto

lemma spec_deq_all:
  "run_ops (spec_op c) (vs @ q) (replicate (length vs) Deq) = (map (Popped \<circ> Some) vs, q)"
  by (induction vs) auto

lemma run_ops_append:
  "run_ops f s (xs @ ys) =
   (let (a, s') = run_ops f s xs; (b, s'') = run_ops f s' ys in (a @ b, s''))"
  by (induction xs arbitrary: s) (auto simp: Let_def split: prod.splits)

text \<open>
  \<open>allowed s n\<close> says that \<open>n\<close> more operations are safe from \<open>s\<close>: a ring whose positions
  must not reach the sign bit supports a bounded number of them, the others any number.
\<close>

locale bounded_queue =
  fixes ok :: "'s \<Rightarrow> bool"
    and allowed :: "'s \<Rightarrow> nat \<Rightarrow> bool"
    and queue :: "'s \<Rightarrow> obj list"
    and capacity :: "'s \<Rightarrow> nat"
    and obj_size :: "'s \<Rightarrow> nat"
    and do_op :: "'s \<Rightarrow> qop \<Rightarrow> qres \<times> 's"
  assumes op_ok: "ok s \<Longrightarrow> allowed s (Suc n) \<Longrightarrow> op_fits (obj_size s) x \<Longrightarrow>
      ok (snd (do_op s x)) \<and> allowed (snd (do_op s x)) n"
    and op_capacity: "ok s \<Longrightarrow> allowed s (Suc n) \<Longrightarrow> op_fits (obj_size s) x \<Longrightarrow>
      capacity (snd (do_op s x)) = capacity s \<and> obj_size (snd (do_op s x)) = obj_size s"
    and op_spec: "ok s \<Longrightarrow> allowed s (Suc n) \<Longrightarrow> op_fits (obj_size s) x \<Longrightarrow>
      spec_op (capacity s) (queue s) x = (fst (do_op s x), queue (snd (do_op s x)))"
    and queue_bounded: "ok s \<Longrightarrow> length (queue s) \<le> capacity s"
begin

lemma run_refines:
  "ok s \<Longrightarrow> allowed s (length xs) \<Longrightarrow> list_all (op_fits (obj_size s)) xs \<Longrightarrow>
   run_ops (spec_op (capacity s)) (queue s) xs =
     (fst (run_ops do_op s xs), queue (snd (run_ops do_op s xs))) \<and>
   ok (snd (run_ops do_op s xs)) \<and> capacity (snd (run_ops do_op s xs)) = capacity s"
proof (induction xs arbitrary: s)
  case Nil
  then show ?case by simp
next
  case (Cons x xs)
  obtain y t where t: "do_op s x = (y, t)" by fastforce
  have x: "op_fits (obj_size s) x" and xs: "list_all (op_fits (obj_size s)) xs"
    and n: "allowed s (Suc (length xs))"
    using Cons.prems(2,3) by simp_all
  have "ok t" "allowed t (length xs)" "capacity t = capacity s" "obj_size t = obj_size s"
    using op_ok [OF Cons.prems(1) n x] op_capacity [OF Cons.prems(1) n x] t by simp_all
  moreover from this xs
  have "run_ops (spec_op (capacity t)) (queue t) xs =
      (fst (run_ops do_op t xs), queue (snd (run_ops do_op t xs))) \<and>
    ok (snd (run_ops do_op t xs)) \<and> capacity (snd (run_ops do_op t xs)) = capacity t"
    by (intro Cons.IH) simp_all
  moreover have "spec_op (capacity s) (queue s) x = (y, queue t)"
    using op_spec [OF Cons.prems(1) n x] t by simp
  ultimately show ?case by (simp add: t split_beta)
qed

text \<open>A batch pushed into an empty ring comes out unchanged and in order.\<close>

lemma batch_in_order:
  assumes "ok s" "queue s = []" "length vs \<le> capacity s" "list_all (\<lambda>v. length v = obj_size s) vs"
    and "allowed s (2 * length vs)"
  shows "fst (run_ops do_op s (map Enq vs @ replicate (length vs) Deq)) =
      replicate (length vs) (Pushed True) @ map (Popped \<circ> Some) vs"
    (is "fst (run_ops do_op s ?xs) = ?ys")
proof -
  have "list_all (op_fits (obj_size s)) ?xs" "allowed s (length ?xs)"
    using assms(4,5) by (auto simp: list_all_iff mult_2)
  then have "fst (run_ops do_op s ?xs) = fst (run_ops (spec_op (capacity s)) (queue s) ?xs)"
    using run_refines [OF assms(1)] by simp
  also have "\<dots> = ?ys"
    using assms(2,3) spec_deq_all [of "capacity s" vs "[]"]
    by (simp add: run_ops_append spec_enq_all)
  finally show ?thesis .
qed

end

end
