(* ===== verification/RB_Spsc.thy ===== *)
theory RB_Spsc
  imports RB_Ring RB_Fifo
begin

text \<open>
  \<^verbatim>\<open>RingBuf_Spsc.c\<close>: the single-producer, single-consumer ring. Each operation is a
  function of the calling thread's two caches and of the ring; it returns the code's result
  and the new caches and ring. Here an operation runs without interference;
  \<^verbatim>\<open>RB_Spsc_Conc\<close> splits the same operations into their atomic accesses.
\<close>

section \<open>The operations\<close>

text \<open>
  The two \<open>static __thread\<close> variables. They belong to the thread, not to a ring: one pair
  serves every SPSC ring the thread uses.
\<close>

record spsc_tls =
  local_head :: size_t
  local_tail :: size_t

definition spsc_tls_init :: spsc_tls where
  "spsc_tls_init = \<lparr>local_head = 0, local_tail = 0\<rparr>"

definition Begin_push_SpscRingBuf :: "spsc_tls \<Rightarrow> ring \<Rightarrow> size_t option \<times> spsc_tls" where
  "Begin_push_SpscRingBuf l r =
     (let curr_head = r_head r;
          full = (r_objNum r \<le> curr_head - local_tail l);
          l' = (if full then l\<lparr>local_tail := r_tail r\<rparr> else l)
      in if full \<and> r_objNum r \<le> curr_head - local_tail l' then (None, l')
         else let idx = curr_head AND r_mask r in (Some (GET_BUFFER r idx), l'))"

definition End_push_SpscRingBuf :: "ring \<Rightarrow> ring" where
  "End_push_SpscRingBuf r = (let curr_head = r_head r in r\<lparr>r_head := curr_head + 1\<rparr>)"

definition Begin_pop_SpscRingBuf :: "spsc_tls \<Rightarrow> ring \<Rightarrow> size_t option \<times> spsc_tls" where
  "Begin_pop_SpscRingBuf l r =
     (let curr_tail = r_tail r;
          drained = (local_head l = curr_tail);
          l' = (if drained then l\<lparr>local_head := r_head r\<rparr> else l)
      in if drained \<and> local_head l' = curr_tail then (None, l')
         else let idx = curr_tail AND r_mask r in (Some (GET_BUFFER r idx), l'))"

definition End_pop_SpscRingBuf :: "ring \<Rightarrow> ring" where
  "End_pop_SpscRingBuf r = (let curr_tail = r_tail r in r\<lparr>r_tail := curr_tail + 1\<rparr>)"

definition Push_SpscRingBuf :: "spsc_tls \<Rightarrow> ring \<Rightarrow> src \<Rightarrow> size_t \<Rightarrow> int \<times> spsc_tls \<times> ring" where
  "Push_SpscRingBuf l r args sz =
     (if r_objSize r < sz then (RINGBUF_PUSH_SIZE_TOO_LARGE, l, r)
      else
        let curr_head = r_head r;
            full = (r_objNum r \<le> curr_head - local_tail l);
            l' = (if full then l\<lparr>local_tail := r_tail r\<rparr> else l)
        in if full \<and> r_objNum r \<le> curr_head - local_tail l' then (RINGBUF_FULL, l', r)
           else
             let idx = curr_head AND r_mask r;
                 r' = memcpy_in r (GET_BUFFER r idx) args (unat sz)
             in (ssize_of curr_head, l', r'\<lparr>r_head := curr_head + 1\<rparr>))"

text \<open>The bytes \<^verbatim>\<open>Pop\<close> leaves in the caller's buffer, if it wrote it.\<close>

definition Pop_SpscRingBuf ::
    "spsc_tls \<Rightarrow> ring \<Rightarrow> size_t \<Rightarrow> int \<times> byte list option \<times> spsc_tls \<times> ring" where
  "Pop_SpscRingBuf l r sz =
     (if r_objSize r < sz then (RINGBUF_POP_SIZE_TOO_LARGE, None, l, r)
      else
        let curr_tail = r_tail r;
            drained = (local_head l = curr_tail);
            l' = (if drained then l\<lparr>local_head := r_head r\<rparr> else l)
        in if drained \<and> local_head l' = curr_tail then (RINGBUF_EMPTY, None, l', r)
           else
             let idx = curr_tail AND r_mask r;
                 buf = memcpy_out r (GET_BUFFER r idx) (unat sz)
             in (ssize_of curr_tail, Some buf, l', r\<lparr>r_tail := curr_tail + 1\<rparr>))"

definition Is_empty_SpscRingBuf :: "ring \<Rightarrow> bool" where
  "Is_empty_SpscRingBuf r = (r_head r = r_tail r)"

definition Is_full_SpscRingBuf :: "ring \<Rightarrow> bool" where
  "Is_full_SpscRingBuf r = (r_objNum r \<le> r_head r - r_tail r)"

definition Capacity_SpscRingBuf :: "ring \<Rightarrow> size_t" where
  "Capacity_SpscRingBuf r = r_objNum r"

definition Size_SpscRingBuf :: "ring \<Rightarrow> size_t" where
  "Size_SpscRingBuf r = r_head r - r_tail r"

section \<open>The invariant: what the caches may hold\<close>

text \<open>
  The producer's cache may be any old tail that does not make the ring look emptier than it
  is; the consumer's cache has to lie between the two positions.
\<close>

definition producer_cache_ok :: "spsc_tls \<Rightarrow> ring \<Rightarrow> bool" where
  "producer_cache_ok l r \<longleftrightarrow>
     (unat (r_head r - local_tail l) < cap r \<longrightarrow> count r \<le> unat (r_head r - local_tail l))"

definition consumer_cache_ok :: "spsc_tls \<Rightarrow> ring \<Rightarrow> bool" where
  "consumer_cache_ok l r \<longleftrightarrow> unat (local_head l - r_tail r) \<le> count r"

definition spsc_ok :: "spsc_tls \<Rightarrow> ring \<Rightarrow> bool" where
  "spsc_ok l r \<longleftrightarrow> ring_wf r \<and> count r \<le> cap r \<and> producer_cache_ok l r \<and> consumer_cache_ok l r"

lemmas spsc_defs = spsc_ok_def producer_cache_ok_def consumer_cache_ok_def


lemma full_iff: "r_objNum r \<le> w \<longleftrightarrow> cap r \<le> unat w"
  by (simp add: cap_def unat_le_iff)

text \<open>
  The producer's two comparisons decide exactly whether the ring is full, the consumer's
  whether it is empty, and both leave a sound cache.
\<close>

lemma producer_room:
  assumes "spsc_ok l r"
  defines "full \<equiv> r_objNum r \<le> r_head r - local_tail l"
  defines "l' \<equiv> (if full then l\<lparr>local_tail := r_tail r\<rparr> else l)"
  shows "full \<and> r_objNum r \<le> r_head r - local_tail l' \<longleftrightarrow> count r = cap r"
    and "spsc_ok l' r"
    and "count r < cap r \<Longrightarrow> unat (r_head r - local_tail l') < cap r"
  using assms by (auto simp: spsc_defs full_iff count_def)

lemma consumer_data:
  assumes "spsc_ok l r"
  defines "drained \<equiv> local_head l = r_tail r"
  defines "l' \<equiv> (if drained then l\<lparr>local_head := r_head r\<rparr> else l)"
  shows "drained \<and> local_head l' = r_tail r \<longleftrightarrow> count r = 0"
    and "spsc_ok l' r"
    and "0 < count r \<Longrightarrow> local_head l' \<noteq> r_tail r"
  using assms by (auto simp: spsc_defs count_def unat_0_iff)

lemma unat_succ_diff:
  "unat (h - t :: size_t) < 2 ^ 64 - 1 \<Longrightarrow> unat (h + 1 - t) = Suc (unat (h - t))"
  using unat_add_small [of "h - t" 1] by (simp add: diff_add_eq)

lemma unat_pred_diff:
  "h \<noteq> (t :: size_t) \<Longrightarrow> unat (h - (t + 1)) = unat (h - t) - 1"
  using unat_dec [of "h - t"] by (simp add: diff_diff_eq)

lemma spsc_ok_push:
  assumes ok: "spsc_ok l r" and room: "count r < cap r" and lt: "unat (r_head r - local_tail l) < cap r"
    and r': "geom r' = geom r" "r_head r' = r_head r + 1" "r_tail r' = r_tail r"
  shows "spsc_ok l r'"
proof -
  from ok have wf: "ring_wf r" by (simp add: spsc_ok_def)
  have small: "cap r < 2 ^ 64 - 1" using wf_cap_le [OF wf] by simp
  have cnt: "count r' = Suc (count r)"
    using unat_succ_diff [of "r_head r" "r_tail r"] room small by (simp add: count_def r')
  have "unat (r_head r' - local_tail l) = Suc (unat (r_head r - local_tail l))"
    using unat_succ_diff [of "r_head r" "local_tail l"] lt small by (simp add: r')
  then show ?thesis
    using ok room lt by (simp add: spsc_defs cnt geom_eqD [OF r'(1)] r')
qed

lemma spsc_ok_pop:
  assumes ok: "spsc_ok l r" and ne: "0 < count r" and lh: "local_head l \<noteq> r_tail r"
    and r': "geom r' = geom r" "r_tail r' = r_tail r + 1" "r_head r' = r_head r"
  shows "spsc_ok l r'"
proof -
  have cnt: "count r' = count r - 1"
    using count_pop [OF ne] by (simp add: count_def r')
  have "unat (local_head l - r_tail r') = unat (local_head l - r_tail r) - 1"
    using unat_pred_diff [OF lh] by (simp add: r')
  then show ?thesis
    using ok ne by (auto simp: spsc_defs cnt geom_eqD [OF r'(1)] r')
qed


section \<open>What the operations do\<close>

lemma size_fits: "\<not> r_objSize r < sz \<Longrightarrow> unat sz \<le> osz r"
  by (simp add: osz_def unat_less_iff)

lemma Push_cases:
  assumes ok: "spsc_ok l r" and call: "Push_SpscRingBuf l r args sz = (rc, l', r')"
  shows "spsc_ok l' r' \<and> geom r' = geom r \<and>
    (if r_objSize r < sz then rc = RINGBUF_PUSH_SIZE_TOO_LARGE \<and> r' = r
     else if count r = cap r then rc = RINGBUF_FULL \<and> r' = r
     else rc = ssize_of (r_head r) \<and>
       ring_queue r' = ring_queue r @ [map args [0..<unat sz] @ drop (unat sz) (elem r (r_head r))])"
proof (cases "r_objSize r < sz \<or> count r = cap r")
  case True
  then show ?thesis
    using call ok producer_room [OF ok] by (auto simp: Push_SpscRingBuf_def Let_def)
next
  case False
  define q where "q = memcpy_in r (GET_BUFFER r (r_head r AND r_mask r)) args (unat sz)"
  from False ok have wf: "ring_wf r" and room: "count r < cap r" and n: "unat sz \<le> osz r"
    by (simp_all add: spsc_ok_def size_fits)
  have res: "rc = ssize_of (r_head r)" "r' = q\<lparr>r_head := r_head r + 1\<rparr>"
    "l' = (if r_objNum r \<le> r_head r - local_tail l then l\<lparr>local_tail := r_tail r\<rparr> else l)"
    using call False producer_room(1) [OF ok] by (auto simp: Push_SpscRingBuf_def Let_def q_def split: if_splits)
  have "spsc_ok l' r'"
    by (rule spsc_ok_push [OF _ room])
      (use producer_room(2,3) [OF ok] room in \<open>simp_all add: res q_def\<close>)
  then show ?thesis
    using ring_queue_push [OF wf room n, of args] False by (simp add: res(1,2) q_def)
qed

lemma Pop_cases:
  assumes ok: "spsc_ok l r" and call: "Pop_SpscRingBuf l r sz = (rc, buf, l', r')"
  shows "spsc_ok l' r' \<and> geom r' = geom r \<and>
    (if r_objSize r < sz then rc = RINGBUF_POP_SIZE_TOO_LARGE \<and> buf = None \<and> r' = r
     else if count r = 0 then rc = RINGBUF_EMPTY \<and> buf = None \<and> r' = r
     else rc = ssize_of (r_tail r) \<and> buf = Some (take (unat sz) (hd (ring_queue r))) \<and>
       ring_queue r' = tl (ring_queue r))"
proof (cases "r_objSize r < sz \<or> count r = 0")
  case True
  then show ?thesis
    using call ok consumer_data [OF ok] by (auto simp: Pop_SpscRingBuf_def Let_def)
next
  case False
  then have ne: "0 < count r" and n: "unat sz \<le> osz r" by (simp_all add: size_fits)
  have res: "rc = ssize_of (r_tail r)" "r' = r\<lparr>r_tail := r_tail r + 1\<rparr>"
    "buf = Some (memcpy_out r (GET_BUFFER r (r_tail r AND r_mask r)) (unat sz))"
    "l' = (if local_head l = r_tail r then l\<lparr>local_head := r_head r\<rparr> else l)"
    using call False consumer_data(1) [OF ok]
    by (auto simp: Pop_SpscRingBuf_def Let_def split: if_splits)
  have "spsc_ok l' r'"
    by (rule spsc_ok_pop [OF _ ne])
      (use consumer_data(2,3) [OF ok] ne in \<open>simp_all add: res\<close>)
  moreover have "take (unat sz) (elem r (r_tail r)) =
      memcpy_out r (GET_BUFFER r (r_tail r AND r_mask r)) (unat sz)"
    using n by (simp add: elem_def memcpy_out_def take_map)
  ultimately show ?thesis
    using ring_queue_pop(1) [OF ne] False by (simp add: res(1-3))
qed

lemma spsc_ok_init:
  assumes "good_capacity n" "layout_fits n sz"
  shows "spsc_ok spsc_tls_init (init_ring r0 (get_total_size n sz NO_SLOT) n m fd NO_SLOT)"
  using init_ring_wf [OF assms, of NO_SLOT]
  by (simp add: spsc_defs spsc_tls_init_def count_def slot_mode_def)


section \<open>The SPSC ring is a bounded queue\<close>

text \<open>
  A client that moves whole objects. An operation's outcome is read off its effect (the head
  advanced, the buffer was written), which for positions below \<open>2 ^ 63\<close> is the sign of the
  return value (\<open>ssize_of_small\<close>).
\<close>

fun spsc_do :: "spsc_tls \<times> ring \<Rightarrow> qop \<Rightarrow> qres \<times> spsc_tls \<times> ring" where
  "spsc_do (l, r) (Enq v) =
     (let (rc, l', r') = Push_SpscRingBuf l r ((!) v) (r_objSize r)
      in (Pushed (r_head r' \<noteq> r_head r), l', r'))"
| "spsc_do (l, r) Deq =
     (let (rc, buf, l', r') = Pop_SpscRingBuf l r (r_objSize r) in (Popped buf, l', r'))"

lemma map_nth_all: "length v = n \<Longrightarrow> map ((!) v) [0..<n] = v"
  by (auto simp: map_nth)

lemma spsc_do_Enq:
  assumes ok: "spsc_ok l r" and v: "length v = osz r" and call: "spsc_do (l, r) (Enq v) = (y, l', r')"
  shows "spsc_ok l' r' \<and> geom r' = geom r \<and>
    spec_op (cap r) (ring_queue r) (Enq v) = (y, ring_queue r')"
proof -
  obtain rc where push: "Push_SpscRingBuf l r ((!) v) (r_objSize r) = (rc, l', r')"
    and y: "y = Pushed (r_head r' \<noteq> r_head r)"
    using call by (auto split: prod.splits)
  note cases = Push_cases [OF ok push]
  from ok have le: "count r \<le> cap r" by (simp add: spsc_ok_def)
  show ?thesis
  proof (cases "count r = cap r")
    case True
    with cases y show ?thesis by auto
  next
    case False
    then have q: "ring_queue r' = ring_queue r @ [v]"
      using cases v by (simp add: osz_def map_nth_all)
    have tail: "r_tail r' = r_tail r"
      using push False producer_room(1) [OF ok]
      by (auto simp: Push_SpscRingBuf_def Let_def split: if_splits)
    have "count r' \<noteq> count r"
      using arg_cong [OF q, of length] by simp
    then have "r_head r' \<noteq> r_head r" using tail by (auto simp: count_def)
    then show ?thesis using cases y q le False by simp
  qed
qed

lemma spsc_do_Deq:
  assumes ok: "spsc_ok l r" and call: "spsc_do (l, r) Deq = (y, l', r')"
  shows "spsc_ok l' r' \<and> geom r' = geom r \<and>
    spec_op (cap r) (ring_queue r) Deq = (y, ring_queue r')"
proof -
  obtain rc buf where pop: "Pop_SpscRingBuf l r (r_objSize r) = (rc, buf, l', r')"
    and y: "y = Popped buf"
    using call by (auto split: prod.splits)
  note cases = Pop_cases [OF ok pop]
  show ?thesis
  proof (cases "ring_queue r")
    case Nil
    then have "count r = 0" by (metis length_ring_queue list.size(3))
    with cases y Nil show ?thesis by auto
  next
    case (Cons v q)
    then have ne: "0 < count r" by (metis length_ring_queue length_greater_0_conv list.distinct(1))
    have "v = elem r (r_tail r)" using ring_queue_pop(1) [OF ne] Cons by simp
    then have "take (unat (r_objSize r)) v = v" by (simp flip: osz_def)
    with cases y Cons ne show ?thesis by simp
  qed
qed

lemma spsc_do_refines:
  assumes "spsc_ok (fst s) (snd s)" "op_fits (osz (snd s)) x" "spsc_do s x = (y, t)"
  shows "spsc_ok (fst t) (snd t) \<and> geom (snd t) = geom (snd s) \<and>
    spec_op (cap (snd s)) (ring_queue (snd s)) x = (y, ring_queue (snd t))"
proof -
  obtain l r l' r' where st: "s = (l, r)" "t = (l', r')" by (cases s, cases t)
  show ?thesis
  proof (cases x)
    case (Enq v)
    with assms st show ?thesis by (simp only: fst_conv snd_conv op_fits.simps) (rule spsc_do_Enq)
  next
    case Deq
    with assms st show ?thesis by (simp only: fst_conv snd_conv) (rule spsc_do_Deq)
  qed
qed

interpretation spsc: bounded_queue "\<lambda>s. spsc_ok (fst s) (snd s)" "\<lambda>_ _. True"
  "\<lambda>s. ring_queue (snd s)" "\<lambda>s. cap (snd s)" "\<lambda>s. osz (snd s)" spsc_do
proof (unfold_locales, goal_cases)
  case (1 s n x)
  then show ?case using spsc_do_refines [OF 1(1,3)] by (simp add: prod_eq_iff)
next
  case (2 s n x)
  then show ?case using spsc_do_refines [OF 2(1,3)] by (metis geom_eqD(6,7) surjective_pairing)
next
  case (3 s n x)
  then show ?case using spsc_do_refines [OF 3(1,3)] by (simp add: prod_eq_iff)
next
  case (4 s)
  then show ?case by (simp add: spsc_ok_def)
qed


section \<open>Properties\<close>

text \<open>C9: A ring made by \<^verbatim>\<open>get_buf\<close> for one producer and one consumer is a FIFO queue: from a
  fresh ring and zero caches, any sequence of whole-object pushes and pops gives, result by
  result, what the same sequence gives on an empty list bounded by the capacity.\<close>

theorem spsc_fresh_fifo:
  assumes "good_capacity n" "layout_fits n sz"
    and "r = init_ring r0 (get_total_size n sz NO_SLOT) n m fd NO_SLOT"
    and "list_all (op_fits (osz r)) xs"
  shows "fst (run_ops spsc_do (spsc_tls_init, r) xs) = fst (run_ops (spec_op (unat n)) [] xs)"
proof -
  have "spsc_ok spsc_tls_init r" unfolding assms(3) by (rule spsc_ok_init [OF assms(1,2)])
  moreover have "ring_queue r = []" "cap r = unat n"
    using assms(3) by (simp_all add: ring_queue_Nil_iff)
  ultimately show ?thesis
    using spsc.run_refines [of "(spsc_tls_init, r)" xs] assms(4) by simp
qed

theorem spsc_fresh_fifo_witness:
  "fst (run_ops spsc_do (spsc_tls_init, make_ring 4 8 NO_SLOT)
     [Enq (replicate 64 1), Enq (replicate 64 2), Deq, Deq, Deq]) =
   [Pushed True, Pushed True, Popped (Some (replicate 64 1)), Popped (Some (replicate 64 2)),
    Popped None]"
proof -
  have "osz (make_ring 4 8 NO_SLOT) = 64" by code_simp
  then have "list_all (op_fits (osz (make_ring 4 8 NO_SLOT)))
      [Enq (replicate 64 1), Enq (replicate 64 2), Deq, Deq, Deq]" by simp
  from spsc_fresh_fifo [OF make_ring_4_8 make_ring_def this] show ?thesis by simp
qed

text \<open>\<^verbatim>\<open>Push_SpscRingBuf\<close> and \<^verbatim>\<open>Pop_SpscRingBuf\<close> against the queue.\<close>

lemma spsc_push_spec:
  assumes "spsc_ok l r" "Push_SpscRingBuf l r args sz = (rc, l', r')"
  shows "spsc_ok l' r' \<and>
    (if r_objSize r < sz then rc = RINGBUF_PUSH_SIZE_TOO_LARGE \<and> l' = l \<and> r' = r
     else if length (ring_queue r) = cap r then rc = RINGBUF_FULL \<and> r' = r
     else rc = ssize_of (r_head r) \<and>
       ring_queue r' = ring_queue r @ [map args [0..<unat sz] @ drop (unat sz) (elem r (r_head r))])"
  using Push_cases [OF assms] assms(2) by (auto simp: Push_SpscRingBuf_def)

lemma spsc_pop_spec:
  assumes "spsc_ok l r" "Pop_SpscRingBuf l r sz = (rc, buf, l', r')"
  shows "spsc_ok l' r' \<and>
    (if r_objSize r < sz then rc = RINGBUF_POP_SIZE_TOO_LARGE \<and> buf = None \<and> l' = l \<and> r' = r
     else if ring_queue r = [] then rc = RINGBUF_EMPTY \<and> buf = None \<and> r' = r
     else rc = ssize_of (r_tail r) \<and> buf = Some (take (unat sz) (hd (ring_queue r))) \<and>
       ring_queue r' = tl (ring_queue r))"
proof -
  have "ring_queue r = [] \<longleftrightarrow> count r = 0" by (metis length_ring_queue length_0_conv)
  then show ?thesis using Pop_cases [OF assms] assms(2) by (auto simp: Pop_SpscRingBuf_def)
qed

text \<open>C34: \<^verbatim>\<open>Push_SpscRingBuf\<close> and \<^verbatim>\<open>Pop_SpscRingBuf\<close> on every branch, from any state whose
  caches are sound. Both refuse a size above the object size without touching anything. A push
  reports a full ring exactly when it holds as many objects as its capacity, and otherwise returns
  the head's old position and appends the object, whose bytes beyond \<open>size\<close> are those the slot
  held before. A pop reports an empty ring exactly when it holds nothing, and otherwise returns the
  tail's old position, hands out the first \<open>size\<close> bytes of the oldest object and removes it; the
  caller's buffer is left alone on the error branches.\<close>

theorem spsc_push_pop_correct:
  assumes "spsc_ok l r"
  shows "(case Push_SpscRingBuf l r args sz of (rc, l', r') \<Rightarrow>
      spsc_ok l' r' \<and>
      (if r_objSize r < sz then rc = RINGBUF_PUSH_SIZE_TOO_LARGE \<and> l' = l \<and> r' = r
       else if length (ring_queue r) = cap r then rc = RINGBUF_FULL \<and> r' = r
       else rc = ssize_of (r_head r) \<and> ring_queue r' =
         ring_queue r @ [map args [0..<unat sz] @ drop (unat sz) (elem r (r_head r))])) \<and>
    (case Pop_SpscRingBuf l r sz of (rc, buf, l', r') \<Rightarrow>
      spsc_ok l' r' \<and>
      (if r_objSize r < sz then rc = RINGBUF_POP_SIZE_TOO_LARGE \<and> buf = None \<and> l' = l \<and> r' = r
       else if ring_queue r = [] then rc = RINGBUF_EMPTY \<and> buf = None \<and> r' = r
       else rc = ssize_of (r_tail r) \<and> buf = Some (take (unat sz) (hd (ring_queue r))) \<and>
         ring_queue r' = tl (ring_queue r)))"
proof -
  obtain a b c where "Push_SpscRingBuf l r args sz = (a, b, c)" by (metis prod_cases3)
  moreover obtain d e f g where "Pop_SpscRingBuf l r sz = (d, e, f, g)" by (metis prod_cases4)
  ultimately show ?thesis using spsc_push_spec [OF assms] spsc_pop_spec [OF assms] by simp
qed

theorem spsc_push_pop_correct_witness:
  "ring_queue (snd (snd (Push_SpscRingBuf spsc_tls_init (make_ring 4 8 NO_SLOT) (\<lambda>i. of_nat i) 3)))
    = [[0, 1, 2] @ replicate 61 0] \<and>
   fst (Pop_SpscRingBuf spsc_tls_init (make_ring 4 8 NO_SLOT) 3) = RINGBUF_EMPTY"
proof -
  let ?r = "make_ring 4 8 NO_SLOT"
  have ok: "spsc_ok spsc_tls_init ?r" unfolding make_ring_def by (rule spsc_ok_init [OF make_ring_4_8])
  have "\<not> r_objSize ?r < 3" "length (ring_queue ?r) \<noteq> cap ?r" "ring_queue ?r = []"
    "drop 3 (elem ?r (r_head ?r)) = replicate 61 0" by code_simp+
  with spsc_push_pop_correct [OF ok, where sz = 3 and args = "\<lambda>i. of_nat i"] show ?thesis
    by (auto simp: upt_rec split: prod.splits)
qed

lemma spsc_begin_push:
  assumes ok: "spsc_ok l r" and ws: "\<forall>w \<in> set ws. fst w < osz r"
  shows "case fst (Begin_push_SpscRingBuf l r) of
      None \<Rightarrow> spsc_ok (snd (Begin_push_SpscRingBuf l r)) r \<and> length (ring_queue r) = cap r
    | Some p \<Rightarrow> length (ring_queue r) < cap r \<and>
        (let l' = snd (Begin_push_SpscRingBuf l r); r' = write_all r p ws in
         ring_queue r' = ring_queue r \<and> Begin_push_SpscRingBuf l' r' = (Some p, l') \<and>
         spsc_ok l' (End_push_SpscRingBuf r') \<and>
         ring_queue (End_push_SpscRingBuf r') = ring_queue r @ [put_all (elem r (r_head r)) ws])"
proof (cases "count r = cap r")
  case True
  then show ?thesis using ok producer_room [OF ok] by (auto simp: Begin_push_SpscRingBuf_def Let_def)
next
  case False
  define l' where "l' = (if r_objNum r \<le> r_head r - local_tail l then l\<lparr>local_tail := r_tail r\<rparr> else l)"
  define p where "p = GET_BUFFER r (r_head r AND r_mask r)"
  from ok False have wf: "ring_wf r" and room: "count r < cap r" by (simp_all add: spsc_ok_def)
  have got: "Begin_push_SpscRingBuf l r = (Some p, l')"
    using producer_room(1) [OF ok] False by (auto simp: Begin_push_SpscRingBuf_def Let_def l'_def p_def)
  have lt: "unat (r_head r - local_tail l') < cap r" and ok': "spsc_ok l' r"
    using producer_room(2,3) [OF ok] room by (simp_all add: l'_def)
  let ?r = "write_all r p ws"
  have elems: "elem ?r v = (if unat v mod cap r = unat (r_head r) mod cap r then put_all (elem r v) ws
      else elem r v)" for v
    unfolding p_def by (rule elem_write_all [OF wf ws])
  have "ring_queue ?r = ring_queue r" by (rule ring_queue_same [OF wf room]) (simp_all add: elems)
  moreover have "ring_queue (End_push_SpscRingBuf ?r) =
      ring_queue r @ [elem (End_push_SpscRingBuf ?r) (r_head r)]"
    by (rule ring_queue_append [OF wf room]) (simp_all add: End_push_SpscRingBuf_def elems)
  moreover have "spsc_ok l' (End_push_SpscRingBuf ?r)"
    by (rule spsc_ok_push [OF ok' room lt]) (simp_all add: End_push_SpscRingBuf_def)
  moreover have "Begin_push_SpscRingBuf l' ?r = (Some p, l')"
    using lt by (simp add: Begin_push_SpscRingBuf_def full_iff p_def Let_def)
  ultimately show ?thesis using room by (simp add: got End_push_SpscRingBuf_def elems)
qed

lemma spsc_begin_pop:
  assumes ok: "spsc_ok l r"
  shows "case fst (Begin_pop_SpscRingBuf l r) of
      None \<Rightarrow> spsc_ok (snd (Begin_pop_SpscRingBuf l r)) r \<and> ring_queue r = []
    | Some p \<Rightarrow> ring_queue r = memcpy_out r p (osz r) # ring_queue (End_pop_SpscRingBuf r) \<and>
        spsc_ok (snd (Begin_pop_SpscRingBuf l r)) (End_pop_SpscRingBuf r)"
proof (cases "count r = 0")
  case True
  then show ?thesis
    using ok consumer_data [OF ok] by (auto simp: Begin_pop_SpscRingBuf_def Let_def ring_queue_def)
next
  case False
  define l' where "l' = (if local_head l = r_tail r then l\<lparr>local_head := r_head r\<rparr> else l)"
  have got: "Begin_pop_SpscRingBuf l r = (Some (GET_BUFFER r (r_tail r AND r_mask r)), l')"
    using consumer_data(1) [OF ok] False by (auto simp: Begin_pop_SpscRingBuf_def Let_def l'_def)
  have "spsc_ok l' (End_pop_SpscRingBuf r)"
    by (rule spsc_ok_pop [of l' r])
      (use consumer_data(2,3) [OF ok] False in \<open>simp_all add: l'_def End_pop_SpscRingBuf_def\<close>)
  then show ?thesis
    using ring_queue_pop(1) [of r] False by (simp add: got elem_def End_pop_SpscRingBuf_def)
qed

text \<open>The copying operations are the zero-copy ones with a \<open>memcpy\<close> between the two halves.\<close>

lemma spsc_zero_copy_equiv:
  assumes "sz \<le> r_objSize r"
  shows "Push_SpscRingBuf l r args sz =
      (case Begin_push_SpscRingBuf l r of
         (None, l') \<Rightarrow> (RINGBUF_FULL, l', r)
       | (Some p, l') \<Rightarrow>
           (ssize_of (r_head r), l', End_push_SpscRingBuf (memcpy_in r p args (unat sz)))) \<and>
    Pop_SpscRingBuf l r sz =
      (case Begin_pop_SpscRingBuf l r of
         (None, l') \<Rightarrow> (RINGBUF_EMPTY, None, l', r)
       | (Some p, l') \<Rightarrow>
           (ssize_of (r_tail r), Some (memcpy_out r p (unat sz)), l', End_pop_SpscRingBuf r))"
proof -
  have fits: "\<not> r_objSize r < sz" using assms by simp
  show ?thesis
    by (simp add: fits Push_SpscRingBuf_def Pop_SpscRingBuf_def Begin_push_SpscRingBuf_def
        Begin_pop_SpscRingBuf_def End_push_SpscRingBuf_def End_pop_SpscRingBuf_def Let_def)
qed

text \<open>C35: The zero-copy interface against the queue, from any state whose caches are sound.
  \<^verbatim>\<open>Begin_push\<close> returns a null pointer exactly when the ring is full. Otherwise the client may
  write the bytes of the slot in any order and as often as it likes without changing the queue,
  a second \<^verbatim>\<open>Begin_push\<close> would return the same slot, and \<^verbatim>\<open>End_push\<close> appends the slot with what
  was written. \<^verbatim>\<open>Begin_pop\<close> returns a null pointer exactly when the ring is empty, and otherwise
  the address of the oldest object, which \<^verbatim>\<open>End_pop\<close> removes.\<close>

theorem spsc_zero_copy_correct:
  assumes "spsc_ok l r" "\<forall>w \<in> set ws. fst w < osz r"
  shows "(case Begin_push_SpscRingBuf l r of
      (None, l') \<Rightarrow> spsc_ok l' r \<and> length (ring_queue r) = cap r
    | (Some p, l') \<Rightarrow> length (ring_queue r) < cap r \<and>
        (let r' = write_all r p ws in
         ring_queue r' = ring_queue r \<and> Begin_push_SpscRingBuf l' r' = (Some p, l') \<and>
         spsc_ok l' (End_push_SpscRingBuf r') \<and>
         ring_queue (End_push_SpscRingBuf r') = ring_queue r @ [put_all (elem r (r_head r)) ws])) \<and>
    (case Begin_pop_SpscRingBuf l r of
      (None, l') \<Rightarrow> spsc_ok l' r \<and> ring_queue r = []
    | (Some p, l') \<Rightarrow> ring_queue r = memcpy_out r p (osz r) # ring_queue (End_pop_SpscRingBuf r) \<and>
        spsc_ok l' (End_pop_SpscRingBuf r))"
proof (rule conjI, goal_cases)
  case 1
  show ?case using spsc_begin_push [OF assms]
    by (cases "Begin_push_SpscRingBuf l r"; cases "fst (Begin_push_SpscRingBuf l r)") simp_all
next
  case 2
  show ?case using spsc_begin_pop [OF assms(1)]
    by (cases "Begin_pop_SpscRingBuf l r"; cases "fst (Begin_pop_SpscRingBuf l r)") simp_all
qed

theorem spsc_zero_copy_correct_witness:
  "(case Begin_push_SpscRingBuf spsc_tls_init (make_ring 4 8 NO_SLOT) of
      (Some p, l) \<Rightarrow> ring_queue (End_push_SpscRingBuf (write_all (make_ring 4 8 NO_SLOT) p [(1, 7), (0, 5), (1, 6)]))
         = [[5, 6] @ replicate 62 0]
    | _ \<Rightarrow> False)"
proof -
  let ?r = "make_ring 4 8 NO_SLOT" and ?ws = "[(1, 7), (0, 5), (1, 6)] :: (nat \<times> byte) list"
  have "spsc_ok spsc_tls_init ?r" unfolding make_ring_def by (rule spsc_ok_init [OF make_ring_4_8])
  moreover have "\<forall>w \<in> set ?ws. fst w < osz ?r" by code_simp
  ultimately have "case Begin_push_SpscRingBuf spsc_tls_init ?r of
      (None, l') \<Rightarrow> length (ring_queue ?r) = cap ?r
    | (Some p, l') \<Rightarrow> ring_queue (End_push_SpscRingBuf (write_all ?r p ?ws)) =
        ring_queue ?r @ [put_all (elem ?r (r_head ?r)) ?ws]"
    using spsc_zero_copy_correct [of spsc_tls_init ?r ?ws]
    by (auto simp: Let_def split: prod.splits option.splits)
  moreover have "length (ring_queue ?r) \<noteq> cap ?r" "ring_queue ?r = []"
    "put_all (elem ?r (r_head ?r)) ?ws = [5, 6] @ replicate 62 0" by code_simp+
  ultimately show ?thesis by (auto split: prod.splits option.splits)
qed

text \<open>The four observers report the queue the ring holds: emptiness, fullness, the number
  of objects and the capacity.\<close>

lemma spsc_observers:
  assumes "ring_wf r" "length (ring_queue r) \<le> cap r"
  shows "(Is_empty_SpscRingBuf r \<longleftrightarrow> ring_queue r = []) \<and>
    (Is_full_SpscRingBuf r \<longleftrightarrow> length (ring_queue r) = cap r) \<and>
    unat (Size_SpscRingBuf r) = length (ring_queue r) \<and>
    Capacity_SpscRingBuf r = of_nat (cap r)"
  using assms(2) ring_queue_Nil_iff [of r]
  by (auto simp: Is_empty_SpscRingBuf_def Is_full_SpscRingBuf_def Size_SpscRingBuf_def
      Capacity_SpscRingBuf_def full_iff count_def cap_def)

section \<open>Sharp edges of the thread-local caches\<close>

text \<open>A thread whose caches are zero (a new thread, or a process that attached to the ring
  with \<^verbatim>\<open>MAP_EXISTS\<close>) and that starts consuming from a ring which is empty at a position other
  than zero is not told so: \<^verbatim>\<open>Pop_SpscRingBuf\<close> returns success, hands out the stale bytes of
  the slot and moves the tail past the head, after which the ring counts \<open>2 ^ 64 - 1\<close> objects.\<close>

lemma spsc_new_consumer_pops_empty_ring:
  assumes "r_head r = r_tail r" "r_tail r \<noteq> 0" "sz \<le> r_objSize r"
  shows "Pop_SpscRingBuf spsc_tls_init r sz =
      (ssize_of (r_tail r), Some (memcpy_out r (GET_BUFFER r (r_tail r AND r_mask r)) (unat sz)),
       spsc_tls_init, r\<lparr>r_tail := r_tail r + 1\<rparr>) \<and>
    Size_SpscRingBuf (r\<lparr>r_tail := r_tail r + 1\<rparr>) = - 1"
  using assms
  by (simp add: Pop_SpscRingBuf_def spsc_tls_init_def Let_def not_less Size_SpscRingBuf_def)

lemma spsc_new_consumer_pops_empty_ring_example:
  "fst (snd (Pop_SpscRingBuf spsc_tls_init ((make_ring 4 8 NO_SLOT)\<lparr>r_head := 1, r_tail := 1\<rparr>) 3))
     = Some [0, 0, 0]"
proof -
  let ?r = "(make_ring 4 8 NO_SLOT)\<lparr>r_head := 1, r_tail := 1\<rparr>"
  have h: "r_head ?r = r_tail ?r" "r_tail ?r \<noteq> 0" by simp_all
  have "(3::size_t) \<le> r_objSize ?r"
    "memcpy_out ?r (GET_BUFFER ?r (r_tail ?r AND r_mask ?r)) 3 = [0, 0, 0]" by code_simp+
  with spsc_new_consumer_pops_empty_ring [OF h, of 3] show ?thesis by simp
qed

text \<open>The caches are shared by all SPSC rings a thread uses. A thread that popped one
  object from ring A and then pops from ring B, new and empty, is given an object B never
  held; and a producer that refreshed its tail cache on A overwrites the oldest unread object
  of B, which is full.\<close>

lemma spsc_caches_shared_between_rings:
  "(let a = make_ring 2 8 NO_SLOT; b = make_ring 2 8 NO_SLOT; v = (\<lambda>i. 7);
        (_, l1, a1) = Push_SpscRingBuf spsc_tls_init a v 1;
        (_, _, l2, a2) = Pop_SpscRingBuf l1 a1 1;
        (rc, buf, l3, b1) = Pop_SpscRingBuf l2 b 1
    in Is_empty_SpscRingBuf b \<and> rc = 0 \<and> buf \<noteq> None \<and> Size_SpscRingBuf b1 = - 1) \<and>
   (let a = make_ring 2 8 NO_SLOT; b = make_ring 2 8 NO_SLOT; v = (\<lambda>i. 7);
        (_, l1, b1) = Push_SpscRingBuf spsc_tls_init b (\<lambda>i. 1) 1;
        (_, l2, b2) = Push_SpscRingBuf l1 b1 (\<lambda>i. 2) 1;
        (_, l3, a1) = Push_SpscRingBuf l2 a v 1;
        (_, l4, a2) = Push_SpscRingBuf l3 a1 v 1;
        (_, _, _, a3) = Pop_SpscRingBuf spsc_tls_init a2 1;
        (_, l5, a4) = Push_SpscRingBuf l4 a3 v 1;
        (rc, l6, b3) = Push_SpscRingBuf l5 b2 (\<lambda>i. 3) 1
    in Is_full_SpscRingBuf b2 \<and> rc = 2 \<and>
       map (\<lambda>i. memcpy_out b2 (GET_BUFFER b2 i) 1) [0, 1] = [[1], [2]] \<and>
       map (\<lambda>i. memcpy_out b3 (GET_BUFFER b3 i) 1) [0, 1] = [[3], [2]])"
  by code_simp

end
