(* ===== verification/RB_Steps.thy ===== *)
theory RB_Steps
  imports RB_Ring
begin

text \<open>
  What the interleaving models share. A system is a step function: an action (a thread calls
  an operation, or makes its next access to shared memory) takes a state to the next one and
  emits events. A run is a list of actions, that is, a schedule; its history is the list of
  events. The accesses are sequentially consistent: the memory orders of the C code are not
  part of the model.

  Three locales state what is proved once for all systems: \<open>history_system\<close> lifts an invariant
  over histories from steps to schedules, \<open>queue_history\<close> extends it to histories that are those of
  one bounded queue, and \<open>bounded_operations\<close> turns a measure that every
  step of a thread decreases into the bound on the steps its operation takes, whatever the
  other threads do.
\<close>

fun exec :: "('s \<Rightarrow> 'a \<Rightarrow> 's \<times> 'e list) \<Rightarrow> 's \<Rightarrow> 'a list \<Rightarrow> 's \<times> 'e list" where
  "exec f s [] = (s, [])"
| "exec f s (a # as) =
     (let (s', e) = f s a; (s'', es) = exec f s' as in (s'', e @ es))"

lemma exec_append:
  "exec f s (as @ bs) =
   (let (s', e) = exec f s as; (s'', e') = exec f s' bs in (s'', e @ e'))"
  by (induction as arbitrary: s) (auto simp: Let_def split: prod.splits)

lemma exec_invariant:
  assumes "\<And>s a s' e. step s a = (s', e) \<Longrightarrow> f s' = f s"
  shows "exec step s as = (s', h) \<Longrightarrow> f s' = f s"
proof (induction as arbitrary: s h)
  case Nil
  then show ?case by simp
next
  case (Cons a as)
  obtain t e1 e2 where "step s a = (t, e1)" "exec step t as = (s', e2)"
    using Cons.prems by (auto simp: Let_def split: prod.splits)
  then show ?case using Cons.IH [of t e2] assms [of s a t e1] by simp
qed

locale history_system =
  fixes step :: "'s \<Rightarrow> 'a \<Rightarrow> 's \<times> 'e list"
    and inv :: "'e list \<Rightarrow> 's \<Rightarrow> bool"
    and guard :: "'e list \<Rightarrow> bool"
  assumes inv_step: "inv h s \<Longrightarrow> step s a = (s', e) \<Longrightarrow> guard (h @ e) \<Longrightarrow> inv (h @ e) s'"
    and guard_prefix: "guard (h @ e) \<Longrightarrow> guard h"
begin

lemma inv_exec:
  "inv h s \<Longrightarrow> exec step s as = (s', e) \<Longrightarrow> guard (h @ e) \<Longrightarrow> inv (h @ e) s'"
proof (induction as arbitrary: h s e)
  case Nil
  then show ?case by simp
next
  case (Cons a as)
  obtain t e1 e2 where first: "step s a = (t, e1)" and rest: "exec step t as = (s', e2)"
    and e: "e = e1 @ e2"
    using Cons.prems(2) by (auto simp: Let_def split: prod.splits)
  have "guard (h @ e1)" using Cons.prems(3) e guard_prefix [of "h @ e1" e2] by simp
  then have "inv (h @ e1) t" using inv_step [OF Cons.prems(1) first] by simp
  from Cons.IH [OF this rest] Cons.prems(3) e show ?case by simp
qed

lemma inv_run:
  "inv [] s \<Longrightarrow> exec step s as = (s', e) \<Longrightarrow> guard e \<Longrightarrow> inv e s'"
  using inv_exec [of "[]"] by simp

end

locale bounded_operations =
  fixes step :: "'s \<Rightarrow> 'a \<Rightarrow> 's \<times> 'e list"
    and busy :: "'t \<Rightarrow> 's \<Rightarrow> bool"
    and work :: "'t \<Rightarrow> 's \<Rightarrow> nat"
    and own :: "'t \<Rightarrow> 'a \<Rightarrow> bool"
    and returned :: "'t \<Rightarrow> 'e list \<Rightarrow> bool"
  assumes own_step: "busy t s \<Longrightarrow> own t a \<Longrightarrow> step s a = (s', e) \<Longrightarrow>
      returned t e \<or> (busy t s' \<and> work t s' < work t s)"
    and other_step: "busy t s \<Longrightarrow> \<not> own t a \<Longrightarrow> step s a = (s', e) \<Longrightarrow>
      busy t s' \<and> work t s' = work t s"
    and work_pos: "busy t s \<Longrightarrow> 0 < work t s"
    and returned_append: "returned t e \<or> returned t e' \<Longrightarrow> returned t (e @ e')"
begin

lemma returns_within_work:
  "busy t s \<Longrightarrow> exec step s as = (s', e) \<Longrightarrow> work t s \<le> length (filter (own t) as) \<Longrightarrow> returned t e"
proof (induction as arbitrary: s e)
  case Nil
  then show ?case using work_pos [of t s] by simp
next
  case (Cons a as)
  obtain u e1 e2 where first: "step s a = (u, e1)" and rest: "exec step u as = (s', e2)"
    and e: "e = e1 @ e2"
    using Cons.prems(2) by (auto simp: Let_def split: prod.splits)
  show ?case
  proof (cases "own t a")
    case True
    from own_step [OF Cons.prems(1) True first] show ?thesis
    proof
      assume "returned t e1"
      then show ?thesis using returned_append [of t e1 e2] e by simp
    next
      assume next_state: "busy t u \<and> work t u < work t s"
      then have "work t u \<le> length (filter (own t) as)" using Cons.prems(3) True by simp
      with next_state have "returned t e2" using Cons.IH [OF _ rest] by simp
      then show ?thesis using returned_append [of t e1 e2] e by simp
    qed
  next
    case False
    from other_step [OF Cons.prems(1) False first] Cons.prems(3) False
    have "returned t e2" using Cons.IH [OF _ rest] by simp
    then show ?thesis using returned_append [of t e1 e2] e by simp
  qed
qed

end

text \<open>
  An object that was handed out agrees with the one that was pushed on the bytes both calls
  transferred; for whole objects this is equality.
\<close>

definition agree :: "byte list \<Rightarrow> byte list \<Rightarrow> bool" where
  "agree p b \<longleftrightarrow> (\<forall>i < min (length p) (length b). b ! i = p ! i)"

lemma agree_same_length: "length p = length b \<Longrightarrow> agree p b \<longleftrightarrow> p = b"
  by (auto simp: agree_def intro: nth_equalityI)

section \<open>Histories of a queue\<close>

text \<open>
  The events of a concurrent ring that matter to a queue, in the order in which they happen, and
  what a bounded queue does with them: \<open>None\<close> where the queue would not allow the event. A history
  that runs through explains every result by the state of one queue at one instant inside the
  operation that returned it.
\<close>

datatype queue_event = Enqueue "byte list" | Dequeue "byte list" | Refuse_full | Refuse_empty

fun queue_run :: "nat \<Rightarrow> byte list list \<Rightarrow> queue_event list \<Rightarrow> byte list list option" where
  "queue_run N q [] = Some q"
| "queue_run N q (Enqueue v # es) = (if length q < N then queue_run N (q @ [v]) es else None)"
| "queue_run N q (Dequeue v # es) =
     (case q of [] \<Rightarrow> None | u # q' \<Rightarrow> if agree u v then queue_run N q' es else None)"
| "queue_run N q (Refuse_full # es) = (if length q = N then queue_run N q es else None)"
| "queue_run N q (Refuse_empty # es) = (if q = [] then queue_run N q es else None)"

lemma queue_run_append:
  "queue_run N q (es @ es') = Option.bind (queue_run N q es) (\<lambda>q. queue_run N q es')"
  by (induction N q es rule: queue_run.induct) (auto split: list.split)

fun enqueued :: "queue_event list \<Rightarrow> byte list list" where
  "enqueued [] = []"
| "enqueued (Enqueue v # es) = v # enqueued es"
| "enqueued (_ # es) = enqueued es"

fun dequeued :: "queue_event list \<Rightarrow> byte list list" where
  "dequeued [] = []"
| "dequeued (Dequeue v # es) = v # dequeued es"
| "dequeued (_ # es) = dequeued es"

lemma queue_events_append [simp]:
  "enqueued (es @ es') = enqueued es @ enqueued es'" "dequeued (es @ es') = dequeued es @ dequeued es'"
proof -
  show "enqueued (es @ es') = enqueued es @ enqueued es'" by (induction es rule: enqueued.induct) simp_all
  show "dequeued (es @ es') = dequeued es @ dequeued es'" by (induction es rule: dequeued.induct) simp_all
qed

text \<open>The events that change the queue.\<close>

fun moves :: "queue_event \<Rightarrow> bool" where
  "moves (Enqueue v) = True" | "moves (Dequeue v) = True" | "moves _ = False"

lemma queue_events_moves [simp]:
  "enqueued (filter moves es) = enqueued es" "dequeued (filter moves es) = dequeued es"
proof -
  show "enqueued (filter moves es) = enqueued es" by (induction es rule: enqueued.induct) simp_all
  show "dequeued (filter moves es) = dequeued es" by (induction es rule: dequeued.induct) simp_all
qed

definition fifo_counts :: "nat \<Rightarrow> queue_event list \<Rightarrow> bool" where
  "fifo_counts N es \<longleftrightarrow> length (dequeued es) \<le> length (enqueued es) \<and>
     length (enqueued es) \<le> length (dequeued es) + N \<and>
     list_all2 agree (take (length (dequeued es)) (enqueued es)) (dequeued es)"

definition explained :: "nat \<Rightarrow> queue_event list \<Rightarrow> bool" where
  "explained N es \<longleftrightarrow> queue_run N [] es = Some (drop (length (dequeued es)) (enqueued es))"

lemma explained_Nil [simp]: "explained N []"
  by (simp add: explained_def)

lemma explained_step:
  assumes old: "explained N es" "fifo_counts N es" and new: "fifo_counts N (es @ e)" "length e \<le> 1"
    and full: "Refuse_full \<in> set e \<Longrightarrow> length (enqueued es) = length (dequeued es) + N"
    and empty: "Refuse_empty \<in> set e \<Longrightarrow> length (enqueued es) = length (dequeued es)"
  shows "explained N (es @ e)"
proof (cases e)
  case (Cons x e')
  with new(2) have e: "e = [x]" by simp
  let ?P = "enqueued es" and ?Q = "dequeued es"
  have run: "queue_run N [] (es @ e) = queue_run N (drop (length ?Q) ?P) [x]"
    using old(1) by (simp add: explained_def queue_run_append e)
  show ?thesis
  proof (cases x)
    case (Dequeue v)
    then have lt: "length ?Q < length ?P" and all: "list_all2 agree (take (Suc (length ?Q)) ?P) (?Q @ [v])"
      using new(1) by (simp_all add: fifo_counts_def e)
    then have "agree (?P ! length ?Q) v"
      by (auto simp: take_Suc_conv_app_nth list_all2_append2 append_eq_append_conv dest: list_all2_lengthD)
    then show ?thesis
      using run Dequeue lt by (simp add: explained_def e Cons_nth_drop_Suc [symmetric])
  qed (use run old(2) new(1) full empty in \<open>auto simp: explained_def fifo_counts_def e\<close>)
qed (use old in simp)

locale queue_history = history_system step inv guard
  for step :: "'s \<Rightarrow> 'a \<Rightarrow> 's \<times> 'e list" and inv :: "'e list \<Rightarrow> 's \<Rightarrow> bool" and guard :: "'e list \<Rightarrow> bool" +
  fixes N :: nat and ops :: "'e list \<Rightarrow> queue_event list"
  assumes ops_append: "ops (h @ e) = ops h @ ops e"
    and one_op: "inv h s \<Longrightarrow> step s a = (s', e) \<Longrightarrow> guard (h @ e) \<Longrightarrow> length (ops e) \<le> 1"
    and inv_counts: "inv h s \<Longrightarrow> fifo_counts N (ops h)"
    and refusals: "inv h s \<Longrightarrow> step s a = (s', e) \<Longrightarrow> guard (h @ e) \<Longrightarrow>
      (Refuse_full \<in> set (ops e) \<longrightarrow> length (enqueued (ops h)) = length (dequeued (ops h)) + N) \<and>
      (Refuse_empty \<in> set (ops e) \<longrightarrow> length (enqueued (ops h)) = length (dequeued (ops h)))"
begin

lemma explained_exec:
  "inv h s \<Longrightarrow> explained N (ops h) \<Longrightarrow> exec step s as = (s', e) \<Longrightarrow> guard (h @ e) \<Longrightarrow>
   explained N (ops (h @ e))"
proof (induction as arbitrary: h s e)
  case Nil
  then show ?case by simp
next
  case (Cons a as)
  obtain t e1 e2 where first: "step s a = (t, e1)" and rest: "exec step t as = (s', e2)"
    and e: "e = e1 @ e2"
    using Cons.prems(3) by (auto simp: Let_def split: prod.splits)
  have ok: "guard (h @ e1)" using Cons.prems(4) e guard_prefix [of "h @ e1" e2] by simp
  have inv: "inv (h @ e1) t" by (rule inv_step [OF Cons.prems(1) first ok])
  have "explained N (ops h @ ops e1)"
    using refusals [OF Cons.prems(1) first ok] one_op [OF Cons.prems(1) first ok]
      inv_counts [OF inv] inv_counts [OF Cons.prems(1)]
    by (intro explained_step [OF Cons.prems(2)]) (auto simp: ops_append)
  then show ?case using Cons.IH [OF inv _ rest] Cons.prems(4) e by (simp add: ops_append)
qed

lemma explained_run:
  "inv [] s \<Longrightarrow> exec step s as = (s', e) \<Longrightarrow> guard e \<Longrightarrow> explained N (ops e)"
  using explained_exec [of "[]"] ops_append [of "[]" "[]"] by simp

end

text \<open>The bytes an interrupted copy has moved so far.\<close>

definition holds_bytes :: "ring \<Rightarrow> nat \<Rightarrow> byte list \<Rightarrow> bool" where
  "holds_bytes r k p \<longleftrightarrow> length p \<le> osz r \<and> (\<forall>i < length p. byte_at r k i = p ! i)"

lemma holds_bytes_frame [simp]:
  "holds_bytes (r\<lparr>r_head := h\<rparr>) k p = holds_bytes r k p"
  "holds_bytes (r\<lparr>r_tail := t\<rparr>) k p = holds_bytes r k p"
  "holds_bytes (store_slot r j v) k p = holds_bytes r k p"
  by (simp_all add: holds_bytes_def)

lemma holds_bytes_write_other:
  assumes "ring_wf r" "j < osz r" "k mod cap r \<noteq> l mod cap r"
  shows "holds_bytes (write_byte r (elem_addr r l + of_nat j) v) k p = holds_bytes r k p"
  using assms by (auto simp: holds_bytes_def byte_at_write)

lemma holds_bytes_write_next:
  assumes "ring_wf r" "length p < osz r" "holds_bytes r k p"
  shows "holds_bytes (write_byte r (elem_addr r k + of_nat (length p)) v) k (p @ [v])"
  using assms by (auto simp: holds_bytes_def byte_at_write nth_append less_Suc_eq)

lemma holds_bytes_agree:
  "holds_bytes r k p \<Longrightarrow> holds_bytes r k b \<Longrightarrow> agree p b"
  by (auto simp: holds_bytes_def agree_def)

lemma holds_bytes_read:
  "length b < osz r \<Longrightarrow> holds_bytes r k b \<Longrightarrow> holds_bytes r k (b @ [byte_at r k (length b)])"
  by (auto simp: holds_bytes_def nth_append less_Suc_eq)

lemma holds_bytes_Nil [simp]: "holds_bytes r k []"
  by (simp add: holds_bytes_def)

section \<open>Destinations of a pop\<close>

text \<open>Where a popped object goes: into a buffer of the given size, or to a callback.\<close>

datatype dest = ToBuf size_t | ToCb "byte list \<Rightarrow> int"

fun want :: "ring \<Rightarrow> dest \<Rightarrow> nat" where
  "want r (ToBuf sz) = unat sz"
| "want r (ToCb cb) = osz r"

fun answer :: "dest \<Rightarrow> size_t \<Rightarrow> byte list \<Rightarrow> int" where
  "answer (ToBuf sz) expected_tail buf = ssize_of expected_tail"
| "answer (ToCb cb) expected_tail buf = cb buf"

lemma want_geom:
  assumes "geom r' = geom r"
  shows "want r' d = want r d"
  by (cases d) (simp_all add: geom_eqD(7) [OF assms])

lemma want_frame [simp]:
  "want (store_slot r j v) d = want r d" "want (r\<lparr>r_head := h\<rparr>) d = want r d"
  "want (r\<lparr>r_tail := h\<rparr>) d = want r d" "want (write_byte r a b) d = want r d"
  by (cases d; simp)+

section \<open>Owners of tickets\<close>

text \<open>Every ticket of a set has an owner, and no ticket has two.\<close>

definition one_owner :: "(nat \<Rightarrow> nat option) \<Rightarrow> nat set \<Rightarrow> bool" where
  "one_owner f K \<longleftrightarrow> (\<forall>t t' k. f t = Some k \<longrightarrow> f t' = Some k \<longrightarrow> t = t') \<and> (\<forall>k \<in> K. \<exists>t. f t = Some k)"

lemma one_owner_take:
  assumes "one_owner f K" "f t = None" "\<And>u. f u \<noteq> Some k" "K' \<subseteq> insert k K"
  shows "one_owner (f(t := Some k)) K'"
  unfolding one_owner_def
proof (intro conjI allI impI ballI)
  fix u u' l assume "(f(t := Some k)) u = Some l" "(f(t := Some k)) u' = Some l"
  then show "u = u'" using assms(1,3) by (auto simp: one_owner_def split: if_splits)
next
  fix l assume "l \<in> K'"
  show "\<exists>u. (f(t := Some k)) u = Some l"
  proof (cases "l = k")
    case True
    then show ?thesis by (intro exI [of _ t]) simp
  next
    case False
    with \<open>l \<in> K'\<close> assms(4) have "l \<in> K" by auto
    then obtain u where u: "f u = Some l" using assms(1) unfolding one_owner_def by blast
    with assms(2) show ?thesis by (intro exI [of _ u]) auto
  qed
qed

lemma one_owner_drop:
  assumes "one_owner f K" "f t = Some k" "K' \<subseteq> K - {k}"
  shows "one_owner (f(t := None)) K'"
  unfolding one_owner_def
proof (intro conjI allI impI ballI)
  fix u u' l assume "(f(t := None)) u = Some l" "(f(t := None)) u' = Some l"
  then show "u = u'" using assms(1) by (auto simp: one_owner_def split: if_splits)
next
  fix l assume "l \<in> K'"
  with assms(3) have "l \<in> K" by auto
  then obtain u where u: "f u = Some l" using assms(1) unfolding one_owner_def by blast
  with assms \<open>l \<in> K'\<close> have "u \<noteq> t" by auto
  with u show "\<exists>u. (f(t := None)) u = Some l" by auto
qed

lemma one_owner_keep:
  "one_owner f K \<Longrightarrow> f t = x \<Longrightarrow> K' \<subseteq> K \<Longrightarrow> one_owner (f(t := x)) K'"
  by (auto simp: one_owner_def fun_upd_idem)

lemma no_owner: "one_owner f K \<Longrightarrow> (\<And>t. f t = None) \<Longrightarrow> K = {}"
  by (auto simp: one_owner_def)

lemma owner_upd: "f \<circ> pcs(t := pc) = (f \<circ> pcs)(t := f pc)"
  by (auto simp: fun_eq_iff)

end
