(* ===== verification/RB_Spsc_Conc.thy ===== *)
theory RB_Spsc_Conc
  imports RB_Spsc RB_Steps
begin

text \<open>
  The SPSC ring under concurrency: one producer thread and one consumer thread, each with its
  own caches, whose operations interleave at every access to shared memory, the single bytes
  of the two \<open>memcpy\<close> calls included. \<open>spsc_step\<close> is the code of \<^verbatim>\<open>Push_SpscRingBuf\<close> and
  \<^verbatim>\<open>Pop_SpscRingBuf\<close> cut at those accesses; the local computation after a load belongs to the
  load's step.
\<close>

section \<open>The system\<close>

text \<open>Where the producer is inside \<^verbatim>\<open>Push_SpscRingBuf\<close>, with the locals it holds there.\<close>

datatype spsc_ppc =
    p_idle: PIdle
  | PLoadHead src size_t
  | PLoadTail src size_t size_t
  | PCopy src size_t size_t nat

text \<open>Where the consumer is inside \<^verbatim>\<open>Pop_SpscRingBuf\<close>.\<close>

datatype spsc_cpc =
    c_idle: CIdle
  | CLoadTail size_t
  | CLoadHead size_t size_t
  | CCopy size_t size_t "byte list"

record spsc_sys =
  s_ring :: ring
  p_tls :: spsc_tls
  c_tls :: spsc_tls
  p_pc :: spsc_ppc
  c_pc :: spsc_cpc

datatype spsc_action = CallPush src size_t | CallPop size_t | StepP | StepC

text \<open>
  Events: an object became visible to the consumer, an object left the ring, an operation
  returned.
\<close>

datatype spsc_event = PutE "byte list" | GetE "byte list" | PushRet int | PopRet int

definition spsc_producer_step :: "spsc_sys \<Rightarrow> spsc_sys \<times> spsc_event list" where
  "spsc_producer_step s =
     (let r = s_ring s in
      case p_pc s of
        PIdle \<Rightarrow> (s, [])
      | PLoadHead args sz \<Rightarrow>
          (let curr_head = r_head r in
           if r_objNum r \<le> curr_head - local_tail (p_tls s)
           then (s\<lparr>p_pc := PLoadTail args sz curr_head\<rparr>, [])
           else (s\<lparr>p_pc := PCopy args sz curr_head 0\<rparr>, []))
      | PLoadTail args sz curr_head \<Rightarrow>
          (let l = (p_tls s)\<lparr>local_tail := r_tail r\<rparr> in
           if r_objNum r \<le> curr_head - local_tail l
           then (s\<lparr>p_tls := l, p_pc := PIdle\<rparr>, [PushRet RINGBUF_FULL])
           else (s\<lparr>p_tls := l, p_pc := PCopy args sz curr_head 0\<rparr>, []))
      | PCopy args sz curr_head i \<Rightarrow>
          if i < unat sz
          then (s\<lparr>s_ring := write_byte r (GET_BUFFER r (curr_head AND r_mask r) + of_nat i) (args i),
                  p_pc := PCopy args sz curr_head (Suc i)\<rparr>, [])
          else (s\<lparr>s_ring := r\<lparr>r_head := curr_head + 1\<rparr>, p_pc := PIdle\<rparr>,
                [PutE (map args [0..<unat sz]), PushRet (ssize_of curr_head)]))"

definition spsc_consumer_step :: "spsc_sys \<Rightarrow> spsc_sys \<times> spsc_event list" where
  "spsc_consumer_step s =
     (let r = s_ring s in
      case c_pc s of
        CIdle \<Rightarrow> (s, [])
      | CLoadTail sz \<Rightarrow>
          (let curr_tail = r_tail r in
           if local_head (c_tls s) = curr_tail
           then (s\<lparr>c_pc := CLoadHead sz curr_tail\<rparr>, [])
           else (s\<lparr>c_pc := CCopy sz curr_tail []\<rparr>, []))
      | CLoadHead sz curr_tail \<Rightarrow>
          (let l = (c_tls s)\<lparr>local_head := r_head r\<rparr> in
           if local_head l = curr_tail
           then (s\<lparr>c_tls := l, c_pc := CIdle\<rparr>, [PopRet RINGBUF_EMPTY])
           else (s\<lparr>c_tls := l, c_pc := CCopy sz curr_tail []\<rparr>, []))
      | CCopy sz curr_tail buf \<Rightarrow>
          if length buf < unat sz
          then (s\<lparr>c_pc := CCopy sz curr_tail
                   (buf @ [bytes r (GET_BUFFER r (curr_tail AND r_mask r) + of_nat (length buf))])\<rparr>,
                [])
          else (s\<lparr>s_ring := r\<lparr>r_tail := curr_tail + 1\<rparr>, c_pc := CIdle\<rparr>,
                [GetE buf, PopRet (ssize_of curr_tail)]))"

text \<open>
  A call starts with the check against \<open>objSize_\<close>, a field no thread ever writes. A thread
  that is inside an operation cannot start another one.
\<close>

fun spsc_step :: "spsc_sys \<Rightarrow> spsc_action \<Rightarrow> spsc_sys \<times> spsc_event list" where
  "spsc_step s (CallPush args sz) =
     (if \<not> p_idle (p_pc s) then (s, [])
      else if r_objSize (s_ring s) < sz then (s, [PushRet RINGBUF_PUSH_SIZE_TOO_LARGE])
      else (s\<lparr>p_pc := PLoadHead args sz\<rparr>, []))"
| "spsc_step s (CallPop sz) =
     (if \<not> c_idle (c_pc s) then (s, [])
      else if r_objSize (s_ring s) < sz then (s, [PopRet RINGBUF_POP_SIZE_TOO_LARGE])
      else (s\<lparr>c_pc := CLoadTail sz\<rparr>, []))"
| "spsc_step s StepP = spsc_producer_step s"
| "spsc_step s StepC = spsc_consumer_step s"

definition spsc_start :: "ring \<Rightarrow> spsc_sys" where
  "spsc_start r = \<lparr>s_ring = r, p_tls = spsc_tls_init, c_tls = spsc_tls_init, p_pc = PIdle,
     c_pc = CIdle\<rparr>"

text \<open>The objects put and got so far, in order.\<close>

fun puts :: "spsc_event list \<Rightarrow> byte list list" where
  "puts [] = []"
| "puts (PutE v # es) = v # puts es"
| "puts (_ # es) = puts es"

fun gets :: "spsc_event list \<Rightarrow> byte list list" where
  "gets [] = []"
| "gets (GetE v # es) = v # gets es"
| "gets (_ # es) = gets es"

lemma puts_append [simp]: "puts (h @ e) = puts h @ puts e"
  by (induction h rule: puts.induct) simp_all

lemma gets_append [simp]: "gets (h @ e) = gets h @ gets e"
  by (induction h rule: gets.induct) simp_all


section \<open>The invariant\<close>

text \<open>
  \<open>P\<close> and \<open>Q\<close> are the objects put and got so far; their lengths are the unbounded values of
  the two positions. \<open>LT\<close> and \<open>LH\<close> are the unbounded values of the producer's and the
  consumer's cache.
\<close>

fun producer_inv :: "ring \<Rightarrow> byte list list \<Rightarrow> nat \<Rightarrow> spsc_ppc \<Rightarrow> bool" where
  "producer_inv r P LT PIdle \<longleftrightarrow> True"
| "producer_inv r P LT (PLoadHead args sz) \<longleftrightarrow> unat sz \<le> osz r"
| "producer_inv r P LT (PLoadTail args sz ch) \<longleftrightarrow> unat sz \<le> osz r \<and> ch = of_nat (length P)"
| "producer_inv r P LT (PCopy args sz ch i) \<longleftrightarrow>
     unat sz \<le> osz r \<and> ch = of_nat (length P) \<and> length P < LT + cap r \<and> i \<le> unat sz \<and>
     holds_bytes r (length P) (map args [0..<i])"

fun consumer_inv :: "ring \<Rightarrow> byte list list \<Rightarrow> nat \<Rightarrow> spsc_cpc \<Rightarrow> bool" where
  "consumer_inv r Q LH CIdle \<longleftrightarrow> True"
| "consumer_inv r Q LH (CLoadTail sz) \<longleftrightarrow> unat sz \<le> osz r"
| "consumer_inv r Q LH (CLoadHead sz ct) \<longleftrightarrow> unat sz \<le> osz r \<and> ct = of_nat (length Q)"
| "consumer_inv r Q LH (CCopy sz ct buf) \<longleftrightarrow>
     unat sz \<le> osz r \<and> ct = of_nat (length Q) \<and> length Q < LH \<and> length buf \<le> unat sz \<and>
     holds_bytes r (length Q) buf"

definition positions_inv :: "ring \<Rightarrow> byte list list \<Rightarrow> byte list list \<Rightarrow> nat \<Rightarrow> nat \<Rightarrow> bool" where
  "positions_inv r P Q LT LH \<longleftrightarrow>
     ring_wf r \<and> r_head r = of_nat (length P) \<and> r_tail r = of_nat (length Q) \<and>
     LT \<le> length Q \<and> length Q \<le> LH \<and> LH \<le> length P \<and> length P \<le> LT + cap r"

definition contents_inv :: "ring \<Rightarrow> byte list list \<Rightarrow> byte list list \<Rightarrow> bool" where
  "contents_inv r P Q \<longleftrightarrow>
     (\<forall>k. length Q \<le> k \<and> k < length P \<longrightarrow> holds_bytes r k (P ! k)) \<and>
     list_all2 agree (take (length Q) P) Q"

definition spsc_inv_at :: "byte list list \<Rightarrow> byte list list \<Rightarrow> nat \<Rightarrow> nat \<Rightarrow> spsc_sys \<Rightarrow> bool" where
  "spsc_inv_at P Q LT LH s \<longleftrightarrow>
     positions_inv (s_ring s) P Q LT LH \<and> contents_inv (s_ring s) P Q \<and>
     local_tail (p_tls s) = of_nat LT \<and> local_head (c_tls s) = of_nat LH \<and>
     producer_inv (s_ring s) P LT (p_pc s) \<and> consumer_inv (s_ring s) Q LH (c_pc s)"

definition spsc_inv :: "spsc_event list \<Rightarrow> spsc_sys \<Rightarrow> bool" where
  "spsc_inv h s \<longleftrightarrow> (\<exists>LT LH. spsc_inv_at (puts h) (gets h) LT LH s)"

lemma positions_diff:
  assumes "positions_inv r P Q LT LH"
  shows "unat (r_head r - of_nat LT) = length P - LT"
    and "unat (r_head r - r_tail r) = length P - length Q"
    and "of_nat LH = r_tail r \<longleftrightarrow> LH = length Q"
    and "r_head r = r_tail r \<longleftrightarrow> length P = length Q"
proof -
  have wf: "ring_wf r" and head: "r_head r = of_nat (length P)" and tail: "r_tail r = of_nat (length Q)"
    and ord: "LT \<le> length Q" "length Q \<le> LH" "LH \<le> length P" "length P \<le> LT + cap r"
    using assms by (simp_all add: positions_inv_def)
  have small: "length P - LT < 2 ^ 64" "length P - length Q < 2 ^ 64" "LH - length Q < 2 ^ 64"
    using wf_cap_le [OF wf] ord by auto
  show "unat (r_head r - of_nat LT) = length P - LT"
    unfolding head by (rule unat_ticket_diff) (use ord small in simp_all)
  show "unat (r_head r - r_tail r) = length P - length Q"
    unfolding head tail by (rule unat_ticket_diff) (use ord small in simp_all)
  show "of_nat LH = r_tail r \<longleftrightarrow> LH = length Q"
    unfolding tail using ticket_inject [OF _ ord(2) small(3)] by blast
  show "r_head r = r_tail r \<longleftrightarrow> length P = length Q"
    unfolding head tail using ticket_inject [OF _ order_trans [OF ord(2,3)] small(2)] by metis
qed

lemma slots_distinct:
  assumes "positions_inv r P Q LT LH" "length P < LT + cap r" "length Q \<le> k" "k < length P"
  shows "k mod cap r \<noteq> length P mod cap r"
  by (rule mod_less_distinct) (use assms in \<open>auto simp: positions_inv_def\<close>)

text \<open>A byte written into the element at the head, which is free, disturbs nobody.\<close>

lemma spsc_free_write:
  fixes b :: byte
  assumes inv: "spsc_inv_at P Q LT LH s" and room: "length P < LT + cap (s_ring s)" and i: "i < osz (s_ring s)"
  defines "r' \<equiv> write_byte (s_ring s) (elem_addr (s_ring s) (length P) + of_nat i) b"
  shows "positions_inv r' P Q LT LH" "contents_inv r' P Q" "consumer_inv r' Q LH (c_pc s)"
proof -
  have pos: "positions_inv (s_ring s) P Q LT LH" and wf: "ring_wf (s_ring s)"
    using inv by (simp_all add: spsc_inv_at_def positions_inv_def)
  have other: "holds_bytes r' k p = holds_bytes (s_ring s) k p" if "length Q \<le> k" "k < length P" for k p
    unfolding r'_def by (rule holds_bytes_write_other [OF wf i slots_distinct [OF pos room that]])
  show "positions_inv r' P Q LT LH" using pos by (simp add: positions_inv_def r'_def)
  show "contents_inv r' P Q" using inv other by (auto simp: spsc_inv_at_def contents_inv_def)
  show "consumer_inv r' Q LH (c_pc s)"
    using inv other [of "length Q"]
    by (cases "c_pc s") (auto simp: spsc_inv_at_def positions_inv_def r'_def)
qed

text \<open>The object held by that element becomes visible.\<close>

lemma spsc_make_visible:
  assumes inv: "spsc_inv_at P Q LT LH s" and room: "length P < LT + cap (s_ring s)"
    and held: "holds_bytes (s_ring s) (length P) p"
  shows "spsc_inv_at (P @ [p]) Q LT LH (s\<lparr>s_ring := (s_ring s)\<lparr>r_head := of_nat (length P) + 1\<rparr>, p_pc := PIdle\<rparr>)"
proof -
  let ?r = "s_ring s"
  have pos: "positions_inv ?r P Q LT LH" using inv by (simp add: spsc_inv_at_def)
  have "contents_inv (?r\<lparr>r_head := of_nat (length P) + 1\<rparr>) (P @ [p]) Q"
    using inv held pos
    by (auto simp: spsc_inv_at_def contents_inv_def positions_inv_def nth_append less_Suc_eq)
  moreover have "positions_inv (?r\<lparr>r_head := of_nat (length P) + 1\<rparr>) (P @ [p]) Q LT LH"
    using pos room by (auto simp: positions_inv_def add.commute)
  moreover have "consumer_inv (?r\<lparr>r_head := of_nat (length P) + 1\<rparr>) Q LH (c_pc s)"
    using inv by (cases "c_pc s") (auto simp: spsc_inv_at_def)
  ultimately show ?thesis using inv by (simp add: spsc_inv_at_def)
qed

text \<open>The producer writes a byte, and makes its object visible.\<close>

lemma spsc_inv_write:
  assumes inv: "spsc_inv_at P Q LT LH s" and at: "p_pc s = PCopy args sz ch i" and more: "i < unat sz"
  defines "r \<equiv> s_ring s"
  shows "spsc_inv_at P Q LT LH (s\<lparr>s_ring := write_byte r (GET_BUFFER r (ch AND r_mask r) + of_nat i) (args i),
      p_pc := PCopy args sz ch (Suc i)\<rparr>)"
proof -
  have wf: "ring_wf r" and here: "unat sz \<le> osz r" "ch = of_nat (length P)" "length P < LT + cap r"
      "holds_bytes r (length P) (map args [0..<i])"
    using inv at by (simp_all add: spsc_inv_at_def positions_inv_def r_def)
  have addr: "GET_BUFFER r (ch AND r_mask r) = elem_addr r (length P)" by (simp add: here(2) elem_addr_def)
  have i: "i < osz r" using more here(1) by simp
  note free = spsc_free_write [OF inv here(3) [unfolded r_def] i [unfolded r_def], of "args i", folded r_def]
  have "holds_bytes (write_byte r (elem_addr r (length P) + of_nat i) (args i)) (length P) (map args [0..<i] @ [args i])"
    using holds_bytes_write_next [OF wf _ here(4)] i by simp
  then show ?thesis unfolding addr using inv free here more by (simp add: spsc_inv_at_def flip: r_def)
qed

lemma spsc_inv_publish:
  assumes inv: "spsc_inv_at P Q LT LH s" and at: "p_pc s = PCopy args sz ch i" and copied: "\<not> i < unat sz"
  shows "spsc_inv_at (P @ [map args [0..<unat sz]]) Q LT LH
    (s\<lparr>s_ring := (s_ring s)\<lparr>r_head := ch + 1\<rparr>, p_pc := PIdle\<rparr>)"
proof -
  have here: "ch = of_nat (length P)" "length P < LT + cap (s_ring s)" "i \<le> unat sz"
      "holds_bytes (s_ring s) (length P) (map args [0..<i])"
    using inv at by (simp_all add: spsc_inv_at_def)
  moreover have "i = unat sz" using copied here(3) by simp
  ultimately show ?thesis using spsc_make_visible [OF inv here(2)] by simp
qed

lemma spsc_inv_producer:
  assumes inv: "spsc_inv_at P Q LT LH s" and step: "spsc_producer_step s = (s', e)"
  shows "\<exists>LT'. spsc_inv_at (P @ puts e) (Q @ gets e) LT' LH s'"
proof (cases "p_pc s")
  case PIdle
  with inv step show ?thesis by (auto simp: spsc_producer_step_def)
next
  case (PLoadHead args sz)
  note pos = inv [unfolded spsc_inv_at_def, THEN conjunct1]
  have "spsc_inv_at (P @ puts e) (Q @ gets e) LT LH s'"
    using inv step PLoadHead positions_diff(1) [OF pos]
    by (auto simp: spsc_producer_step_def spsc_inv_at_def full_iff positions_inv_def Let_def
        split: if_splits)
  then show ?thesis ..
next
  case (PLoadTail args sz ch)
  note pos = inv [unfolded spsc_inv_at_def, THEN conjunct1]
  have "spsc_inv_at (P @ puts e) (Q @ gets e) (length Q) LH s'"
    using inv step PLoadTail positions_diff(2) [OF pos]
    by (auto simp: spsc_producer_step_def spsc_inv_at_def full_iff positions_inv_def Let_def
        split: if_splits)
  then show ?thesis ..
next
  case (PCopy args sz ch i)
  then show ?thesis
    using spsc_inv_write [OF inv PCopy] spsc_inv_publish [OF inv PCopy] step
    by (cases "i < unat sz") (auto simp: spsc_producer_step_def Let_def)
qed

lemma list_all2_take_snoc:
  "list_all2 R (take n P) Q \<Longrightarrow> n < length P \<Longrightarrow> R (P ! n) v \<Longrightarrow>
   list_all2 R (take (Suc n) P) (Q @ [v])"
  by (simp add: take_Suc_conv_app_nth list_all2_appendI)

text \<open>The consumer reads a byte, and gives the slot back.\<close>

lemma spsc_inv_read:
  assumes inv: "spsc_inv_at P Q LT LH s" and at: "c_pc s = CCopy sz ct buf" and more: "length buf < unat sz"
  defines "r \<equiv> s_ring s"
  shows "spsc_inv_at P Q LT LH (s\<lparr>c_pc := CCopy sz ct
    (buf @ [bytes r (GET_BUFFER r (ct AND r_mask r) + of_nat (length buf))])\<rparr>)"
proof -
  have here: "unat sz \<le> osz r" "ct = of_nat (length Q)" "holds_bytes r (length Q) buf"
    using inv at by (simp_all add: spsc_inv_at_def r_def)
  have byte: "bytes r (GET_BUFFER r (ct AND r_mask r) + of_nat (length buf)) = byte_at r (length Q) (length buf)"
    by (simp add: here(2) byte_at_def elem_addr_def)
  have "holds_bytes r (length Q) (buf @ [byte_at r (length Q) (length buf)])"
    using holds_bytes_read [OF _ here(3)] more here(1) by simp
  then show ?thesis unfolding byte using inv at here more by (simp add: spsc_inv_at_def flip: r_def)
qed

lemma spsc_give_back:
  assumes inv: "spsc_inv_at P Q LT LH s" and some: "length Q < LH" and held: "holds_bytes (s_ring s) (length Q) buf"
  shows "spsc_inv_at P (Q @ [buf]) LT LH
    (s\<lparr>s_ring := (s_ring s)\<lparr>r_tail := of_nat (length Q) + 1\<rparr>, c_pc := CIdle\<rparr>)"
proof -
  let ?r = "s_ring s"
  let ?r' = "?r\<lparr>r_tail := of_nat (length Q) + 1\<rparr>"
  have pos: "positions_inv ?r P Q LT LH" using inv by (simp add: spsc_inv_at_def)
  have q: "length Q < length P" using pos some by (simp add: positions_inv_def)
  have "holds_bytes ?r (length Q) (P ! length Q)"
    using inv q by (simp add: spsc_inv_at_def contents_inv_def)
  then have "agree (P ! length Q) buf" using held by (rule holds_bytes_agree)
  with q have "contents_inv ?r' P (Q @ [buf])"
    using inv list_all2_take_snoc [of agree "length Q" P Q buf]
    by (simp add: spsc_inv_at_def contents_inv_def)
  moreover have "positions_inv ?r' P (Q @ [buf]) LT LH"
    using pos some by (auto simp: positions_inv_def add.commute)
  moreover have "producer_inv ?r' P LT (p_pc s)"
    using inv by (cases "p_pc s") (auto simp: spsc_inv_at_def)
  ultimately show ?thesis using inv by (simp add: spsc_inv_at_def)
qed

lemma spsc_inv_release:
  assumes inv: "spsc_inv_at P Q LT LH s" and at: "c_pc s = CCopy sz ct buf"
  shows "spsc_inv_at P (Q @ [buf]) LT LH (s\<lparr>s_ring := (s_ring s)\<lparr>r_tail := ct + 1\<rparr>, c_pc := CIdle\<rparr>)"
  using spsc_give_back [OF inv, of buf] inv at by (simp add: spsc_inv_at_def)

lemma spsc_inv_consumer:
  assumes inv: "spsc_inv_at P Q LT LH s" and step: "spsc_consumer_step s = (s', e)"
  shows "\<exists>LH'. spsc_inv_at (P @ puts e) (Q @ gets e) LT LH' s'"
proof (cases "c_pc s")
  case CIdle
  with inv step show ?thesis by (auto simp: spsc_consumer_step_def)
next
  case (CLoadTail sz)
  note pos = inv [unfolded spsc_inv_at_def, THEN conjunct1]
  have "spsc_inv_at (P @ puts e) (Q @ gets e) LT LH s'"
    using inv step CLoadTail positions_diff(3) [OF pos]
    by (auto simp: spsc_consumer_step_def spsc_inv_at_def positions_inv_def Let_def split: if_splits)
  then show ?thesis ..
next
  case (CLoadHead sz ct)
  note pos = inv [unfolded spsc_inv_at_def, THEN conjunct1]
  have "spsc_inv_at (P @ puts e) (Q @ gets e) LT (length P) s'"
    using inv step CLoadHead positions_diff(4) [OF pos]
    by (auto simp: spsc_consumer_step_def spsc_inv_at_def positions_inv_def Let_def split: if_splits)
  then show ?thesis ..
next
  case (CCopy sz ct buf)
  then show ?thesis
    using spsc_inv_read [OF inv CCopy] spsc_inv_release [OF inv CCopy] step
    by (cases "length buf < unat sz") (auto simp: spsc_consumer_step_def Let_def)
qed

lemma spsc_inv_step:
  assumes "spsc_inv h s" "spsc_step s a = (s', e)"
  shows "spsc_inv (h @ e) s'"
proof -
  from assms(1) obtain LT LH where inv: "spsc_inv_at (puts h) (gets h) LT LH s"
    by (auto simp: spsc_inv_def)
  show ?thesis
  proof (cases a)
    case (CallPush args sz)
    with inv assms(2) have "spsc_inv_at (puts (h @ e)) (gets (h @ e)) LT LH s'"
      by (auto simp: spsc_inv_at_def size_fits split: if_splits)
    then show ?thesis by (auto simp: spsc_inv_def)
  next
    case (CallPop sz)
    with inv assms(2) have "spsc_inv_at (puts (h @ e)) (gets (h @ e)) LT LH s'"
      by (auto simp: spsc_inv_at_def size_fits split: if_splits)
    then show ?thesis by (auto simp: spsc_inv_def)
  next
    case StepP
    with assms(2) have "spsc_producer_step s = (s', e)" by simp
    from spsc_inv_producer [OF inv this] show ?thesis by (auto simp: spsc_inv_def)
  next
    case StepC
    with assms(2) have "spsc_consumer_step s = (s', e)" by simp
    from spsc_inv_consumer [OF inv this] show ?thesis by (auto simp: spsc_inv_def)
  qed
qed

interpretation spsc_conc: history_system spsc_step spsc_inv "\<lambda>_. True"
  by unfold_locales (auto intro: spsc_inv_step)

lemma spsc_inv_start:
  "ring_wf r \<Longrightarrow> r_head r = 0 \<Longrightarrow> r_tail r = 0 \<Longrightarrow> spsc_inv [] (spsc_start r)"
  unfolding spsc_inv_def
  by (intro exI [of _ 0])
    (simp add: spsc_inv_at_def spsc_start_def positions_inv_def contents_inv_def spsc_tls_init_def)


section \<open>Bounded steps\<close>

text \<open>How many more accesses an operation makes at most.\<close>

fun producer_work :: "spsc_ppc \<Rightarrow> nat" where
  "producer_work PIdle = 0"
| "producer_work (PLoadHead args sz) = unat sz + 3"
| "producer_work (PLoadTail args sz ch) = unat sz + 2"
| "producer_work (PCopy args sz ch i) = unat sz - i + 1"

fun consumer_work :: "spsc_cpc \<Rightarrow> nat" where
  "consumer_work CIdle = 0"
| "consumer_work (CLoadTail sz) = unat sz + 3"
| "consumer_work (CLoadHead sz ct) = unat sz + 2"
| "consumer_work (CCopy sz ct buf) = unat sz - length buf + 1"

text \<open>The producer is \<open>True\<close>, the consumer \<open>False\<close>.\<close>

fun spsc_busy :: "bool \<Rightarrow> spsc_sys \<Rightarrow> bool" where
  "spsc_busy True s = (\<not> p_idle (p_pc s))"
| "spsc_busy False s = (\<not> c_idle (c_pc s))"

fun spsc_work :: "bool \<Rightarrow> spsc_sys \<Rightarrow> nat" where
  "spsc_work True s = producer_work (p_pc s)"
| "spsc_work False s = consumer_work (c_pc s)"

fun spsc_own :: "bool \<Rightarrow> spsc_action \<Rightarrow> bool" where
  "spsc_own True StepP = True"
| "spsc_own False StepC = True"
| "spsc_own t a = False"

fun spsc_returned :: "bool \<Rightarrow> spsc_event list \<Rightarrow> bool" where
  "spsc_returned True h = (\<exists>rc. PushRet rc \<in> set h)"
| "spsc_returned False h = (\<exists>rc. PopRet rc \<in> set h)"

lemma producer_step_progress:
  "\<not> p_idle (p_pc s) \<Longrightarrow> spsc_producer_step s = (s', e) \<Longrightarrow>
   (\<exists>rc. PushRet rc \<in> set e) \<or>
   (\<not> p_idle (p_pc s') \<and> producer_work (p_pc s') < producer_work (p_pc s))"
  by (cases "p_pc s") (auto simp: spsc_producer_step_def Let_def split: if_splits)

lemma consumer_step_progress:
  "\<not> c_idle (c_pc s) \<Longrightarrow> spsc_consumer_step s = (s', e) \<Longrightarrow>
   (\<exists>rc. PopRet rc \<in> set e) \<or>
   (\<not> c_idle (c_pc s') \<and> consumer_work (c_pc s') < consumer_work (c_pc s))"
  by (cases "c_pc s") (auto simp: spsc_consumer_step_def Let_def split: if_splits)

lemma producer_step_c_pc: "spsc_producer_step s = (s', e) \<Longrightarrow> c_pc s' = c_pc s"
  by (cases "p_pc s") (auto simp: spsc_producer_step_def Let_def split: if_splits)

lemma consumer_step_p_pc: "spsc_consumer_step s = (s', e) \<Longrightarrow> p_pc s' = p_pc s"
  by (cases "c_pc s") (auto simp: spsc_consumer_step_def Let_def split: if_splits)

lemma spsc_other_step:
  assumes "spsc_busy t s" "\<not> spsc_own t a" "spsc_step s a = (s', e)"
  shows "spsc_busy t s' \<and> spsc_work t s' = spsc_work t s"
proof (cases t)
  case True
  with assms have "p_pc s' = p_pc s"
    by (cases a) (auto split: if_splits dest: consumer_step_p_pc)
  with True assms(1) show ?thesis by simp
next
  case False
  with assms have "c_pc s' = c_pc s"
    by (cases a) (auto split: if_splits dest: producer_step_c_pc)
  with False assms(1) show ?thesis by simp
qed

interpretation spsc_ops: bounded_operations spsc_step spsc_busy spsc_work spsc_own spsc_returned
proof (unfold_locales, goal_cases)
  case (1 t s a s' e)
  then show ?case
    using producer_step_progress [of s s' e] consumer_step_progress [of s s' e]
    by (cases "(t, a)" rule: spsc_own.cases) auto
next
  case (2 t s a s' e)
  then show ?case by (rule spsc_other_step)
next
  case (3 t s)
  then show ?case by (cases t; cases "p_pc s"; cases "c_pc s") auto
next
  case (4 t e e')
  then show ?case by (cases t) auto
qed


section \<open>An operation run alone\<close>

lemma producer_copy_alone:
  assumes "p_pc s = PCopy args sz ch i" "i \<le> unat sz" "s_ring s = memcpy_in r a args i"
    and "geom r = geom r0" "a = GET_BUFFER r0 (ch AND r_mask r0)"
  shows "exec spsc_step s (replicate (unat sz - i + 1) StepP) =
    (s\<lparr>s_ring := (memcpy_in r a args (unat sz))\<lparr>r_head := ch + 1\<rparr>, p_pc := PIdle\<rparr>,
     [PutE (map args [0..<unat sz]), PushRet (ssize_of ch)])"
  using assms(1-3)
proof (induction "unat sz - i" arbitrary: i s)
  case 0
  then show ?case by (simp add: spsc_producer_step_def)
next
  case (Suc d)
  have addr: "GET_BUFFER (s_ring s) (ch AND r_mask (s_ring s)) = a"
    using geom_eqD(3,9) [OF assms(4)] assms(5) Suc.prems(3) by simp
  let ?s = "s\<lparr>s_ring := memcpy_in r a args (Suc i), p_pc := PCopy args sz ch (Suc i)\<rparr>"
  have "spsc_step s StepP = (?s, [])"
    using Suc.prems Suc.hyps(2) addr by (simp add: spsc_producer_step_def Let_def)
  moreover have "exec spsc_step ?s (replicate (unat sz - Suc i + 1) StepP) =
      (?s\<lparr>s_ring := (memcpy_in r a args (unat sz))\<lparr>r_head := ch + 1\<rparr>, p_pc := PIdle\<rparr>,
       [PutE (map args [0..<unat sz]), PushRet (ssize_of ch)])"
    by (rule Suc.hyps(1)) (use Suc.prems Suc.hyps(2) in simp_all)
  moreover have "unat sz - i + 1 = Suc (unat sz - Suc i + 1)" using Suc.hyps(2) by simp
  ultimately show ?case by simp
qed

lemma consumer_copy_alone:
  assumes "c_pc s = CCopy sz ct (memcpy_out (s_ring s) a i)" "i \<le> unat sz"
    and "a = GET_BUFFER (s_ring s) (ct AND r_mask (s_ring s))"
  shows "exec spsc_step s (replicate (unat sz - i + 1) StepC) =
    (s\<lparr>s_ring := (s_ring s)\<lparr>r_tail := ct + 1\<rparr>, c_pc := CIdle\<rparr>,
     [GetE (memcpy_out (s_ring s) a (unat sz)), PopRet (ssize_of ct)])"
  using assms
proof (induction "unat sz - i" arbitrary: i s)
  case 0
  then show ?case by (simp add: spsc_consumer_step_def)
next
  case (Suc d)
  let ?s = "s\<lparr>c_pc := CCopy sz ct (memcpy_out (s_ring s) a (Suc i))\<rparr>"
  have "spsc_step s StepC = (?s, [])"
    using Suc.prems Suc.hyps(2) by (simp add: spsc_consumer_step_def Let_def memcpy_out_def)
  moreover have "exec spsc_step ?s (replicate (unat sz - Suc i + 1) StepC) =
      (?s\<lparr>s_ring := (s_ring ?s)\<lparr>r_tail := ct + 1\<rparr>, c_pc := CIdle\<rparr>,
       [GetE (memcpy_out (s_ring ?s) a (unat sz)), PopRet (ssize_of ct)])"
    by (rule Suc.hyps(1)) (use Suc.prems Suc.hyps(2) in simp_all)
  moreover have "unat sz - i + 1 = Suc (unat sz - Suc i + 1)" using Suc.hyps(2) by simp
  ultimately show ?case by simp
qed

text \<open>Steps of an idle thread change nothing.\<close>

lemma exec_idle:
  "p_pc s = PIdle \<Longrightarrow> exec spsc_step s (replicate n StepP) = (s, [])"
  "c_pc s = CIdle \<Longrightarrow> exec spsc_step s (replicate n StepC) = (s, [])"
  by (induction n) (simp_all add: spsc_producer_step_def spsc_consumer_step_def)

lemma exec_then_idle:
  assumes "exec spsc_step s (replicate m a) = (s', e)" "m \<le> n"
    and "a = StepP \<and> p_pc s' = PIdle \<or> a = StepC \<and> c_pc s' = CIdle"
  shows "exec spsc_step s (replicate n a) = (s', e)"
proof -
  have "replicate n a = replicate m a @ replicate (n - m) a"
    using assms(2) by (simp flip: replicate_add)
  then show ?thesis using assms(1,3) by (auto simp: exec_append exec_idle)
qed


lemma exec_Cons_None: "f s a = (s', []) \<Longrightarrow> exec f s (a # as) = exec f s' as"
  by simp

lemma producer_alone:
  assumes pc: "p_pc s = PIdle" and push: "Push_SpscRingBuf (p_tls s) (s_ring s) args sz = (rc, l', r')"
  shows "\<exists>e. exec spsc_step s (CallPush args sz # replicate (unat sz + 3) StepP) =
    (s\<lparr>s_ring := r', p_tls := l'\<rparr>, e @ [PushRet rc])"
proof (cases "r_objSize (s_ring s) < sz")
  case True
  then show ?thesis using pc push by (simp add: Push_SpscRingBuf_def exec_idle)
next
  case False
  let ?r = "s_ring s" and ?t = "p_tls s"
  let ?h = "r_head ?r"
  let ?full = "\<lambda>l. r_objNum ?r \<le> ?h - local_tail l"
  let ?l = "?t\<lparr>local_tail := r_tail ?r\<rparr>"
  let ?s0 = "s\<lparr>p_pc := PLoadHead args sz\<rparr>"
  have copy: "exec spsc_step (s\<lparr>p_tls := l, p_pc := PCopy args sz ?h 0\<rparr>) (replicate k StepP) =
      (s\<lparr>s_ring := (memcpy_in ?r (GET_BUFFER ?r (?h AND r_mask ?r)) args (unat sz))\<lparr>r_head := ?h + 1\<rparr>,
         p_tls := l\<rparr>, [PutE (map args [0..<unat sz]), PushRet (ssize_of ?h)])"
    if "unat sz + 1 \<le> k" for l k
  proof (rule exec_then_idle [OF _ that])
    show "exec spsc_step (s\<lparr>p_tls := l, p_pc := PCopy args sz ?h 0\<rparr>) (replicate (unat sz + 1) StepP) =
      (s\<lparr>s_ring := (memcpy_in ?r (GET_BUFFER ?r (?h AND r_mask ?r)) args (unat sz))\<lparr>r_head := ?h + 1\<rparr>,
         p_tls := l\<rparr>, [PutE (map args [0..<unat sz]), PushRet (ssize_of ?h)])"
      using producer_copy_alone
        [of "s\<lparr>p_tls := l, p_pc := PCopy args sz ?h 0\<rparr>" args sz ?h 0 ?r
            "GET_BUFFER ?r (?h AND r_mask ?r)" ?r] pc by simp
  qed (simp add: pc)
  have call: "exec spsc_step s (CallPush args sz # replicate (unat sz + 3) StepP) =
      exec spsc_step ?s0 (replicate (unat sz + 3) StepP)"
    by (rule exec_Cons_None) (simp add: pc False)
  show ?thesis
  proof (cases "?full ?t")
    case quick: False
    have "exec spsc_step ?s0 (replicate (unat sz + 3) StepP) =
        exec spsc_step (s\<lparr>p_tls := ?t, p_pc := PCopy args sz ?h 0\<rparr>) (replicate (unat sz + 2) StepP)"
      using exec_Cons_None [of spsc_step ?s0 StepP "s\<lparr>p_tls := ?t, p_pc := PCopy args sz ?h 0\<rparr>"
          "replicate (unat sz + 2) StepP"] quick
      by (simp add: spsc_producer_step_def eval_nat_numeral)
    then show ?thesis
      using push call False quick copy [of "unat sz + 2" ?t] by (auto simp: Push_SpscRingBuf_def Let_def)
  next
    case slow: True
    let ?s1 = "s\<lparr>p_pc := PLoadTail args sz ?h\<rparr>"
    have "exec spsc_step ?s0 (replicate (unat sz + 3) StepP) =
        exec spsc_step ?s1 (replicate (unat sz + 2) StepP)"
      using exec_Cons_None [of spsc_step ?s0 StepP ?s1 "replicate (unat sz + 2) StepP"] slow
      by (simp add: spsc_producer_step_def eval_nat_numeral)
    moreover have "exec spsc_step ?s1 (replicate (unat sz + 2) StepP) =
        (if ?full ?l then (s\<lparr>p_tls := ?l\<rparr>, [PushRet RINGBUF_FULL])
         else exec spsc_step (s\<lparr>p_tls := ?l, p_pc := PCopy args sz ?h 0\<rparr>) (replicate (unat sz + 1) StepP))"
      using pc by (simp add: spsc_producer_step_def exec_idle Let_def)
    ultimately show ?thesis
      using push call False slow copy [of "unat sz + 1" ?l] by (auto simp: Push_SpscRingBuf_def Let_def)
  qed
qed


text \<open>The buffer a pop filled, in the events of its run.\<close>

lemma consumer_alone:
  assumes pc: "c_pc s = CIdle"
    and pop: "Pop_SpscRingBuf (c_tls s) (s_ring s) sz = (rc, buf, l', r')"
  shows "exec spsc_step s (CallPop sz # replicate (unat sz + 3) StepC) =
    (s\<lparr>s_ring := r', c_tls := l'\<rparr>,
     (case buf of None \<Rightarrow> [] | Some b \<Rightarrow> [GetE b]) @ [PopRet rc])"
proof (cases "r_objSize (s_ring s) < sz")
  case True
  then show ?thesis using pc pop by (auto simp: Pop_SpscRingBuf_def exec_idle)
next
  case False
  let ?r = "s_ring s" and ?t = "c_tls s"
  let ?q = "r_tail ?r"
  let ?l = "?t\<lparr>local_head := r_head ?r\<rparr>"
  let ?s0 = "s\<lparr>c_pc := CLoadTail sz\<rparr>"
  let ?buf = "memcpy_out ?r (GET_BUFFER ?r (?q AND r_mask ?r)) (unat sz)"
  have copy: "exec spsc_step (s\<lparr>c_tls := l, c_pc := CCopy sz ?q []\<rparr>) (replicate k StepC) =
      (s\<lparr>s_ring := ?r\<lparr>r_tail := ?q + 1\<rparr>, c_tls := l\<rparr>, [GetE ?buf, PopRet (ssize_of ?q)])"
    if "unat sz + 1 \<le> k" for l k
  proof (rule exec_then_idle [OF _ that])
    show "exec spsc_step (s\<lparr>c_tls := l, c_pc := CCopy sz ?q []\<rparr>) (replicate (unat sz + 1) StepC) =
      (s\<lparr>s_ring := ?r\<lparr>r_tail := ?q + 1\<rparr>, c_tls := l\<rparr>, [GetE ?buf, PopRet (ssize_of ?q)])"
      (is "exec _ ?s _ = _")
    proof -
      have "exec spsc_step ?s (replicate (unat sz - 0 + 1) StepC) =
          (?s\<lparr>s_ring := (s_ring ?s)\<lparr>r_tail := ?q + 1\<rparr>, c_pc := CIdle\<rparr>,
           [GetE (memcpy_out (s_ring ?s) (GET_BUFFER ?r (?q AND r_mask ?r)) (unat sz)),
            PopRet (ssize_of ?q)])"
        by (rule consumer_copy_alone) (simp_all add: memcpy_out_0)
      moreover have "?s\<lparr>s_ring := x, c_pc := CIdle\<rparr> = s\<lparr>s_ring := x, c_tls := l\<rparr>" for x
        using pc by (cases s) simp
      ultimately show ?thesis by (simp only: diff_zero) simp
    qed
  qed (simp add: pc)
  have call: "exec spsc_step s (CallPop sz # replicate (unat sz + 3) StepC) =
      exec spsc_step ?s0 (replicate (unat sz + 3) StepC)"
    by (rule exec_Cons_None) (simp add: pc False)
  show ?thesis
  proof (cases "local_head ?t = ?q")
    case quick: False
    have "exec spsc_step ?s0 (replicate (unat sz + 3) StepC) =
        exec spsc_step (s\<lparr>c_tls := ?t, c_pc := CCopy sz ?q []\<rparr>) (replicate (unat sz + 2) StepC)"
      using exec_Cons_None [of spsc_step ?s0 StepC "s\<lparr>c_tls := ?t, c_pc := CCopy sz ?q []\<rparr>"
          "replicate (unat sz + 2) StepC"] quick
      by (simp add: spsc_consumer_step_def eval_nat_numeral)
    then show ?thesis
      using pop call False quick copy [of "unat sz + 2" ?t] by (auto simp: Pop_SpscRingBuf_def Let_def)
  next
    case slow: True
    let ?s1 = "s\<lparr>c_pc := CLoadHead sz ?q\<rparr>"
    have "exec spsc_step ?s0 (replicate (unat sz + 3) StepC) =
        exec spsc_step ?s1 (replicate (unat sz + 2) StepC)"
      using exec_Cons_None [of spsc_step ?s0 StepC ?s1 "replicate (unat sz + 2) StepC"] slow
      by (simp add: spsc_consumer_step_def eval_nat_numeral)
    moreover have "exec spsc_step ?s1 (replicate (unat sz + 2) StepC) =
        (if local_head ?l = ?q then (s\<lparr>c_tls := ?l\<rparr>, [PopRet RINGBUF_EMPTY])
         else exec spsc_step (s\<lparr>c_tls := ?l, c_pc := CCopy sz ?q []\<rparr>) (replicate (unat sz + 1) StepC))"
      using pc by (simp add: spsc_consumer_step_def exec_idle Let_def)
    ultimately show ?thesis
      using pop call False slow copy [of "unat sz + 1" ?l] by (auto simp: Pop_SpscRingBuf_def Let_def)
  qed
qed

lemma producer_step_geom: "spsc_producer_step s = (s', e) \<Longrightarrow> geom (s_ring s') = geom (s_ring s)"
  by (cases "p_pc s") (auto simp: spsc_producer_step_def Let_def split: if_splits)

lemma consumer_step_geom: "spsc_consumer_step s = (s', e) \<Longrightarrow> geom (s_ring s') = geom (s_ring s)"
  by (cases "c_pc s") (auto simp: spsc_consumer_step_def Let_def split: if_splits)

lemma spsc_step_geom: "spsc_step s a = (s', e) \<Longrightarrow> geom (s_ring s') = geom (s_ring s)"
  by (cases a) (auto split: if_splits dest: producer_step_geom consumer_step_geom)

lemma spsc_fresh_inv:
  assumes "good_capacity n" "layout_fits n sz"
    and "r = init_ring r0 (get_total_size n sz NO_SLOT) n m fd NO_SLOT"
    and run: "exec spsc_step (spsc_start r) as = (s, h)"
  shows "spsc_inv h s" and "geom (s_ring s) = geom r"
proof -
  have "ring_wf r"
    unfolding assms(3) by (rule init_ring_wf [OF assms(1,2)]) (simp add: slot_mode_def)
  then have start: "spsc_inv [] (spsc_start r)"
    by (rule spsc_inv_start) (simp_all add: assms(3))
  show "spsc_inv h s" by (rule spsc_conc.inv_run [OF start run]) simp
  show "geom (s_ring s) = geom r"
    using exec_invariant [of spsc_step "\<lambda>s. geom (s_ring s)", OF spsc_step_geom run]
    by (simp add: spsc_start_def)
qed


section \<open>Properties\<close>

text \<open>What the invariant says of the objects pushed and popped so far.\<close>

lemma spsc_concurrent_fifo:
  assumes "good_capacity n" "layout_fits n sz"
    and "r = init_ring r0 (get_total_size n sz NO_SLOT) n m fd NO_SLOT"
    and "exec spsc_step (spsc_start r) as = (s, h)"
  shows "length (gets h) \<le> length (puts h) \<and> length (puts h) \<le> length (gets h) + unat n \<and>
    list_all2 agree (take (length (gets h)) (puts h)) (gets h) \<and>
    ((\<forall>v \<in> set (puts h) \<union> set (gets h). length v = k) \<longrightarrow>
       gets h = take (length (gets h)) (puts h))"
proof -
  note inv = spsc_fresh_inv [OF assms]
  obtain LT LH where at: "spsc_inv_at (puts h) (gets h) LT LH s"
    using inv(1) by (auto simp: spsc_inv_def)
  have "cap (s_ring s) = unat n" using geom_eqD(6) [OF inv(2)] by (simp add: assms(3))
  with at have order: "length (gets h) \<le> length (puts h)" "length (puts h) \<le> length (gets h) + unat n"
    and rel: "list_all2 agree (take (length (gets h)) (puts h)) (gets h)"
    by (auto simp: spsc_inv_at_def positions_inv_def contents_inv_def)
  have "gets h = take (length (gets h)) (puts h)"
    if same: "\<forall>v \<in> set (puts h) \<union> set (gets h). length v = k"
  proof (rule nth_equalityI)
    fix i assume i: "i < length (gets h)"
    with rel order(1) have "agree (puts h ! i) (gets h ! i)" by (auto simp: list_all2_conv_all_nth)
    moreover have "length (puts h ! i) = length (gets h ! i)" using same i order(1) by simp
    ultimately show "gets h ! i = take (length (gets h)) (puts h) ! i"
      using i by (simp add: agree_same_length)
  qed (use order(1) in simp)
  with order rel show ?thesis by blast
qed

text \<open>The two threads never touch the same slot at the same time: whenever the producer is
  inside its copy and the consumer inside its own, the elements they copy are different ones,
  under every schedule.\<close>

lemma spsc_copies_disjoint:
  assumes "good_capacity n" "layout_fits n sz"
    and "r = init_ring r0 (get_total_size n sz NO_SLOT) n m fd NO_SLOT"
    and "exec spsc_step (spsc_start r) as = (s, h)"
    and "p_pc s = PCopy args psz ch i" "c_pc s = CCopy csz ct buf"
  shows "ch AND r_mask (s_ring s) \<noteq> ct AND r_mask (s_ring s)"
proof -
  obtain LT LH where at: "spsc_inv_at (puts h) (gets h) LT LH s"
    using spsc_fresh_inv(1) [OF assms(1-4)] by (auto simp: spsc_inv_def)
  let ?P = "puts h" and ?Q = "gets h"
  have pos: "positions_inv (s_ring s) ?P ?Q LT LH" and ch: "ch = of_nat (length ?P)"
    and room: "length ?P < LT + cap (s_ring s)" and ct: "ct = of_nat (length ?Q)" and "length ?Q < LH"
    using at assms(5,6) by (simp_all add: spsc_inv_at_def)
  then have wf: "ring_wf (s_ring s)" and "length ?Q < length ?P" by (simp_all add: positions_inv_def)
  with slots_distinct [OF pos room order_refl] have "length ?Q mod cap (s_ring s) \<noteq> length ?P mod cap (s_ring s)"
    by simp
  then show ?thesis
    by (simp add: ch ct word_unat_eq_iff unat_ticket_index [OF wf])
qed

lemma spsc_copies_disjoint_example:
  "(0::size_t) AND 1 \<noteq> 1 AND 1"
proof -
  let ?as = "[CallPush (\<lambda>i. 5) 1, StepP, StepP, StepP, CallPush (\<lambda>i. 5) 1, StepP, CallPop 1, StepC, StepC]"
  let ?x = "exec spsc_step (spsc_start (make_ring 2 8 NO_SLOT)) ?as"
  have cap: "good_capacity 2" "layout_fits 2 8"
    by (simp_all add: good_capacity_def layout_fits_def align_nat_def)
  have "(case p_pc (fst ?x) of PCopy a z ch i \<Rightarrow> ch = 1 | _ \<Rightarrow> False)"
    "c_pc (fst ?x) = CCopy 1 0 []" "r_mask (s_ring (fst ?x)) = 1"
    by code_simp+
  then obtain a z i where "p_pc (fst ?x) = PCopy a z 1 i" by (auto split: spsc_ppc.splits)
  from spsc_copies_disjoint [OF cap make_ring_def surjective_pairing this \<open>c_pc _ = _\<close>]
  show ?thesis by (simp add: \<open>r_mask _ = _\<close>)
qed


lemma full_reported:
  assumes at: "spsc_inv_at P Q LT LH s" and small: "length P < 2 ^ 63"
    and step: "spsc_producer_step s = (s', e)" and ev: "PushRet RINGBUF_FULL \<in> set e"
  shows "length P = length Q + cap (s_ring s)"
proof -
  have pos: "positions_inv (s_ring s) P Q LT LH" using at by (simp add: spsc_inv_at_def)
  have nonneg: "ssize_of (of_nat (length P)) \<noteq> RINGBUF_FULL"
    using small ssize_of_small [of "of_nat (length P)"] by (simp add: err_codes unat_of_nat64)
  show ?thesis
  proof (cases "p_pc s")
    case (PLoadTail args sz ch)
    then have "r_objNum (s_ring s) \<le> r_head (s_ring s) - r_tail (s_ring s)"
      using at step ev by (auto simp: spsc_inv_at_def positions_inv_def spsc_producer_step_def Let_def
          split: if_splits)
    then show ?thesis using positions_diff(2) [OF pos] pos by (auto simp: full_iff positions_inv_def)
  next
    case (PCopy args sz ch i)
    then show ?thesis
      using at step ev nonneg by (auto simp: spsc_inv_at_def spsc_producer_step_def Let_def split: if_splits)
  qed (use step ev in \<open>auto simp: spsc_producer_step_def Let_def split: if_splits\<close>)
qed

lemma empty_reported:
  assumes at: "spsc_inv_at P Q LT LH s" and small: "length P < 2 ^ 63"
    and step: "spsc_consumer_step s = (s', e)" and ev: "PopRet RINGBUF_EMPTY \<in> set e"
  shows "length P = length Q"
proof -
  have pos: "positions_inv (s_ring s) P Q LT LH" using at by (simp add: spsc_inv_at_def)
  then have "length Q < 2 ^ 63" using small by (simp add: positions_inv_def)
  then have nonneg: "ssize_of (of_nat (length Q)) \<noteq> RINGBUF_EMPTY"
    using ssize_of_small [of "of_nat (length Q)"] by (simp add: err_codes unat_of_nat64)
  show ?thesis
  proof (cases "c_pc s")
    case (CLoadHead sz ct)
    then have "r_head (s_ring s) = r_tail (s_ring s)"
      using at step ev by (auto simp: spsc_inv_at_def positions_inv_def spsc_consumer_step_def Let_def
          split: if_splits)
    then show ?thesis using positions_diff(4) [OF pos] by simp
  next
    case (CCopy sz ct buf)
    then show ?thesis
      using at step ev nonneg by (auto simp: spsc_inv_at_def spsc_consumer_step_def Let_def split: if_splits)
  qed (use step ev in \<open>auto simp: spsc_consumer_step_def Let_def split: if_splits\<close>)
qed

text \<open>
  What a history means to a queue: objects going in and out, and the two refusals. A size error
  is no event of the queue.
\<close>

fun spsc_queue :: "spsc_event list \<Rightarrow> queue_event list" where
  "spsc_queue [] = []"
| "spsc_queue (PutE v # es) = Enqueue v # spsc_queue es"
| "spsc_queue (GetE v # es) = Dequeue v # spsc_queue es"
| "spsc_queue (PushRet rc # es) = (if rc = RINGBUF_FULL then [Refuse_full] else []) @ spsc_queue es"
| "spsc_queue (PopRet rc # es) = (if rc = RINGBUF_EMPTY then [Refuse_empty] else []) @ spsc_queue es"

lemma spsc_queue_append: "spsc_queue (h @ e) = spsc_queue h @ spsc_queue e"
  by (induction h rule: spsc_queue.induct) simp_all

lemma spsc_queue_sides [simp]: "enqueued (spsc_queue h) = puts h" "dequeued (spsc_queue h) = gets h"
  by (induction h rule: spsc_queue.induct) simp_all

lemma spsc_queue_refusals:
  "Refuse_full \<in> set (spsc_queue h) \<longleftrightarrow> PushRet RINGBUF_FULL \<in> set h"
  "Refuse_empty \<in> set (spsc_queue h) \<longleftrightarrow> PopRet RINGBUF_EMPTY \<in> set h"
  by (induction h rule: spsc_queue.induct) auto

lemma spsc_one_event:
  assumes at: "spsc_inv_at P Q LT LH s" and small: "length P < 2 ^ 63" and step: "spsc_step s a = (s', e)"
  shows "length (spsc_queue e) \<le> 1"
proof -
  have "length Q < 2 ^ 63" using at small by (simp add: spsc_inv_at_def positions_inv_def)
  then have pos: "ssize_of (of_nat (length P)) \<noteq> RINGBUF_FULL" "ssize_of (of_nat (length Q)) \<noteq> RINGBUF_EMPTY"
    using small ssize_of_small [of "of_nat (length P)"] ssize_of_small [of "of_nat (length Q)"]
    by (simp_all add: err_codes unat_of_nat64)
  show ?thesis
  proof (cases a)
    case StepP
    then show ?thesis using step at pos
      by (cases "p_pc s") (auto simp: spsc_producer_step_def spsc_inv_at_def Let_def split: if_splits)
  next
    case StepC
    then show ?thesis using step at pos
      by (cases "c_pc s") (auto simp: spsc_consumer_step_def spsc_inv_at_def Let_def split: if_splits)
  qed (use step in \<open>auto split: if_splits\<close>)
qed

lemma spsc_refusals:
  assumes at: "spsc_inv_at P Q LT LH s" and small: "length P < 2 ^ 63" and step: "spsc_step s a = (s', e)"
  shows "(PushRet RINGBUF_FULL \<in> set e \<longrightarrow> length P = length Q + cap (s_ring s)) \<and>
    (PopRet RINGBUF_EMPTY \<in> set e \<longrightarrow> length P = length Q)"
proof -
  have other: "PopRet rc \<notin> set e" if "spsc_producer_step s = (s', e)" for rc
    using that by (cases "p_pc s") (auto simp: spsc_producer_step_def Let_def split: if_splits)
  have other': "PushRet rc \<notin> set e" if "spsc_consumer_step s = (s', e)" for rc
    using that by (cases "c_pc s") (auto simp: spsc_consumer_step_def Let_def split: if_splits)
  show ?thesis
  proof (cases a)
    case StepP
    with step have "spsc_producer_step s = (s', e)" by simp
    with full_reported [OF at small this] other show ?thesis by auto
  next
    case StepC
    with step have "spsc_consumer_step s = (s', e)" by simp
    with empty_reported [OF at small this] other' show ?thesis by auto
  qed (use step in \<open>auto simp: err_codes split: if_splits\<close>)
qed

interpretation spsc_fifo: queue_history spsc_step "\<lambda>h s. spsc_inv h s \<and> cap (s_ring s) = N"
  "\<lambda>h. length (puts h) < 2 ^ 63" N spsc_queue for N
proof
  fix h e :: "spsc_event list" and s a s'
  assume inv: "spsc_inv h s \<and> cap (s_ring s) = N"
  then obtain LT LH where at: "spsc_inv_at (puts h) (gets h) LT LH s" by (auto simp: spsc_inv_def)
  show "fifo_counts N (spsc_queue h)"
    using at inv by (simp add: fifo_counts_def spsc_inv_at_def positions_inv_def contents_inv_def)
  assume step: "spsc_step s a = (s', e)" and guard: "length (puts (h @ e)) < 2 ^ 63"
  then have small: "length (puts h) < 2 ^ 63" by simp
  show "length (spsc_queue e) \<le> 1" by (rule spsc_one_event [OF at small step])
  show "spsc_inv (h @ e) s' \<and> cap (s_ring s') = N"
    using inv spsc_inv_step [OF _ step] geom_eqD(6) [OF spsc_step_geom [OF step]] by simp
  show "(Refuse_full \<in> set (spsc_queue e) \<longrightarrow>
        length (enqueued (spsc_queue h)) = length (dequeued (spsc_queue h)) + N) \<and>
      (Refuse_empty \<in> set (spsc_queue e) \<longrightarrow>
        length (enqueued (spsc_queue h)) = length (dequeued (spsc_queue h)))"
    using spsc_refusals [OF at small step] inv by (simp add: spsc_queue_refusals)
qed (simp_all add: spsc_queue_append)

text \<open>Without the refusals no bound on the positions is needed.\<close>

lemma spsc_one_move:
  assumes "spsc_step s a = (s', e)"
  shows "length (filter moves (spsc_queue e)) \<le> 1"
proof (cases a)
  case StepP
  then show ?thesis using assms
    by (cases "p_pc s") (auto simp: spsc_producer_step_def Let_def split: if_splits)
next
  case StepC
  then show ?thesis using assms
    by (cases "c_pc s") (auto simp: spsc_consumer_step_def Let_def split: if_splits)
qed (use assms in \<open>auto split: if_splits\<close>)

interpretation spsc_moves: queue_history spsc_step "\<lambda>h s. spsc_inv h s \<and> cap (s_ring s) = N"
  "\<lambda>_. True" N "\<lambda>h. filter moves (spsc_queue h)" for N
proof
  fix h e :: "spsc_event list" and s a s'
  assume inv: "spsc_inv h s \<and> cap (s_ring s) = N"
  then obtain LT LH where at: "spsc_inv_at (puts h) (gets h) LT LH s" by (auto simp: spsc_inv_def)
  show "fifo_counts N (filter moves (spsc_queue h))"
    using at inv by (simp add: fifo_counts_def spsc_inv_at_def positions_inv_def contents_inv_def)
  assume step: "spsc_step s a = (s', e)"
  show "length (filter moves (spsc_queue e)) \<le> 1" by (rule spsc_one_move [OF step])
  show "spsc_inv (h @ e) s' \<and> cap (s_ring s') = N"
    using inv spsc_inv_step [OF _ step] geom_eqD(6) [OF spsc_step_geom [OF step]] by simp
qed (simp_all add: spsc_queue_append)

text \<open>C1: The SPSC ring is linearizable: under every schedule the history of the two threads is one
  of a bounded queue used by a single thread. Each push that succeeds appends and each pop that
  succeeds removes the oldest object at an instant inside the operation, for ever, with the
  positions wrapping around. Below \<open>2 ^ 63\<close> pushes, where a returned position cannot be mistaken
  for an error code, the refusals are explained too: a push that returns \<^verbatim>\<open>RINGBUF_FULL\<close> does so at
  an instant at which the queue is full, and a pop that returns \<^verbatim>\<open>RINGBUF_EMPTY\<close> at one at which it
  is empty, although both may have looked at a cached position first. When all transfers have
  the same size, what comes out is exactly a prefix of what went in.\<close>

theorem spsc_linearizable:
  assumes "good_capacity n" "layout_fits n sz"
    and "r = init_ring r0 (get_total_size n sz NO_SLOT) n m fd NO_SLOT"
    and "exec spsc_step (spsc_start r) as = (s, h)"
  shows "queue_run (unat n) [] (filter moves (spsc_queue h)) = Some (drop (length (gets h)) (puts h)) \<and>
    (length (puts h) < 2 ^ 63 \<longrightarrow>
       queue_run (unat n) [] (spsc_queue h) = Some (drop (length (gets h)) (puts h))) \<and>
    ((\<forall>v \<in> set (puts h) \<union> set (gets h). length v = k) \<longrightarrow> gets h = take (length (gets h)) (puts h))"
proof -
  have start: "spsc_inv [] (spsc_start r) \<and> cap (s_ring (spsc_start r)) = unat n"
    using spsc_fresh_inv(1) [OF assms(1-3), of "[]"] by (simp add: assms(3) spsc_start_def)
  show ?thesis
    using spsc_moves.explained_run [OF start assms(4)] spsc_fifo.explained_run [OF start assms(4)]
      spsc_concurrent_fifo [OF assms, of k]
    by (simp add: explained_def)
qed

theorem spsc_linearizable_witness:
  "(let h = snd (exec spsc_step (spsc_start (make_ring 2 8 NO_SLOT))
      ([CallPop 1, StepC, CallPush (\<lambda>i. 5) 1] @ replicate 2 StepP @ [StepC, StepP, CallPop 1, StepC]))
    in spsc_queue h = [Refuse_empty, Enqueue [5]] \<and> queue_run 2 [] (spsc_queue h) = Some [[5]])"
proof -
  let ?x = "exec spsc_step (spsc_start (make_ring 2 8 NO_SLOT))
      ([CallPop 1, StepC, CallPush (\<lambda>i. 5) 1] @ replicate 2 StepP @ [StepC, StepP, CallPop 1, StepC])"
  have cap: "good_capacity 2" "layout_fits 2 8"
    by (simp_all add: good_capacity_def layout_fits_def align_nat_def)
  have h: "spsc_queue (snd ?x) = [Refuse_empty, Enqueue [5]]" "puts (snd ?x) = [[5]]" "gets (snd ?x) = []"
    "unat (2 :: size_t) = 2"
    by code_simp+
  then have few: "length (puts (snd ?x)) < 2 ^ 63" by (simp only: h) simp
  have "queue_run (unat (2::size_t)) [] (spsc_queue (snd ?x)) = Some (drop (length (gets (snd ?x))) (puts (snd ?x)))"
    using spsc_linearizable [OF cap make_ring_def surjective_pairing, where k = 0] few by blast
  then show ?thesis unfolding Let_def h(2-4) by (simp only: h(1) list.size drop_0 simp_thms)
qed

text \<open>Both operations are wait-free: whatever the other thread does in between, a push or
  pop of \<open>size\<close> bytes has returned once its own thread has made \<open>size + 3\<close> accesses.\<close>

lemma spsc_wait_free:
  "(p_pc s = PIdle \<longrightarrow> unat sz + 3 \<le> length (filter (spsc_own True) as) \<longrightarrow>
     (\<exists>rc. PushRet rc \<in> set (snd (exec spsc_step s (CallPush args sz # as))))) \<and>
   (c_pc s = CIdle \<longrightarrow> unat sz + 3 \<le> length (filter (spsc_own False) as) \<longrightarrow>
     (\<exists>rc. PopRet rc \<in> set (snd (exec spsc_step s (CallPop sz # as)))))"
proof (intro conjI impI)
  assume pc: "p_pc s = PIdle" and n: "unat sz + 3 \<le> length (filter (spsc_own True) as)"
  let ?s = "s\<lparr>p_pc := PLoadHead args sz\<rparr>"
  show "\<exists>rc. PushRet rc \<in> set (snd (exec spsc_step s (CallPush args sz # as)))"
  proof (cases "r_objSize (s_ring s) < sz")
    case False
    have "spsc_returned True (snd (exec spsc_step ?s as))"
      by (rule spsc_ops.returns_within_work [of True ?s as "fst (exec spsc_step ?s as)"])
        (use n in simp_all)
    then show ?thesis using False pc by (auto simp: split_beta Let_def)
  qed (auto simp: pc split_beta Let_def)
next
  assume pc: "c_pc s = CIdle" and n: "unat sz + 3 \<le> length (filter (spsc_own False) as)"
  let ?s = "s\<lparr>c_pc := CLoadTail sz\<rparr>"
  show "\<exists>rc. PopRet rc \<in> set (snd (exec spsc_step s (CallPop sz # as)))"
  proof (cases "r_objSize (s_ring s) < sz")
    case False
    have "spsc_returned False (snd (exec spsc_step ?s as))"
      by (rule spsc_ops.returns_within_work [of False ?s as "fst (exec spsc_step ?s as)"])
        (use n in simp_all)
    then show ?thesis using False pc by (auto simp: split_beta Let_def)
  qed (auto simp: pc split_beta Let_def)
qed

text \<open>C30: The interleaving model is the sequential one cut into its accesses: an operation whose
  thread runs undisturbed for \<open>size + 3\<close> accesses leaves exactly the state, and returns exactly
  the code, of \<^verbatim>\<open>Push_SpscRingBuf\<close> or \<^verbatim>\<open>Pop_SpscRingBuf\<close>.\<close>

theorem spsc_steps_implement:
  assumes "p_pc s = PIdle" "c_pc s = CIdle"
    and "Push_SpscRingBuf (p_tls s) (s_ring s) args sz = (prc, pl, pr)"
    and "Pop_SpscRingBuf (c_tls s) (s_ring s) sz = (crc, buf, cl, cr)"
  shows "(\<exists>e. exec spsc_step s (CallPush args sz # replicate (unat sz + 3) StepP) =
      (s\<lparr>s_ring := pr, p_tls := pl\<rparr>, e @ [PushRet prc])) \<and>
    exec spsc_step s (CallPop sz # replicate (unat sz + 3) StepC) =
      (s\<lparr>s_ring := cr, c_tls := cl\<rparr>, (case buf of None \<Rightarrow> [] | Some b \<Rightarrow> [GetE b]) @ [PopRet crc])"
  using producer_alone [OF assms(1,3)] consumer_alone [OF assms(2,4)] by blast

theorem spsc_steps_implement_witness:
  "snd (exec spsc_step (spsc_start (make_ring 2 8 NO_SLOT)) (CallPop 1 # replicate 4 StepC))
     = [PopRet RINGBUF_EMPTY]"
proof -
  let ?s = "spsc_start (make_ring 2 8 NO_SLOT)"
  obtain prc pl pr where push: "Push_SpscRingBuf (p_tls ?s) (s_ring ?s) (\<lambda>i. 0) 1 = (prc, pl, pr)"
    by (metis prod_cases3)
  obtain rc buf l r where pop: "Pop_SpscRingBuf (c_tls ?s) (s_ring ?s) 1 = (rc, buf, l, r)"
    by (metis prod_cases4)
  have "fst (Pop_SpscRingBuf (c_tls ?s) (s_ring ?s) 1) = RINGBUF_EMPTY"
    "fst (snd (Pop_SpscRingBuf (c_tls ?s) (s_ring ?s) 1)) = None" by code_simp+
  then have "rc = RINGBUF_EMPTY" "buf = None" by (simp_all only: pop fst_conv snd_conv)
  moreover have "p_pc ?s = PIdle" "c_pc ?s = CIdle" by (simp_all add: spsc_start_def)
  ultimately show ?thesis
    using spsc_steps_implement [OF _ _ push pop] by (simp add: eval_nat_numeral)
qed

end
