(* ===== verification/RB_Spsc_Slots.thy ===== *)
theory RB_Spsc_Slots
  imports RB_Spsc_Conc
begin

text \<open>
  The whole interface of the SPSC ring under concurrency: besides \<^verbatim>\<open>Push\<close> and \<^verbatim>\<open>Pop\<close> (the steps of
  \<^verbatim>\<open>RB_Spsc_Conc\<close>) the slots handed out by \<^verbatim>\<open>Begin_push_SpscRingBuf\<close> and \<^verbatim>\<open>Begin_pop_SpscRingBuf\<close>,
  which the client fills and reads byte by byte through the pointer until the matching \<open>End\<close>
  call, and the observers \<^verbatim>\<open>Is_empty_SpscRingBuf\<close>, \<^verbatim>\<open>Is_full_SpscRingBuf\<close> and
  \<^verbatim>\<open>Size_SpscRingBuf\<close>, which any thread may call at any time. Every call is cut at its accesses
  to shared memory.
\<close>

section \<open>The system\<close>

text \<open>The producer between, or inside, \<^verbatim>\<open>Begin_push_SpscRingBuf\<close> and \<^verbatim>\<open>End_push_SpscRingBuf\<close>.\<close>

datatype push_slot =
    ZIdle
  | ZLoadHead
  | ZLoadTail size_t
  | ZHold size_t
  | ZEndLoad
  | ZEndStore size_t

text \<open>The consumer between, or inside, \<^verbatim>\<open>Begin_pop_SpscRingBuf\<close> and \<^verbatim>\<open>End_pop_SpscRingBuf\<close>.\<close>

datatype pop_slot =
    YIdle
  | YLoadTail
  | YLoadHead size_t
  | YHold size_t
  | YEndLoad
  | YEndStore size_t

text \<open>
  A thread inside an observer. The three observers make the same two loads and differ in what they
  compute from them. Thread 0 is the producer, thread 1 the consumer, the others only observe.
\<close>

datatype look_pc = LIdle | LHead | LTail size_t

record slots_sys =
  core :: spsc_sys
  push_slot :: push_slot
  pop_slot :: pop_slot
  looks :: "nat \<Rightarrow> look_pc"

datatype slots_action =
    Op spsc_action
  | BeginPush | StepPush | WriteSlot nat byte | EndPush | DropPush
  | BeginPop | StepPop | ReadSlot nat | EndPop | DropPop
  | Look nat | StepLook nat

text \<open>
  Events: one of \<open>Push\<close> and \<open>Pop\<close>; what a \<open>Begin\<close> call returned; a byte read through the
  consumer's pointer; an observer has loaded the head; an observer has returned, with what it
  loaded. An \<open>End\<close> call is the event of a push or a pop of the whole element.
\<close>

datatype slots_event =
    Core spsc_event
  | Begin_push_ret "size_t option"
  | Begin_pop_ret "size_t option"
  | Peek nat byte
  | Looked nat
  | Seen nat size_t size_t

definition set_ring :: "ring \<Rightarrow> slots_sys \<Rightarrow> slots_sys" where
  "set_ring r s = s\<lparr>core := (core s)\<lparr>s_ring := r\<rparr>\<rparr>"

text \<open>A thread makes one call at a time.\<close>

definition producer_free :: "slots_sys \<Rightarrow> bool" where
  "producer_free s \<longleftrightarrow> p_idle (p_pc (core s)) \<and> looks s 0 = LIdle"

definition consumer_free :: "slots_sys \<Rightarrow> bool" where
  "consumer_free s \<longleftrightarrow> c_idle (c_pc (core s)) \<and> looks s 1 = LIdle"

lemma producer_free_iff: "producer_free s \<longleftrightarrow> p_pc (core s) = PIdle \<and> looks s 0 = LIdle"
  by (cases "p_pc (core s)") (simp_all add: producer_free_def)

lemma consumer_free_iff: "consumer_free s \<longleftrightarrow> c_pc (core s) = CIdle \<and> looks s 1 = LIdle"
  by (cases "c_pc (core s)") (simp_all add: consumer_free_def)

fun push_quiet :: "push_slot \<Rightarrow> bool" where
  "push_quiet ZIdle = True" | "push_quiet (ZHold p) = True" | "push_quiet _ = False"

fun pop_quiet :: "pop_slot \<Rightarrow> bool" where
  "pop_quiet YIdle = True" | "pop_quiet (YHold p) = True" | "pop_quiet _ = False"

text \<open>The next access of \<^verbatim>\<open>Begin_push_SpscRingBuf\<close> or \<^verbatim>\<open>End_push_SpscRingBuf\<close>.\<close>

definition push_slot_step :: "slots_sys \<Rightarrow> slots_sys \<times> slots_event list" where
  "push_slot_step s =
     (let r = s_ring (core s); l = p_tls (core s) in
      case push_slot s of
        ZLoadHead \<Rightarrow>
          (let curr_head = r_head r in
           if r_objNum r \<le> curr_head - local_tail l
           then (s\<lparr>push_slot := ZLoadTail curr_head\<rparr>, [])
           else (let p = GET_BUFFER r (curr_head AND r_mask r)
                 in (s\<lparr>push_slot := ZHold p\<rparr>, [Begin_push_ret (Some p)])))
      | ZLoadTail curr_head \<Rightarrow>
          (let l' = l\<lparr>local_tail := r_tail r\<rparr>;
               s' = s\<lparr>core := (core s)\<lparr>p_tls := l'\<rparr>\<rparr> in
           if r_objNum r \<le> curr_head - local_tail l'
           then (s'\<lparr>push_slot := ZIdle\<rparr>, [Begin_push_ret None])
           else (let p = GET_BUFFER r (curr_head AND r_mask r)
                 in (s'\<lparr>push_slot := ZHold p\<rparr>, [Begin_push_ret (Some p)])))
      | ZEndLoad \<Rightarrow> (s\<lparr>push_slot := ZEndStore (r_head r)\<rparr>, [])
      | ZEndStore curr_head \<Rightarrow>
          ((set_ring (r\<lparr>r_head := curr_head + 1\<rparr>) s)\<lparr>push_slot := ZIdle\<rparr>,
           [Core (PutE (elem r curr_head))])
      | _ \<Rightarrow> (s, []))"

text \<open>The next access of \<^verbatim>\<open>Begin_pop_SpscRingBuf\<close> or \<^verbatim>\<open>End_pop_SpscRingBuf\<close>.\<close>

definition pop_slot_step :: "slots_sys \<Rightarrow> slots_sys \<times> slots_event list" where
  "pop_slot_step s =
     (let r = s_ring (core s); l = c_tls (core s) in
      case pop_slot s of
        YLoadTail \<Rightarrow>
          (let curr_tail = r_tail r in
           if local_head l = curr_tail
           then (s\<lparr>pop_slot := YLoadHead curr_tail\<rparr>, [])
           else (let p = GET_BUFFER r (curr_tail AND r_mask r)
                 in (s\<lparr>pop_slot := YHold p\<rparr>, [Begin_pop_ret (Some p)])))
      | YLoadHead curr_tail \<Rightarrow>
          (let l' = l\<lparr>local_head := r_head r\<rparr>;
               s' = s\<lparr>core := (core s)\<lparr>c_tls := l'\<rparr>\<rparr> in
           if local_head l' = curr_tail
           then (s'\<lparr>pop_slot := YIdle\<rparr>, [Begin_pop_ret None])
           else (let p = GET_BUFFER r (curr_tail AND r_mask r)
                 in (s'\<lparr>pop_slot := YHold p\<rparr>, [Begin_pop_ret (Some p)])))
      | YEndLoad \<Rightarrow> (s\<lparr>pop_slot := YEndStore (r_tail r)\<rparr>, [])
      | YEndStore curr_tail \<Rightarrow>
          ((set_ring (r\<lparr>r_tail := curr_tail + 1\<rparr>) s)\<lparr>pop_slot := YIdle\<rparr>,
           [Core (GetE (elem r curr_tail))])
      | _ \<Rightarrow> (s, []))"

text \<open>The next access of an observer: the head first, then the tail.\<close>

definition look_step :: "slots_sys \<Rightarrow> nat \<Rightarrow> slots_sys \<times> slots_event list" where
  "look_step s t =
     (let r = s_ring (core s) in
      case looks s t of
        LIdle \<Rightarrow> (s, [])
      | LHead \<Rightarrow> (s\<lparr>looks := (looks s)(t := LTail (r_head r))\<rparr>, [Looked t])
      | LTail curr_head \<Rightarrow> (s\<lparr>looks := (looks s)(t := LIdle)\<rparr>, [Seen t curr_head (r_tail r)]))"

definition op_step :: "slots_sys \<Rightarrow> spsc_action \<Rightarrow> slots_sys \<times> slots_event list" where
  "op_step s a = (let (c, e) = spsc_step (core s) a in (s\<lparr>core := c\<rparr>, map Core e))"

text \<open>
  \<open>WriteSlot\<close> and \<open>ReadSlot\<close> are the client's accesses through the pointer it was handed;
  \<open>DropPush\<close> and \<open>DropPop\<close> give a slot up without the \<open>End\<close> call. A thread that holds a slot does
  not call \<open>Push\<close> or \<open>Pop\<close>.
\<close>

fun slots_step :: "slots_sys \<Rightarrow> slots_action \<Rightarrow> slots_sys \<times> slots_event list" where
  "slots_step s (Op (CallPush args sz)) =
     (if producer_free s \<and> push_slot s = ZIdle then op_step s (CallPush args sz) else (s, []))"
| "slots_step s (Op (CallPop sz)) =
     (if consumer_free s \<and> pop_slot s = YIdle then op_step s (CallPop sz) else (s, []))"
| "slots_step s (Op a) = op_step s a"
| "slots_step s BeginPush =
     (if producer_free s \<and> push_slot s = ZIdle then (s\<lparr>push_slot := ZLoadHead\<rparr>, []) else (s, []))"
| "slots_step s StepPush = push_slot_step s"
| "slots_step s (WriteSlot i b) =
     (case push_slot s of
        ZHold p \<Rightarrow>
          if producer_free s \<and> i < osz (s_ring (core s))
          then (set_ring (write_byte (s_ring (core s)) (p + of_nat i) b) s, []) else (s, [])
      | _ \<Rightarrow> (s, []))"
| "slots_step s EndPush =
     (case push_slot s of
        ZHold p \<Rightarrow> if producer_free s then (s\<lparr>push_slot := ZEndLoad\<rparr>, []) else (s, [])
      | _ \<Rightarrow> (s, []))"
| "slots_step s DropPush =
     (case push_slot s of
        ZHold p \<Rightarrow> if producer_free s then (s\<lparr>push_slot := ZIdle\<rparr>, []) else (s, [])
      | _ \<Rightarrow> (s, []))"
| "slots_step s BeginPop =
     (if consumer_free s \<and> pop_slot s = YIdle then (s\<lparr>pop_slot := YLoadTail\<rparr>, []) else (s, []))"
| "slots_step s StepPop = pop_slot_step s"
| "slots_step s (ReadSlot i) =
     (case pop_slot s of
        YHold p \<Rightarrow>
          if consumer_free s \<and> i < osz (s_ring (core s))
          then (s, [Peek i (bytes (s_ring (core s)) (p + of_nat i))]) else (s, [])
      | _ \<Rightarrow> (s, []))"
| "slots_step s EndPop =
     (case pop_slot s of
        YHold p \<Rightarrow> if consumer_free s then (s\<lparr>pop_slot := YEndLoad\<rparr>, []) else (s, [])
      | _ \<Rightarrow> (s, []))"
| "slots_step s DropPop =
     (case pop_slot s of
        YHold p \<Rightarrow> if consumer_free s then (s\<lparr>pop_slot := YIdle\<rparr>, []) else (s, [])
      | _ \<Rightarrow> (s, []))"
| "slots_step s (Look t) =
     (if looks s t = LIdle \<and> (t = 0 \<longrightarrow> producer_free s \<and> push_quiet (push_slot s)) \<and>
         (t = 1 \<longrightarrow> consumer_free s \<and> pop_quiet (pop_slot s))
      then (s\<lparr>looks := (looks s)(t := LHead)\<rparr>, []) else (s, []))"
| "slots_step s (StepLook t) = look_step s t"

definition slots_start :: "ring \<Rightarrow> slots_sys" where
  "slots_start r = \<lparr>core = spsc_start r, push_slot = ZIdle, pop_slot = YIdle, looks = (\<lambda>t. LIdle)\<rparr>"


section \<open>Histories\<close>

fun core_of :: "slots_event list \<Rightarrow> spsc_event list" where
  "core_of [] = []"
| "core_of (Core x # es) = x # core_of es"
| "core_of (_ # es) = core_of es"

lemma core_of_append [simp]: "core_of (h @ e) = core_of h @ core_of e"
  by (induction h rule: core_of.induct) simp_all

lemma core_of_Core [simp]: "core_of (map Core e) = e"
  by (induction e) simp_all

abbreviation sputs :: "slots_event list \<Rightarrow> byte list list" where
  "sputs h \<equiv> puts (core_of h)"

abbreviation sgets :: "slots_event list \<Rightarrow> byte list list" where
  "sgets h \<equiv> gets (core_of h)"

text \<open>The objects in the ring after a history.\<close>

definition queue_at :: "slots_event list \<Rightarrow> byte list list" where
  "queue_at h = drop (length (sgets h)) (sputs h)"

text \<open>A property of every event of a history, given what came before it.\<close>

fun every_event :: "('e list \<Rightarrow> 'e \<Rightarrow> bool) \<Rightarrow> 'e list \<Rightarrow> 'e list \<Rightarrow> bool" where
  "every_event Q h [] = True"
| "every_event Q h (x # xs) = (Q h x \<and> every_event Q (h @ [x]) xs)"

lemma every_event_append:
  "every_event Q h (xs @ ys) = (every_event Q h xs \<and> every_event Q (h @ xs) ys)"
  by (induction xs arbitrary: h) simp_all

text \<open>The history before the last occurrence of an event.\<close>

definition before_last :: "'e \<Rightarrow> 'e list \<Rightarrow> 'e list" where
  "before_last x h = rev (tl (dropWhile (\<lambda>y. y \<noteq> x) (rev h)))"

lemma before_last_append: "x \<notin> set e \<Longrightarrow> before_last x (h @ e) = before_last x h"
  unfolding before_last_def rev_append by (subst dropWhile_append2) auto

lemma before_last_snoc [simp]: "before_last x (h @ [x]) = h"
  by (simp add: before_last_def)

text \<open>
  What a bounded queue of \<open>cap r\<close> objects makes of each event: an object enters when there is
  room and leaves from the front, a refusal is the truth at its instant, a \<open>Begin\<close> call hands out
  the element at the queue's end or front, and the byte read through the consumer's pointer is the
  one of the object at the front. The code returned by \<open>Push\<close> or \<open>Pop\<close> can be read as a refusal
  only while positions are not negative.
\<close>

fun queue_legal :: "ring \<Rightarrow> slots_event list \<Rightarrow> slots_event \<Rightarrow> bool" where
  "queue_legal r h (Core (PutE v)) \<longleftrightarrow> length (queue_at h) < cap r"
| "queue_legal r h (Core (GetE v)) \<longleftrightarrow> queue_at h \<noteq> [] \<and> agree (hd (queue_at h)) v"
| "queue_legal r h (Core (PushRet rc)) \<longleftrightarrow>
     (rc = RINGBUF_FULL \<and> length (sputs h) < 2 ^ 63 \<longrightarrow> length (queue_at h) = cap r)"
| "queue_legal r h (Core (PopRet rc)) \<longleftrightarrow>
     (rc = RINGBUF_EMPTY \<and> length (sputs h) < 2 ^ 63 \<longrightarrow> queue_at h = [])"
| "queue_legal r h (Begin_push_ret None) \<longleftrightarrow> length (queue_at h) = cap r"
| "queue_legal r h (Begin_push_ret (Some p)) \<longleftrightarrow>
     length (queue_at h) < cap r \<and> p = elem_addr r (length (sputs h))"
| "queue_legal r h (Begin_pop_ret None) \<longleftrightarrow> queue_at h = []"
| "queue_legal r h (Begin_pop_ret (Some p)) \<longleftrightarrow>
     queue_at h \<noteq> [] \<and> p = elem_addr r (length (sgets h))"
| "queue_legal r h (Peek i b) \<longleftrightarrow>
     queue_at h \<noteq> [] \<and> (i < length (hd (queue_at h)) \<longrightarrow> b = hd (queue_at h) ! i)"
| "queue_legal r h _ \<longleftrightarrow> True"

text \<open>The three observers, computed from the loaded positions, report a queue of \<open>n\<close> objects.\<close>

definition reports :: "ring \<Rightarrow> size_t \<Rightarrow> size_t \<Rightarrow> nat \<Rightarrow> bool" where
  "reports r ch ct n \<longleftrightarrow>
     (let v = r\<lparr>r_head := ch, r_tail := ct\<rparr> in
      (Is_empty_SpscRingBuf v \<longleftrightarrow> n = 0) \<and> (Is_full_SpscRingBuf v \<longleftrightarrow> n = cap r) \<and>
      unat (Size_SpscRingBuf v) = n)"

text \<open>
  The producer sees the queue of the instant of its second load, the consumer the one of its first
  load. Any other thread gets a lower bound for both, unless the consumer has overtaken the head it
  loaded.
\<close>

fun seen_ok :: "ring \<Rightarrow> slots_event list \<Rightarrow> slots_event \<Rightarrow> bool" where
  "seen_ok r h (Seen t ch ct) \<longleftrightarrow>
     (let h1 = before_last (Looked t) h in
      if t = 0 then reports r ch ct (length (queue_at h))
      else if t = 1 then reports r ch ct (length (queue_at h1))
      else length (sgets h) \<le> length (sputs h1) \<longrightarrow>
        unat (Size_SpscRingBuf (r\<lparr>r_head := ch, r_tail := ct\<rparr>))
          \<le> min (length (queue_at h1)) (length (queue_at h)))"
| "seen_ok r h _ \<longleftrightarrow> True"

lemma reports_exact:
  assumes "ring_wf r" "q \<le> p" "p \<le> q + cap r"
  shows "reports r (of_nat p) (of_nat q) (p - q)"
proof -
  have "p - q < 2 ^ 64" using wf_cap_le [OF assms(1)] assms(2,3) by simp
  then have d: "unat (of_nat p - of_nat q :: size_t) = p - q" "(of_nat p = (of_nat q :: size_t)) = (p = q)"
    using unat_ticket_diff [OF assms(2)] ticket_inject [OF _ assms(2)] by auto
  then show ?thesis
    using assms(2,3) by (auto simp: reports_def Is_empty_SpscRingBuf_def Is_full_SpscRingBuf_def
        Size_SpscRingBuf_def full_iff cap_def)
qed


section \<open>The invariant\<close>

fun push_inv :: "ring \<Rightarrow> nat \<Rightarrow> nat \<Rightarrow> push_slot \<Rightarrow> bool" where
  "push_inv r p LT (ZLoadTail ch) \<longleftrightarrow> ch = of_nat p"
| "push_inv r p LT (ZHold a) \<longleftrightarrow> a = elem_addr r p \<and> p < LT + cap r"
| "push_inv r p LT ZEndLoad \<longleftrightarrow> p < LT + cap r"
| "push_inv r p LT (ZEndStore ch) \<longleftrightarrow> ch = of_nat p \<and> p < LT + cap r"
| "push_inv r p LT _ \<longleftrightarrow> True"

fun pop_inv :: "ring \<Rightarrow> nat \<Rightarrow> nat \<Rightarrow> pop_slot \<Rightarrow> bool" where
  "pop_inv r q LH (YLoadHead ct) \<longleftrightarrow> ct = of_nat q"
| "pop_inv r q LH (YHold a) \<longleftrightarrow> a = elem_addr r q \<and> q < LH"
| "pop_inv r q LH YEndLoad \<longleftrightarrow> q < LH"
| "pop_inv r q LH (YEndStore ct) \<longleftrightarrow> ct = of_nat q \<and> q < LH"
| "pop_inv r q LH _ \<longleftrightarrow> True"

lemma slot_inv_geom:
  assumes "geom r' = geom r"
  shows "push_inv r' p LT z = push_inv r p LT z" "pop_inv r' q LH y = pop_inv r q LH y"
  by (cases z; simp add: geom_eqD [OF assms]) (cases y; simp add: geom_eqD [OF assms])

definition slots_inv_at :: "byte list list \<Rightarrow> byte list list \<Rightarrow> nat \<Rightarrow> nat \<Rightarrow> slots_sys \<Rightarrow> bool" where
  "slots_inv_at P Q LT LH s \<longleftrightarrow>
     spsc_inv_at P Q LT LH (core s) \<and>
     push_inv (s_ring (core s)) (length P) LT (push_slot s) \<and>
     pop_inv (s_ring (core s)) (length Q) LH (pop_slot s)"

text \<open>A thread is in at most one call.\<close>

definition turns :: "slots_sys \<Rightarrow> bool" where
  "turns s \<longleftrightarrow>
     (push_slot s \<noteq> ZIdle \<longrightarrow> p_pc (core s) = PIdle) \<and>
     (pop_slot s \<noteq> YIdle \<longrightarrow> c_pc (core s) = CIdle) \<and>
     (looks s 0 \<noteq> LIdle \<longrightarrow> p_pc (core s) = PIdle \<and> push_quiet (push_slot s)) \<and>
     (looks s 1 \<noteq> LIdle \<longrightarrow> c_pc (core s) = CIdle \<and> pop_quiet (pop_slot s))"

fun look_inv :: "nat \<Rightarrow> slots_event list \<Rightarrow> nat \<Rightarrow> look_pc \<Rightarrow> bool" where
  "look_inv N h t (LTail ch) \<longleftrightarrow>
     (let h1 = before_last (Looked t) h in
      ch = of_nat (length (sputs h1)) \<and>
      length (sgets h1) \<le> length (sputs h1) \<and> length (sputs h1) \<le> length (sgets h1) + N \<and>
      length (sputs h1) \<le> length (sputs h) \<and> length (sgets h1) \<le> length (sgets h) \<and>
      (t = 0 \<longrightarrow> sputs h1 = sputs h) \<and> (t = 1 \<longrightarrow> sgets h1 = sgets h))"
| "look_inv N h t _ \<longleftrightarrow> True"

definition slots_inv :: "ring \<Rightarrow> slots_event list \<Rightarrow> slots_sys \<Rightarrow> bool" where
  "slots_inv r h s \<longleftrightarrow>
     (\<exists>LT LH. slots_inv_at (sputs h) (sgets h) LT LH s) \<and> geom (s_ring (core s)) = geom r \<and>
     turns s \<and> (\<forall>t. look_inv (cap r) h t (looks s t)) \<and>
     every_event (queue_legal r) [] h \<and> every_event (seen_ok r) [] h"


section \<open>The invariant is kept\<close>

lemma producer_step_no_get: "spsc_producer_step s = (s', e) \<Longrightarrow> gets e = []"
  by (cases "p_pc s") (auto simp: spsc_producer_step_def Let_def split: if_splits)

lemma consumer_step_no_put: "spsc_consumer_step s = (s', e) \<Longrightarrow> puts e = []"
  by (cases "c_pc s") (auto simp: spsc_consumer_step_def Let_def split: if_splits)

lemma idle_producer_step: "p_pc s = PIdle \<Longrightarrow> spsc_producer_step s = (s, [])"
  by (simp add: spsc_producer_step_def Let_def)

lemma idle_consumer_step: "c_pc s = CIdle \<Longrightarrow> spsc_consumer_step s = (s, [])"
  by (simp add: spsc_consumer_step_def Let_def)

lemma call_inv:
  assumes "spsc_inv_at P Q LT LH s" "spsc_step s a = (c, e)" "a \<noteq> StepP" "a \<noteq> StepC"
  shows "spsc_inv_at P Q LT LH c \<and> puts e = [] \<and> gets e = [] \<and> s_ring c = s_ring s"
  using assms by (cases a) (auto simp: spsc_inv_at_def size_fits split: if_splits)

lemma op_inv:
  assumes inv: "slots_inv_at P Q LT LH s" and turns: "turns s" and step: "spsc_step (core s) a = (c, e)"
  shows "\<exists>LT LH. slots_inv_at (P @ puts e) (Q @ gets e) LT LH (s\<lparr>core := c\<rparr>)"
proof -
  note geom = slot_inv_geom [OF spsc_step_geom [OF step]]
  show ?thesis
  proof (cases "a \<noteq> StepP \<and> a \<noteq> StepC")
    case True
    then show ?thesis
      using call_inv [OF _ step] inv by (intro exI [of _ LT] exI [of _ LH]) (auto simp: slots_inv_at_def)
  next
    case False
    then consider "a = StepP" | "a = StepC" by blast
    then show ?thesis
    proof cases
      case 1
      with step have p: "spsc_producer_step (core s) = (c, e)" by simp
      show ?thesis
      proof (cases "p_pc (core s) = PIdle")
        case True
        then have "c = core s" "e = []" using p idle_producer_step by auto
        then show ?thesis using inv by auto
      next
        case False
        then have "push_slot s = ZIdle" using turns by (auto simp: turns_def)
        moreover obtain LT' where "spsc_inv_at (P @ puts e) (Q @ gets e) LT' LH c"
          using spsc_inv_producer [OF _ p] inv unfolding slots_inv_at_def by blast
        ultimately show ?thesis
          using inv producer_step_no_get [OF p] by (auto simp: slots_inv_at_def geom)
      qed
    next
      case 2
      with step have p: "spsc_consumer_step (core s) = (c, e)" by simp
      show ?thesis
      proof (cases "c_pc (core s) = CIdle")
        case True
        then have "c = core s" "e = []" using p idle_consumer_step by auto
        then show ?thesis using inv by auto
      next
        case False
        then have "pop_slot s = YIdle" using turns by (auto simp: turns_def)
        moreover obtain LH' where "spsc_inv_at (P @ puts e) (Q @ gets e) LT LH' c"
          using spsc_inv_consumer [OF _ p] inv unfolding slots_inv_at_def by blast
        ultimately show ?thesis
          using inv consumer_step_no_put [OF p] by (auto simp: slots_inv_at_def geom)
      qed
    qed
  qed
qed

text \<open>The whole element at a position, as the \<open>End\<close> calls transfer it.\<close>

lemma holds_elem: "holds_bytes r k (elem r (of_nat k))"
  by (simp add: holds_bytes_def elem_def memcpy_out_def byte_at_def elem_addr_def)

lemma idle_pc: "p_pc s = PIdle \<Longrightarrow> s\<lparr>s_ring := r, p_pc := PIdle\<rparr> = s\<lparr>s_ring := r\<rparr>"
  "c_pc s = CIdle \<Longrightarrow> s\<lparr>s_ring := r, c_pc := CIdle\<rparr> = s\<lparr>s_ring := r\<rparr>"
  by (cases s; simp)+

lemma push_slot_inv:
  assumes inv: "slots_inv_at P Q LT LH s" and turns: "turns s" and step: "push_slot_step s = (s', e)"
  shows "\<exists>LT LH. slots_inv_at (P @ sputs e) (Q @ sgets e) LT LH s'"
proof (cases "push_slot s")
  case ZLoadHead
  note pos = inv [unfolded slots_inv_at_def spsc_inv_at_def, THEN conjunct1, THEN conjunct1]
  have "slots_inv_at (P @ sputs e) (Q @ sgets e) LT LH s'"
    using inv step ZLoadHead positions_diff(1) [OF pos] pos
    by (auto simp: push_slot_step_def slots_inv_at_def spsc_inv_at_def full_iff positions_inv_def elem_addr_def
        Let_def split: if_splits)
  then show ?thesis by blast
next
  case (ZLoadTail ch)
  note pos = inv [unfolded slots_inv_at_def spsc_inv_at_def, THEN conjunct1, THEN conjunct1]
  have idle: "p_pc (core s) = PIdle" using turns ZLoadTail by (auto simp: turns_def)
  have "slots_inv_at (P @ sputs e) (Q @ sgets e) (length Q) LH s'"
    using inv step ZLoadTail positions_diff(2) [OF pos] pos idle
    by (auto simp: push_slot_step_def slots_inv_at_def spsc_inv_at_def full_iff positions_inv_def elem_addr_def
        Let_def split: if_splits)
  then show ?thesis by blast
next
  case (ZEndStore ch)
  have idle: "p_pc (core s) = PIdle" using turns ZEndStore by (auto simp: turns_def)
  have core: "spsc_inv_at P Q LT LH (core s)" and here: "ch = of_nat (length P)" "length P < LT + cap (s_ring (core s))"
    using inv ZEndStore by (simp_all add: slots_inv_at_def)
  have "slots_inv_at (P @ sputs e) (Q @ sgets e) LT LH s'"
    using spsc_make_visible [OF core here(2) holds_elem] inv step ZEndStore idle here(1)
    by (auto simp: push_slot_step_def slots_inv_at_def set_ring_def idle_pc slot_inv_geom [of "_\<lparr>r_head := _\<rparr>"] Let_def)
  then show ?thesis by blast
next
  case ZEndLoad
  have "slots_inv_at (P @ sputs e) (Q @ sgets e) LT LH s'"
    using inv step ZEndLoad
    by (auto simp: push_slot_step_def slots_inv_at_def spsc_inv_at_def positions_inv_def Let_def)
  then show ?thesis by blast
qed (use inv step in \<open>auto simp: push_slot_step_def Let_def\<close>)

lemma pop_slot_inv:
  assumes inv: "slots_inv_at P Q LT LH s" and turns: "turns s" and step: "pop_slot_step s = (s', e)"
  shows "\<exists>LT LH. slots_inv_at (P @ sputs e) (Q @ sgets e) LT LH s'"
proof (cases "pop_slot s")
  case YLoadTail
  note pos = inv [unfolded slots_inv_at_def spsc_inv_at_def, THEN conjunct1, THEN conjunct1]
  have "slots_inv_at (P @ sputs e) (Q @ sgets e) LT LH s'"
    using inv step YLoadTail positions_diff(3) [OF pos] pos
    by (auto simp: pop_slot_step_def slots_inv_at_def spsc_inv_at_def positions_inv_def elem_addr_def
        Let_def split: if_splits)
  then show ?thesis by blast
next
  case (YLoadHead ct)
  note pos = inv [unfolded slots_inv_at_def spsc_inv_at_def, THEN conjunct1, THEN conjunct1]
  have idle: "c_pc (core s) = CIdle" using turns YLoadHead by (auto simp: turns_def)
  have "slots_inv_at (P @ sputs e) (Q @ sgets e) LT (length P) s'"
    using inv step YLoadHead positions_diff(4) [OF pos] pos idle
    by (auto simp: pop_slot_step_def slots_inv_at_def spsc_inv_at_def positions_inv_def elem_addr_def
        Let_def split: if_splits)
  then show ?thesis by blast
next
  case (YEndStore ct)
  have idle: "c_pc (core s) = CIdle" using turns YEndStore by (auto simp: turns_def)
  have core: "spsc_inv_at P Q LT LH (core s)" and here: "ct = of_nat (length Q)" "length Q < LH"
    using inv YEndStore by (simp_all add: slots_inv_at_def)
  have "slots_inv_at (P @ sputs e) (Q @ sgets e) LT LH s'"
    using spsc_give_back [OF core here(2) holds_elem] inv step YEndStore idle here(1)
    by (auto simp: pop_slot_step_def slots_inv_at_def set_ring_def idle_pc slot_inv_geom [of "_\<lparr>r_tail := _\<rparr>"] Let_def)
  then show ?thesis by blast
next
  case YEndLoad
  have "slots_inv_at (P @ sputs e) (Q @ sgets e) LT LH s'"
    using inv step YEndLoad
    by (auto simp: pop_slot_step_def slots_inv_at_def spsc_inv_at_def positions_inv_def Let_def)
  then show ?thesis by blast
qed (use inv step in \<open>auto simp: pop_slot_step_def Let_def\<close>)


lemma write_slot_inv:
  assumes inv: "slots_inv_at P Q LT LH s" and free: "producer_free s" and hold: "push_slot s = ZHold p"
    and i: "i < osz (s_ring (core s))"
  shows "slots_inv_at P Q LT LH (set_ring (write_byte (s_ring (core s)) (p + of_nat i) b) s)"
proof -
  have core: "spsc_inv_at P Q LT LH (core s)" and here: "p = elem_addr (s_ring (core s)) (length P)"
      "length P < LT + cap (s_ring (core s))" and idle: "p_pc (core s) = PIdle"
    using inv hold free by (simp_all add: slots_inv_at_def producer_free_iff)
  note free_write = spsc_free_write [OF core here(2) i, of b, folded here(1)]
  show ?thesis
    using free_write inv idle by (simp add: slots_inv_at_def set_ring_def spsc_inv_at_def slot_inv_geom [of "write_byte _ _ _"])
qed

lemma slots_at_step:
  assumes inv: "slots_inv_at P Q LT LH s" and turns: "turns s" and step: "slots_step s a = (s', e)"
  shows "\<exists>LT LH. slots_inv_at (P @ sputs e) (Q @ sgets e) LT LH s'"
proof -
  have op: "\<exists>LT LH. slots_inv_at (P @ sputs e) (Q @ sgets e) LT LH s'" if "op_step s x = (s', e)" for x
  proof -
    obtain c es where "spsc_step (core s) x = (c, es)" by fastforce
    moreover from this have "e = map Core es" "s' = s\<lparr>core := c\<rparr>" using that by (simp_all add: op_step_def)
    ultimately show ?thesis using op_inv [OF inv turns, of x c es] by simp
  qed
  have same: "\<exists>LT LH. slots_inv_at (P @ sputs e) (Q @ sgets e) LT LH s'"
    if "slots_inv_at P Q LT LH s'" "sputs e = []" "sgets e = []"
    using that by auto
  show ?thesis
  proof (cases "(s, a)" rule: slots_step.cases)
    case (6 s i b)
    then show ?thesis using step inv write_slot_inv [OF inv] same by (auto split: push_slot.splits if_splits)
  qed (use step inv op same push_slot_inv [OF inv turns] pop_slot_inv [OF inv turns]
      in \<open>auto simp: slots_inv_at_def look_step_def Let_def split: if_splits push_slot.splits pop_slot.splits look_pc.splits\<close>)
qed

lemma slots_step_geom: "slots_step s a = (s', e) \<Longrightarrow> geom (s_ring (core s')) = geom (s_ring (core s))"
  by (cases "(s, a)" rule: slots_step.cases)
    (auto simp: op_step_def push_slot_step_def pop_slot_step_def look_step_def set_ring_def Let_def
      split: if_splits push_slot.splits pop_slot.splits look_pc.splits prod.splits dest: spsc_step_geom
      producer_step_geom consumer_step_geom)

lemma op_pcs:
  assumes "spsc_step c a = (c', e)"
  shows "p_pc c = PIdle \<Longrightarrow> (\<And>args sz. a \<noteq> CallPush args sz) \<Longrightarrow> p_pc c' = PIdle \<and> puts e = []"
    and "c_pc c = CIdle \<Longrightarrow> (\<And>sz. a \<noteq> CallPop sz) \<Longrightarrow> c_pc c' = CIdle \<and> gets e = []"
  using assms
  by (cases a; auto simp: idle_producer_step idle_consumer_step split: if_splits
      dest: producer_step_c_pc consumer_step_p_pc producer_step_no_get consumer_step_no_put)+


text \<open>What the steps of a slot and of an observer leave alone.\<close>

lemma push_slot_step_frame:
  assumes "push_slot_step s = (s', e)"
  shows "p_pc (core s') = p_pc (core s) \<and> c_pc (core s') = c_pc (core s) \<and> pop_slot s' = pop_slot s \<and>
    looks s' = looks s \<and> sgets e = [] \<and> (push_quiet (push_slot s) \<longrightarrow> s' = s \<and> e = [])"
  using assms by (cases "push_slot s") (auto simp: push_slot_step_def set_ring_def Let_def split: if_splits)

lemma pop_slot_step_frame:
  assumes "pop_slot_step s = (s', e)"
  shows "p_pc (core s') = p_pc (core s) \<and> c_pc (core s') = c_pc (core s) \<and> push_slot s' = push_slot s \<and>
    looks s' = looks s \<and> sputs e = [] \<and> (pop_quiet (pop_slot s) \<longrightarrow> s' = s \<and> e = [])"
  using assms by (cases "pop_slot s") (auto simp: pop_slot_step_def set_ring_def Let_def split: if_splits)

lemma look_step_frame:
  assumes "look_step s t = (s', e)"
  shows "core s' = core s \<and> push_slot s' = push_slot s \<and> pop_slot s' = pop_slot s \<and> core_of e = [] \<and>
    (\<forall>u. looks s u = LIdle \<longrightarrow> looks s' u = LIdle)"
  using assms by (cases "looks s t") (auto simp: look_step_def Let_def)

text \<open>Only a call starts an operation.\<close>

lemma op_step_frame:
  assumes "op_step s x = (s', e)"
  shows "push_slot s' = push_slot s \<and> pop_slot s' = pop_slot s \<and> looks s' = looks s \<and>
    (p_pc (core s) = PIdle \<longrightarrow> (\<forall>args sz. x \<noteq> CallPush args sz) \<longrightarrow> p_pc (core s') = PIdle \<and> sputs e = []) \<and>
    (c_pc (core s) = CIdle \<longrightarrow> (\<forall>sz. x \<noteq> CallPop sz) \<longrightarrow> c_pc (core s') = CIdle \<and> sgets e = [])"
proof -
  obtain c es where c: "spsc_step (core s) x = (c, es)" by fastforce
  with assms have "s' = s\<lparr>core := c\<rparr>" "e = map Core es" by (simp_all add: op_step_def)
  with op_pcs [OF c] show ?thesis by simp
qed

text \<open>While the producer looks nothing is pushed, while the consumer looks nothing is popped.\<close>

definition look_waits :: "slots_sys \<Rightarrow> slots_event list \<Rightarrow> bool" where
  "look_waits s e \<longleftrightarrow> (looks s 0 \<noteq> LIdle \<longrightarrow> sputs e = []) \<and> (looks s 1 \<noteq> LIdle \<longrightarrow> sgets e = [])"

lemmas turn_defs = turns_def look_waits_def producer_free_iff consumer_free_iff

lemma turns_step:
  assumes turns: "turns s" and step: "slots_step s a = (s', e)"
  shows "turns s' \<and> look_waits s e"
proof (cases a)
  case (Op x)
  then have "op_step s x = (s', e) \<or> (s' = s \<and> e = [])" using step by (cases x) (auto split: if_splits)
  then show ?thesis
  proof
    assume op: "op_step s x = (s', e)"
    show ?thesis
    proof (cases x)
      case (CallPush args sz)
      then show ?thesis using step Op turns op_step_frame [OF op]
        by (cases "producer_free s \<and> push_slot s = ZIdle") (auto simp: turn_defs)
    next
      case (CallPop sz)
      then show ?thesis using step Op turns op_step_frame [OF op]
        by (cases "consumer_free s \<and> pop_slot s = YIdle") (auto simp: turn_defs)
    qed (use turns op_step_frame [OF op] in \<open>auto simp: turn_defs\<close>)
  qed (use turns in \<open>simp add: turn_defs\<close>)
next
  case StepPush
  then show ?thesis using step turns push_slot_step_frame [of s s' e] by (auto simp: turn_defs)
next
  case StepPop
  then show ?thesis using step turns pop_slot_step_frame [of s s' e] by (auto simp: turn_defs)
next
  case (StepLook t)
  then show ?thesis using step turns look_step_frame [of s t s' e] by (auto simp: turn_defs)
next
  case BeginPush
  then show ?thesis using step turns
    by (auto simp: turn_defs set_ring_def split: if_splits)
next
  case (WriteSlot i b)
  then show ?thesis using step turns
    by (cases "push_slot s") (auto simp: turn_defs set_ring_def split: if_splits)
next
  case EndPush
  then show ?thesis using step turns
    by (cases "push_slot s") (auto simp: turn_defs set_ring_def split: if_splits)
next
  case DropPush
  then show ?thesis using step turns
    by (cases "push_slot s") (auto simp: turn_defs set_ring_def split: if_splits)
next
  case BeginPop
  then show ?thesis using step turns
    by (auto simp: turn_defs set_ring_def split: if_splits)
next
  case (ReadSlot i)
  then show ?thesis using step turns
    by (cases "pop_slot s") (auto simp: turn_defs set_ring_def split: if_splits)
next
  case EndPop
  then show ?thesis using step turns
    by (cases "pop_slot s") (auto simp: turn_defs set_ring_def split: if_splits)
next
  case DropPop
  then show ?thesis using step turns
    by (cases "pop_slot s") (auto simp: turn_defs set_ring_def split: if_splits)
next
  case (Look t)
  let ?may = "(t = 0 \<longrightarrow> producer_free s \<and> push_quiet (push_slot s)) \<and> (t = 1 \<longrightarrow> consumer_free s \<and> pop_quiet (pop_slot s))"
  show ?thesis
  proof (cases "looks s t = LIdle \<and> ?may")
    case True
    then have s': "s' = s\<lparr>looks := (looks s)(t := LHead)\<rparr>" and e: "e = []" using step Look by auto
    consider "t = 0" | "t = 1" | "t \<noteq> 0" "t \<noteq> 1" by blast
    then show ?thesis
      by cases (use turns True in \<open>auto simp: turn_defs s' e\<close>)
  next
    case False
    then have "s' = s" "e = []" using step Look by auto
    then show ?thesis using turns by (simp add: turn_defs)
  qed
qed

lemma look_only_own:
  assumes "slots_step s a = (s', e)" "a \<noteq> StepLook t" "a \<noteq> Look t"
  shows "looks s' t = looks s t \<and> Looked t \<notin> set e"
  by (cases "(s, a)" rule: slots_step.cases)
    (use assms in \<open>auto simp: op_step_def set_ring_def push_slot_step_def pop_slot_step_def look_step_def Let_def
       split: if_splits push_slot.splits pop_slot.splits look_pc.splits prod.splits\<close>)

lemma look_inv_later:
  assumes "look_inv N h t l" "Looked t \<notin> set e" "l \<noteq> LIdle \<Longrightarrow> t = 0 \<Longrightarrow> sputs e = []"
    "l \<noteq> LIdle \<Longrightarrow> t = 1 \<Longrightarrow> sgets e = []"
  shows "look_inv N (h @ e) t l"
  using assms by (cases l) (auto simp: before_last_append Let_def)

lemma look_inv_step:
  assumes turns: "turns s" and counts: "r_head (s_ring (core s)) = of_nat (length (sputs h))"
      "length (sgets h) \<le> length (sputs h)" "length (sputs h) \<le> length (sgets h) + N"
    and old: "look_inv N h t (looks s t)" and step: "slots_step s a = (s', e)"
  shows "look_inv N (h @ e) t (looks s' t)"
proof (cases "a = StepLook t \<or> a = Look t")
  case True
  then show ?thesis using step counts old
    by (auto simp: look_step_def Let_def split: look_pc.splits if_splits)
next
  case False
  then have "looks s' t = looks s t" "Looked t \<notin> set e" using look_only_own [OF step] by blast+
  then show ?thesis using look_inv_later [OF old] turns_step [OF turns step] unfolding look_waits_def by metis
qed


section \<open>Every event is legal\<close>

lemma entered:
  "spsc_inv_at (P @ [v]) Q LT LH s \<Longrightarrow> length P < length Q + cap (s_ring s)"
  "spsc_inv_at P (Q @ [v]) LT LH s \<Longrightarrow> length Q < length P \<and> agree (P ! length Q) v"
proof -
  show "spsc_inv_at (P @ [v]) Q LT LH s \<Longrightarrow> length P < length Q + cap (s_ring s)"
    by (simp add: spsc_inv_at_def positions_inv_def)
  assume inv: "spsc_inv_at P (Q @ [v]) LT LH s"
  then have lt: "length Q < length P" by (simp add: spsc_inv_at_def positions_inv_def)
  moreover have "list_all2 agree (take (Suc (length Q)) P) (Q @ [v])"
    using inv by (simp add: spsc_inv_at_def contents_inv_def)
  ultimately show "length Q < length P \<and> agree (P ! length Q) v"
    by (auto simp: take_Suc_conv_app_nth list_all2_append2 append_eq_append_conv dest: list_all2_lengthD)
qed

lemma queue_at_simps:
  "length (queue_at h) = length (sputs h) - length (sgets h)"
  "queue_at h = [] \<longleftrightarrow> length (sputs h) \<le> length (sgets h)"
  "length (sgets h) < length (sputs h) \<Longrightarrow> hd (queue_at h) = sputs h ! length (sgets h)"
  by (simp_all add: queue_at_def hd_drop_conv_nth)

text \<open>The shapes of what one step of \<open>Push\<close> and \<open>Pop\<close> reports.\<close>

lemma spsc_step_events:
  assumes "spsc_step s a = (s', e)"
  shows "e = [] \<or> (\<exists>rc. e = [PushRet rc] \<or> e = [PopRet rc]) \<or> (\<exists>v rc. e = [PutE v, PushRet rc] \<or> e = [GetE v, PopRet rc])"
  using assms
  by (cases a; cases "p_pc s"; cases "c_pc s")
    (auto simp: spsc_producer_step_def spsc_consumer_step_def Let_def split: if_splits)

lemma op_legal:
  assumes old: "spsc_inv_at (sputs h) (sgets h) LT LH s" and step: "spsc_step s a = (s', e)"
    and new: "spsc_inv_at (sputs h @ puts e) (sgets h @ gets e) LT' LH' s'" and geom: "geom (s_ring s) = geom r"
  shows "every_event (queue_legal r) h (map Core e)"
proof -
  have N: "cap (s_ring s) = cap r" "cap (s_ring s') = cap r"
    using geom_eqD(6) [OF geom] geom_eqD(6) [OF spsc_step_geom [OF step]] by simp_all
  have le: "length (sgets h) \<le> length (sputs h)" using old by (simp add: spsc_inv_at_def positions_inv_def)
  have refused: "(PushRet RINGBUF_FULL \<in> set e \<longrightarrow> length (sputs h) = length (sgets h) + cap r) \<and>
      (PopRet RINGBUF_EMPTY \<in> set e \<longrightarrow> length (sputs h) = length (sgets h))"
    if "length (sputs h) < 2 ^ 63"
    using spsc_refusals [OF old that step] by (simp add: N)
  from spsc_step_events [OF step] consider "e = []" | rc where "e = [PushRet rc] \<or> e = [PopRet rc]"
    | v rc where "e = [PutE v, PushRet rc]" | v rc where "e = [GetE v, PopRet rc]" by blast
  then show ?thesis
  proof cases
    case (3 v rc)
    with new have "spsc_inv_at (sputs h @ [v]) (sgets h) LT' LH' s'" by simp
    from entered(1) [OF this] have "length (sputs h) < length (sgets h) + cap r" by (simp add: N)
    then show ?thesis using 3 refused le by (auto simp: queue_at_simps)
  next
    case (4 v rc)
    with new have "spsc_inv_at (sputs h) (sgets h @ [v]) LT' LH' s'" by simp
    note entered(2) [OF this]
    then show ?thesis using 4 refused by (auto simp: queue_at_simps)
  qed (use refused le in \<open>auto simp: queue_at_simps\<close>)
qed

lemma every_legal_geom:
  assumes "geom r' = geom r"
  shows "every_event (queue_legal r') h e = every_event (queue_legal r) h e"
proof -
  have "queue_legal r' h x = queue_legal r h x" for h x
    by (cases "(r, h, x)" rule: queue_legal.cases) (simp_all add: geom_eqD(6,8) [OF assms])
  then show ?thesis by (induction e arbitrary: h) simp_all
qed

lemma slots_legal_step:
  assumes inv: "slots_inv_at (sputs h) (sgets h) LT LH s" and step: "slots_step s a = (s', e)"
    and new: "slots_inv_at (sputs h @ sputs e) (sgets h @ sgets e) LT' LH' s'"
    and geom: "geom (s_ring (core s)) = geom r"
  shows "every_event (queue_legal r) h e"
proof -
  let ?r = "s_ring (core s)"
  have core: "spsc_inv_at (sputs h) (sgets h) LT LH (core s)" using inv by (simp add: slots_inv_at_def)
  have pos: "positions_inv ?r (sputs h) (sgets h) LT LH" using core by (simp add: spsc_inv_at_def)
  have op: "every_event (queue_legal r) h e" if "op_step s x = (s', e)" for x
  proof -
    obtain c es where c: "spsc_step (core s) x = (c, es)" by fastforce
    with that have e: "e = map Core es" "core s' = c" by (auto simp: op_step_def)
    from new have "spsc_inv_at (sputs h @ puts es) (sgets h @ gets es) LT' LH' c"
      unfolding slots_inv_at_def e core_of_Core by blast
    from op_legal [OF core c this geom] show ?thesis by (simp add: e)
  qed
  have push: "every_event (queue_legal ?r) h e" if step: "push_slot_step s = (s', e)"
  proof (cases "push_slot s")
    case ZLoadHead
    then show ?thesis using step core pos positions_diff(1) [OF pos]
      by (auto simp: push_slot_step_def queue_at_simps spsc_inv_at_def positions_inv_def full_iff elem_addr_def Let_def
          split: if_splits)
  next
    case (ZLoadTail ch)
    then show ?thesis using step inv pos positions_diff(2) [OF pos]
      by (auto simp: push_slot_step_def queue_at_simps slots_inv_at_def positions_inv_def full_iff elem_addr_def Let_def
          split: if_splits)
  next
    case (ZEndStore ch)
    then have e: "e = [Core (PutE (elem ?r ch))]" using step by (simp add: push_slot_step_def Let_def)
    have N: "cap (s_ring (core s')) = cap ?r"
      using geom_eqD(6) [OF slots_step_geom [of s StepPush s' e]] step by simp
    from new have "spsc_inv_at (sputs h @ [elem ?r ch]) (sgets h) LT' LH' (core s')"
      by (simp add: slots_inv_at_def e)
    from entered(1) [OF this] pos show ?thesis by (auto simp: e N queue_at_simps positions_inv_def)
  qed (use step in \<open>auto simp: push_slot_step_def Let_def\<close>)
  have pop: "every_event (queue_legal ?r) h e" if step: "pop_slot_step s = (s', e)"
  proof (cases "pop_slot s")
    case YLoadTail
    then show ?thesis using step core pos positions_diff(3) [OF pos]
      by (auto simp: pop_slot_step_def queue_at_simps spsc_inv_at_def positions_inv_def elem_addr_def Let_def
          split: if_splits)
  next
    case (YLoadHead ct)
    then show ?thesis using step inv pos positions_diff(4) [OF pos]
      by (auto simp: pop_slot_step_def queue_at_simps slots_inv_at_def positions_inv_def elem_addr_def Let_def
          split: if_splits)
  next
    case (YEndStore ct)
    then have e: "e = [Core (GetE (elem ?r ct))]" using step by (simp add: pop_slot_step_def Let_def)
    from new have "spsc_inv_at (sputs h) (sgets h @ [elem ?r ct]) LT' LH' (core s')"
      by (simp add: slots_inv_at_def e)
    from entered(2) [OF this] show ?thesis by (simp add: e queue_at_simps)
  qed (use step in \<open>auto simp: pop_slot_step_def Let_def\<close>)
  have read: "every_event (queue_legal ?r) h [Peek i (bytes ?r (p + of_nat i))]"
    if "pop_slot s = YHold p" "i < osz ?r" for p i
  proof -
    have p: "p = elem_addr ?r (length (sgets h))" and lt: "length (sgets h) < length (sputs h)"
      using inv that(1) pos by (auto simp: slots_inv_at_def positions_inv_def)
    have "holds_bytes ?r (length (sgets h)) (sputs h ! length (sgets h))"
      using core lt by (simp add: spsc_inv_at_def contents_inv_def)
    then show ?thesis using lt by (simp add: queue_at_simps p holds_bytes_def byte_at_def)
  qed
  note lift = every_legal_geom [OF geom]
  show ?thesis
  proof (cases a)
    case (Op x)
    then have "e = [] \<or> op_step s x = (s', e)" using step by (cases x) (auto split: if_splits)
    then show ?thesis using op by auto
  next
    case StepPush
    then show ?thesis using step push lift by simp
  next
    case StepPop
    then show ?thesis using step pop lift by simp
  next
    case (ReadSlot i)
    then show ?thesis using step read lift by (auto split: pop_slot.splits if_splits)
  next
    case (StepLook t)
    then show ?thesis using step by (auto simp: look_step_def Let_def split: look_pc.splits)
  qed (use step in \<open>auto split: push_slot.splits pop_slot.splits if_splits\<close>)
qed

lemma slots_seen_step:
  assumes wf: "ring_wf r" and step: "slots_step s a = (s', e)"
    and look: "\<And>t. look_inv (cap r) h t (looks s t)"
    and tail: "r_tail (s_ring (core s)) = of_nat (length (sgets h))"
    and counts: "length (sgets h) \<le> length (sputs h)" "length (sputs h) \<le> length (sgets h) + cap r"
  shows "every_event (seen_ok r) h e"
proof -
  have quiet: "every_event (seen_ok r) h e" if "\<And>t ch ct. Seen t ch ct \<notin> set e"
    using that
  proof (induction e arbitrary: h)
    case (Cons x e)
    then have "seen_ok r h x" by (cases x) (force, auto)
    then show ?case using Cons by simp
  qed simp
  have seen: "seen_ok r h (Seen t ch (r_tail (s_ring (core s))))" if at: "looks s t = LTail ch" for t ch
  proof -
    let ?h1 = "before_last (Looked t) h"
    have l: "ch = of_nat (length (sputs ?h1))" "length (sgets ?h1) \<le> length (sputs ?h1)"
      "length (sputs ?h1) \<le> length (sgets ?h1) + cap r" "length (sputs ?h1) \<le> length (sputs h)"
      "length (sgets ?h1) \<le> length (sgets h)"
      "t = 0 \<longrightarrow> sputs ?h1 = sputs h" "t = 1 \<longrightarrow> sgets ?h1 = sgets h"
      using look [of t] by (simp_all add: at Let_def)
    have "unat (Size_SpscRingBuf (r\<lparr>r_head := ch, r_tail := of_nat (length (sgets h))\<rparr>)) =
        length (sputs ?h1) - length (sgets h)" if "length (sgets h) \<le> length (sputs ?h1)"
      using reports_exact [OF wf that] l(3,5) by (simp add: reports_def l(1) Let_def)
    moreover have "reports r ch (of_nat (length (sgets h))) (length (queue_at h))" if "t = 0"
      using reports_exact [OF wf counts] l(1,6) that by (simp add: queue_at_simps)
    moreover have "reports r ch (of_nat (length (sgets h))) (length (queue_at ?h1))" if "t = 1"
      using reports_exact [OF wf l(2,3)] l(1,7) that by (simp add: queue_at_simps)
    ultimately show ?thesis using l(4,5) by (auto simp: tail Let_def queue_at_simps)
  qed
  show ?thesis
  proof (cases a)
    case (StepLook t)
    then show ?thesis using step seen [of t] by (auto simp: look_step_def Let_def split: look_pc.splits)
  next
    case (Op x)
    then have "e = [] \<or> op_step s x = (s', e)" using step by (cases x) (auto split: if_splits)
    then show ?thesis by (intro quiet) (auto simp: op_step_def split: prod.splits)
  qed (use step in \<open>auto intro!: quiet simp: push_slot_step_def pop_slot_step_def Let_def
      split: push_slot.splits pop_slot.splits if_splits\<close>)
qed

lemma slots_inv_step:
  assumes inv: "slots_inv r h s" and wf: "ring_wf r" and step: "slots_step s a = (s', e)"
  shows "slots_inv r (h @ e) s'"
proof -
  obtain LT LH where at: "slots_inv_at (sputs h) (sgets h) LT LH s" and geom: "geom (s_ring (core s)) = geom r"
    and turns: "turns s" and look: "\<And>t. look_inv (cap r) h t (looks s t)"
    and ok: "every_event (queue_legal r) [] h" "every_event (seen_ok r) [] h"
    using inv by (auto simp: slots_inv_def)
  obtain LT' LH' where new: "slots_inv_at (sputs h @ sputs e) (sgets h @ sgets e) LT' LH' s'"
    using slots_at_step [OF at turns step] by blast
  have pos: "r_head (s_ring (core s)) = of_nat (length (sputs h))" "r_tail (s_ring (core s)) = of_nat (length (sgets h))"
    "length (sgets h) \<le> length (sputs h)" "length (sputs h) \<le> length (sgets h) + cap r"
    using at by (simp_all add: slots_inv_at_def spsc_inv_at_def positions_inv_def geom_eqD(6) [OF geom])
  have "\<exists>LT LH. slots_inv_at (sputs (h @ e)) (sgets (h @ e)) LT LH s'" using new by auto
  moreover have "geom (s_ring (core s')) = geom r" using slots_step_geom [OF step] geom by simp
  moreover have "turns s'" using turns_step [OF turns step] by simp
  moreover have "\<forall>t. look_inv (cap r) (h @ e) t (looks s' t)"
    using look_inv_step [OF turns pos(1,3,4) look step] by blast
  moreover have "every_event (queue_legal r) [] (h @ e)"
    using ok(1) slots_legal_step [OF at step new geom] by (simp add: every_event_append)
  moreover have "every_event (seen_ok r) [] (h @ e)"
    using ok(2) slots_seen_step [OF wf step look pos(2-4)] by (simp add: every_event_append)
  ultimately show ?thesis unfolding slots_inv_def by blast
qed

interpretation slots_conc: history_system slots_step "\<lambda>h s. ring_wf r \<and> slots_inv r h s" "\<lambda>_. True" for r
  by unfold_locales (auto intro: slots_inv_step)


lemma slots_inv_start:
  assumes "ring_wf r" "r_head r = 0" "r_tail r = 0"
  shows "slots_inv r [] (slots_start r)"
proof -
  have "spsc_inv_at [] [] 0 0 (spsc_start r)"
    using assms by (simp add: spsc_inv_at_def spsc_start_def positions_inv_def contents_inv_def spsc_tls_init_def)
  then have "slots_inv_at (sputs []) (sgets []) 0 0 (slots_start r)"
    by (simp add: slots_inv_at_def slots_start_def)
  then show ?thesis
    unfolding slots_inv_def by (auto simp: slots_start_def spsc_start_def turns_def intro: exI)
qed

lemma slots_fresh_inv:
  assumes "good_capacity n" "layout_fits n sz"
    and "r = init_ring r0 (get_total_size n sz NO_SLOT) n m fd NO_SLOT"
    and "exec slots_step (slots_start r) as = (s, h)"
  shows "ring_wf r \<and> slots_inv r h s"
proof -
  have "ring_wf r"
    unfolding assms(3) by (rule init_ring_wf [OF assms(1,2)]) (simp add: slot_mode_def)
  moreover from this have "slots_inv r [] (slots_start r)"
    by (rule slots_inv_start) (simp_all add: assms(3))
  ultimately show ?thesis using slots_conc.inv_run [of r "slots_start r", OF _ assms(4)] by simp
qed


section \<open>A call run alone\<close>

text \<open>
  Undisturbed, the accesses of \<open>Begin\<close>, \<open>End\<close> and the observers add up to the sequential
  operations of \<^verbatim>\<open>RB_Spsc\<close>.
\<close>

lemma push_slot_alone:
  assumes "producer_free s"
  shows "push_slot s = ZIdle \<Longrightarrow> Begin_push_SpscRingBuf (p_tls (core s)) (s_ring (core s)) = (res, l) \<Longrightarrow>
      exec slots_step s [BeginPush, StepPush, StepPush] =
        (s\<lparr>core := (core s)\<lparr>p_tls := l\<rparr>, push_slot := (case res of None \<Rightarrow> ZIdle | Some p \<Rightarrow> ZHold p)\<rparr>,
         [Begin_push_ret res])"
    and "push_slot s = ZHold p \<Longrightarrow>
      exec slots_step s [EndPush, StepPush, StepPush] =
        ((set_ring (End_push_SpscRingBuf (s_ring (core s))) s)\<lparr>push_slot := ZIdle\<rparr>,
         [Core (PutE (elem (s_ring (core s)) (r_head (s_ring (core s)))))])"
  using assms
  by (auto simp: push_slot_step_def Begin_push_SpscRingBuf_def End_push_SpscRingBuf_def set_ring_def Let_def
      split: if_splits)

lemma pop_slot_alone:
  assumes "consumer_free s"
  shows "pop_slot s = YIdle \<Longrightarrow> Begin_pop_SpscRingBuf (c_tls (core s)) (s_ring (core s)) = (res, l) \<Longrightarrow>
      exec slots_step s [BeginPop, StepPop, StepPop] =
        (s\<lparr>core := (core s)\<lparr>c_tls := l\<rparr>, pop_slot := (case res of None \<Rightarrow> YIdle | Some p \<Rightarrow> YHold p)\<rparr>,
         [Begin_pop_ret res])"
    and "pop_slot s = YHold p \<Longrightarrow>
      exec slots_step s [EndPop, StepPop, StepPop] =
        ((set_ring (End_pop_SpscRingBuf (s_ring (core s))) s)\<lparr>pop_slot := YIdle\<rparr>,
         [Core (GetE (elem (s_ring (core s)) (r_tail (s_ring (core s)))))])"
  using assms
  by (auto simp: pop_slot_step_def Begin_pop_SpscRingBuf_def End_pop_SpscRingBuf_def set_ring_def Let_def
      split: if_splits)

lemma look_alone:
  assumes "looks s t = LIdle" "t \<noteq> 0" "t \<noteq> 1"
  shows "exec slots_step s [Look t, StepLook t, StepLook t] =
    (s, [Looked t, Seen t (r_head (s_ring (core s))) (r_tail (s_ring (core s)))])"
  using assms by (cases s) (simp add: look_step_def Let_def fun_upd_idem)


section \<open>Properties\<close>

text \<open>The element a thread is writing or reading: the slot it holds, or the one it copies.\<close>

definition producer_elem :: "slots_sys \<Rightarrow> size_t option" where
  "producer_elem s =
     (case push_slot s of ZHold p \<Rightarrow> Some p
      | _ \<Rightarrow> (case p_pc (core s) of
          PCopy args sz ch i \<Rightarrow> Some (GET_BUFFER (s_ring (core s)) (ch AND r_mask (s_ring (core s))))
        | _ \<Rightarrow> None))"

definition consumer_elem :: "slots_sys \<Rightarrow> size_t option" where
  "consumer_elem s =
     (case pop_slot s of YHold p \<Rightarrow> Some p
      | _ \<Rightarrow> (case c_pc (core s) of
          CCopy sz ct buf \<Rightarrow> Some (GET_BUFFER (s_ring (core s)) (ct AND r_mask (s_ring (core s))))
        | _ \<Rightarrow> None))"

lemma thread_elems:
  assumes "slots_inv_at P Q LT LH s"
  shows "producer_elem s = Some p \<Longrightarrow> p = elem_addr (s_ring (core s)) (length P) \<and> length P < LT + cap (s_ring (core s))"
    and "consumer_elem s = Some q \<Longrightarrow> q = elem_addr (s_ring (core s)) (length Q) \<and> length Q < LH"
  using assms
  by (auto simp: producer_elem_def consumer_elem_def slots_inv_at_def spsc_inv_at_def elem_addr_def
      split: push_slot.splits pop_slot.splits spsc_ppc.splits spsc_cpc.splits)

text \<open>C2: The SPSC ring with its whole interface is a bounded queue under every schedule of the
  producer, the consumer and any number of observing threads. At the instant of each event the
  queue is the objects put and not yet got: \<^verbatim>\<open>End_push\<close> and \<^verbatim>\<open>Push\<close> append to a queue with room,
  \<^verbatim>\<open>End_pop\<close> and \<^verbatim>\<open>Pop\<close> remove its oldest object with its bytes, \<^verbatim>\<open>Begin_push\<close> returns a null pointer
  only when the queue is full and otherwise the element behind its end, \<^verbatim>\<open>Begin_pop\<close> returns a
  null pointer only when it is empty and otherwise the element of its oldest object, and
  every byte the consumer reads through that pointer is the byte of that object, although the
  producer goes on writing meanwhile. The refusals of \<^verbatim>\<open>Push\<close> and \<^verbatim>\<open>Pop\<close> are true too while
  positions are below \<open>2 ^ 63\<close>.\<close>

theorem slots_linearizable:
  assumes "good_capacity n" "layout_fits n sz"
    and "r = init_ring r0 (get_total_size n sz NO_SLOT) n m fd NO_SLOT"
    and "exec slots_step (slots_start r) as = (s, h)"
  shows "every_event (queue_legal r) [] h"
  using slots_fresh_inv [OF assms] by (simp add: slots_inv_def)

theorem slots_linearizable_witness:
  "(let r = make_ring 2 8 NO_SLOT;
        h = snd (exec slots_step (slots_start r)
          [BeginPush, StepPush, WriteSlot 0 7, EndPush, StepPush, Op (CallPop 1), Op StepC, StepPush, BeginPop,
           Op StepC, BeginPush, Op StepC, Op StepC, StepPush, WriteSlot 0 8, EndPush, StepPush, StepPush,
           BeginPop, StepPop, StepPop, ReadSlot 0])
    in every_event (queue_legal r) [] h \<and>
       h = [Begin_push_ret (Some 192), Core (PutE (7 # replicate 63 0)), Core (GetE [7]), Core (PopRet 0),
            Begin_push_ret (Some 256), Core (PutE (8 # replicate 63 0)), Begin_pop_ret (Some 256), Peek 0 8])"
proof -
  have cap: "good_capacity 2" "layout_fits 2 8"
    by (simp_all add: good_capacity_def layout_fits_def align_nat_def)
  show ?thesis
    unfolding Let_def
    by (intro conjI slots_linearizable [OF cap make_ring_def surjective_pairing]) code_simp
qed

text \<open>C24: The two threads never touch the same byte: the element the producer fills, through its
  slot or inside \<^verbatim>\<open>Push\<close>, and the one the consumer reads, through its slot or inside \<^verbatim>\<open>Pop\<close>, have no
  address in common, for as long as the threads care to hold them.\<close>

theorem slots_exclusive:
  assumes "good_capacity n" "layout_fits n sz"
    and "r = init_ring r0 (get_total_size n sz NO_SLOT) n m fd NO_SLOT"
    and "exec slots_step (slots_start r) as = (s, h)"
    and "producer_elem s = Some p" "consumer_elem s = Some q" "i < osz r" "j < osz r"
  shows "p + of_nat i \<noteq> q + of_nat j"
proof -
  obtain LT LH where at: "slots_inv_at (sputs h) (sgets h) LT LH s" and geom: "geom (s_ring (core s)) = geom r"
    using slots_fresh_inv [OF assms(1-4)] by (auto simp: slots_inv_def)
  then have pos: "positions_inv (s_ring (core s)) (sputs h) (sgets h) LT LH"
    by (simp add: slots_inv_at_def spsc_inv_at_def)
  note p = thread_elems(1) [OF at assms(5)] and q = thread_elems(2) [OF at assms(6)]
  have "length (sgets h) mod cap (s_ring (core s)) \<noteq> length (sputs h) mod cap (s_ring (core s))"
    by (rule slots_distinct [OF pos]) (use p q pos in \<open>auto simp: positions_inv_def\<close>)
  then show ?thesis
    using elem_byte_eq_iff [of "s_ring (core s)" i j "length (sputs h)" "length (sgets h)"] p q pos assms(7,8)
    by (auto simp: positions_inv_def geom_eqD [OF geom])
qed

theorem slots_exclusive_witness:
  "(let s = fst (exec slots_step (slots_start (make_ring 2 8 NO_SLOT))
      [BeginPush, StepPush, EndPush, StepPush, StepPush, BeginPush, StepPush, BeginPop, StepPop, StepPop])
    in producer_elem s = Some 256 \<and> consumer_elem s = Some 192 \<and> (256 :: size_t) + of_nat 63 \<noteq> 192 + of_nat 0)"
proof -
  let ?x = "exec slots_step (slots_start (make_ring 2 8 NO_SLOT))
      [BeginPush, StepPush, EndPush, StepPush, StepPush, BeginPush, StepPush, BeginPop, StepPop, StepPop]"
  have cap: "good_capacity 2" "layout_fits 2 8"
    by (simp_all add: good_capacity_def layout_fits_def align_nat_def)
  have at: "producer_elem (fst ?x) = Some 256" "consumer_elem (fst ?x) = Some 192" by code_simp+
  have i: "63 < osz (make_ring 2 8 NO_SLOT)" "0 < osz (make_ring 2 8 NO_SLOT)" by code_simp+
  show ?thesis
    using slots_exclusive [OF cap make_ring_def surjective_pairing at i] at unfolding Let_def by blast
qed

text \<open>C25: What an observer reports was the truth at one instant inside its call: for the producer
  at its second load, for the consumer at its first, with any interleaving of the other thread's
  operations. A third thread gets a lower bound for the number of objects at both of its loads,
  unless the consumer has overtaken the head it loaded.\<close>

theorem slots_observers:
  assumes "good_capacity n" "layout_fits n sz"
    and "r = init_ring r0 (get_total_size n sz NO_SLOT) n m fd NO_SLOT"
    and "exec slots_step (slots_start r) as = (s, h)"
  shows "every_event (seen_ok r) [] h"
  using slots_fresh_inv [OF assms] by (simp add: slots_inv_def)

theorem slots_observers_witness:
  "(let r = make_ring 2 8 NO_SLOT;
        h = snd (exec slots_step (slots_start r)
          [Look 1, StepLook 1, BeginPush, StepPush, EndPush, StepPush, StepPush, StepLook 1, Look 0, StepLook 0,
           StepLook 0])
    in every_event (seen_ok r) [] h \<and> drop 3 h = [Seen 1 0 0, Looked 0, Seen 0 1 0])"
proof -
  have cap: "good_capacity 2" "layout_fits 2 8"
    by (simp_all add: good_capacity_def layout_fits_def align_nat_def)
  show ?thesis
    unfolding Let_def
    by (intro conjI slots_observers [OF cap make_ring_def surjective_pairing]) code_simp
qed

text \<open>
  What goes wrong for a third thread: between its two loads one object is pushed and popped,
  and the observers report \<open>2 ^ 64 - 1\<close> objects and a full ring, where there is none.
\<close>

lemma third_observer_wraps:
  "(let r = make_ring 2 8 NO_SLOT;
        h = snd (exec slots_step (slots_start r)
          [Look 2, StepLook 2, BeginPush, StepPush, EndPush, StepPush, StepPush, BeginPop, StepPop, StepPop,
           EndPop, StepPop, StepPop, StepLook 2]);
        v = r\<lparr>r_head := 0, r_tail := 1\<rparr>
    in last h = Seen 2 0 1 \<and> queue_at h = [] \<and> Is_full_SpscRingBuf v \<and> Size_SpscRingBuf v = - 1)"
  by code_simp

end
