(* ===== verification/RB_Mpsc.thy ===== *)
theory RB_Mpsc
  imports RB_Ring RB_Fifo
begin

text \<open>
  \<^verbatim>\<open>RingBuf_Mpsc.c\<close>: the multi-producer, single-consumer ring. Each slot carries a status,
  set to \<open>SLOT_VALID\<close> by the producer that filled it and back to \<open>SLOT_EMPTY\<close> by the
  consumer. Here an operation runs without interference; \<^verbatim>\<open>RB_Mpsc_Conc\<close> splits the same
  operations into their atomic accesses. The consumer's \<open>static __thread size_t local_head\<close> is
  an argument and a result of its operations.
\<close>

section \<open>The operations\<close>

definition Push_MpscRingBuf :: "ring \<Rightarrow> src \<Rightarrow> size_t \<Rightarrow> int \<times> ring" where
  "Push_MpscRingBuf r args sz =
     (if r_objSize r < sz then (RINGBUF_PUSH_SIZE_TOO_LARGE, r)
      else
        let curr_head = r_head r;
            curr_tail = r_tail r
        in if r_objNum r \<le> curr_head - curr_tail then (RINGBUF_FULL, r)
           else
             let (success, curr_head, r) = cas_head r curr_head (curr_head + 1)
             in if \<not> success then (RINGBUF_CONTENTION, r)
                else
                  let idx = curr_head AND r_mask r;
                      r = memcpy_in r (GET_BUFFER r idx) args (unat sz);
                      r = store_slot r idx (ucast SLOT_VALID)
                  in (ssize_of curr_head, r))"

text \<open>The slot's value is converted to \<^verbatim>\<open>enum SlotStat\<close>, an \<open>unsigned int\<close>.\<close>

definition Pop_MpscRingBuf ::
    "size_t \<Rightarrow> ring \<Rightarrow> size_t \<Rightarrow> int \<times> byte list option \<times> size_t \<times> ring" where
  "Pop_MpscRingBuf local_head r sz =
     (if r_objSize r < sz then (RINGBUF_POP_SIZE_TOO_LARGE, None, local_head, r)
      else
        let curr_tail = r_tail r;
            drained = (local_head = curr_tail);
            local_head = (if drained then r_head r else local_head)
        in if drained \<and> local_head = curr_tail then (RINGBUF_EMPTY, None, local_head, r)
           else
             let idx = curr_tail AND r_mask r;
                 slot_stat = ucast (load_slot r idx) :: c_int
             in if slot_stat AND SLOT_EMPTY \<noteq> 0
                then (RINGBUF_SLOT_WRITING_DATA, None, local_head, r)
                else if slot_stat AND SLOT_UNKNOWN \<noteq> 0
                then
                  let r = store_slot r idx (ucast SLOT_EMPTY);
                      r = r\<lparr>r_tail := curr_tail + 1\<rparr>
                  in (RINGBUF_SLOT_STAT_UNKNOWN, None, local_head, r)
                else
                  let buf = memcpy_out r (GET_BUFFER r idx) (unat sz);
                      r = store_slot r idx (ucast SLOT_EMPTY);
                      r = r\<lparr>r_tail := curr_tail + 1\<rparr>
                  in (ssize_of curr_tail, Some buf, local_head, r))"

text \<open>The callback is a parameter, as for the MPMC ring.\<close>

definition Pop_w_cb_MpscRingBuf ::
    "size_t \<Rightarrow> ring \<Rightarrow> (byte list \<Rightarrow> 'a \<Rightarrow> int \<times> 'a) \<Rightarrow> 'a \<Rightarrow> int \<times> 'a \<times> size_t \<times> ring" where
  "Pop_w_cb_MpscRingBuf local_head r cb args =
     (let curr_tail = r_tail r;
          drained = (local_head = curr_tail);
          local_head = (if drained then r_head r else local_head)
      in if drained \<and> local_head = curr_tail then (RINGBUF_EMPTY, args, local_head, r)
         else
           let idx = curr_tail AND r_mask r;
               slot_stat = ucast (load_slot r idx) :: c_int
           in if slot_stat AND SLOT_EMPTY \<noteq> 0
              then (RINGBUF_SLOT_WRITING_DATA, args, local_head, r)
              else if slot_stat AND SLOT_UNKNOWN \<noteq> 0
              then
                let r = store_slot r idx (ucast SLOT_EMPTY);
                    r = r\<lparr>r_tail := curr_tail + 1\<rparr>
                in (RINGBUF_SLOT_STAT_UNKNOWN, args, local_head, r)
              else
                let (rc, args) = cb (memcpy_out r (GET_BUFFER r idx) (osz r)) args;
                    r = store_slot r idx (ucast SLOT_EMPTY);
                    r = r\<lparr>r_tail := curr_tail + 1\<rparr>
                in (rc, args, local_head, r))"

definition Is_empty_MpscRingBuf :: "ring \<Rightarrow> bool" where
  "Is_empty_MpscRingBuf r = (r_head r = r_tail r)"

definition Is_full_MpscRingBuf :: "ring \<Rightarrow> bool" where
  "Is_full_MpscRingBuf r = (r_objNum r \<le> r_head r - r_tail r)"

definition Capacity_MpscRingBuf :: "ring \<Rightarrow> size_t" where
  "Capacity_MpscRingBuf r = r_objNum r"

definition Size_MpscRingBuf :: "ring \<Rightarrow> size_t" where
  "Size_MpscRingBuf r = r_head r - r_tail r"

section \<open>The invariant: what the slots say\<close>

text \<open>
  Between operations the places of the stored objects are valid and all others empty. Nothing
  is asked of the consumer's cache, nor of the size of the positions.
\<close>

definition slot_at :: "ring \<Rightarrow> size_t \<Rightarrow> size_t" where
  "slot_at r w = load_slot r (w AND r_mask r)"

definition mpsc_ok :: "ring \<Rightarrow> bool" where
  "mpsc_ok r \<longleftrightarrow> ring_wf r \<and> slots_wf r \<and> count r \<le> cap r \<and>
     (\<forall>i < cap r. slot_at r (r_tail r + of_nat i) =
        (if i < count r then ucast SLOT_VALID else ucast SLOT_EMPTY))"

lemma slot_at_store:
  assumes "ring_wf r" "slots_wf r"
  shows "slot_at (store_slot r (v AND r_mask r) x) w =
    (if unat w mod cap r = unat v mod cap r then x else slot_at r w)"
  using seq_at_store [OF assms, of "unat v" x "unat w"] by (simp add: seq_at_def slot_at_def)

lemma slot_at_frame [simp]:
  "slot_at (r\<lparr>r_head := h\<rparr>) w = slot_at r w" "slot_at (r\<lparr>r_tail := t\<rparr>) w = slot_at r w"
  "slot_at (memcpy_in r a src n) w = slot_at r w" "slot_at (write_byte r a b) w = slot_at r w"
  by (simp_all add: slot_at_def load_slot_def)

text \<open>Positions less than a lap apart use different slots.\<close>

lemma same_slot_iff:
  assumes wf: "ring_wf r" and i: "i < cap r" "j < cap r"
  shows "unat (w + of_nat i :: size_t) mod cap r = unat (w + of_nat j :: size_t) mod cap r \<longleftrightarrow> i = j"
  using mod_less_distinct [of "unat w + i" "unat w + j" "cap r"]
    mod_less_distinct [of "unat w + j" "unat w + i" "cap r"] i
  unfolding position_mod [OF wf] by (cases i j rule: linorder_cases) auto

lemma lap_same_slot:
  assumes wf: "ring_wf r"
  shows "unat (w + of_nat (cap r) :: size_t) mod cap r = unat w mod cap r"
  unfolding position_mod [OF wf] by simp

lemma mpsc_ok_push:
  assumes ok: "mpsc_ok r" and room: "count r < cap r"
    and q: "geom q = geom r" "r_head q = r_head r + 1" "r_tail q = r_tail r" "cells q = cells r"
  shows "mpsc_ok (store_slot q (r_head r AND r_mask q) (ucast SLOT_VALID))" (is "mpsc_ok ?r'")
proof -
  note geo = geom_eqD [OF q(1)]
  have wf: "ring_wf q" "slots_wf q" using ok by (simp_all add: mpsc_ok_def geo)
  have small: "count r < 2 ^ 64 - 1" using wf_cap_le [of r] ok room by (simp add: mpsc_ok_def)
  have cnt: "count q = Suc (count r)" using count_push [OF small] by (simp add: count_def q)
  have head: "r_head r = r_tail r + of_nat (count r)" by (rule head_eq_tail_plus)
  have same: "slot_at q w = slot_at r w" for w by (simp add: slot_at_def load_slot_def geo q(4))
  have "slot_at ?r' (r_tail r + of_nat i) = (if i = count r then ucast SLOT_VALID else slot_at r (r_tail r + of_nat i))"
    if "i < cap r" for i
    unfolding slot_at_store [OF wf] unfolding head
    using same_slot_iff [OF wf(1), of i "count r" "r_tail r"] that room by (simp add: geo same)
  then show ?thesis
    using ok room by (auto simp: mpsc_ok_def cnt wf geo q less_Suc_eq)
qed

lemma mpsc_ok_pop:
  assumes ok: "mpsc_ok r" and ne: "0 < count r"
  shows "mpsc_ok ((store_slot r (r_tail r AND r_mask r) (ucast SLOT_EMPTY))\<lparr>r_tail := r_tail r + 1\<rparr>)"
    (is "mpsc_ok ?r'")
proof -
  have wf: "ring_wf r" "slots_wf r" and le: "count r \<le> cap r" using ok by (simp_all add: mpsc_ok_def)
  have cnt: "count ?r' = count r - 1" using count_pop [OF ne] by (simp add: count_def)
  have "slot_at ?r' (r_tail r + 1 + of_nat i) =
      (if i < count r - 1 then ucast SLOT_VALID else ucast SLOT_EMPTY)" if i: "i < cap r" for i
  proof -
    have pos: "r_tail r + 1 + of_nat i = r_tail r + of_nat (Suc i)" by (simp add: add.assoc)
    show ?thesis
    proof (cases "Suc i = cap r")
      case True
      then have "\<not> i < count r - 1" using le by simp
      then show ?thesis
        unfolding pos True using lap_same_slot [OF wf(1), of "r_tail r"] by (simp add: slot_at_store [OF wf])
    next
      case False
      then have "Suc i < cap r" using i by simp
      then have "unat (r_tail r + of_nat (Suc i)) mod cap r \<noteq> unat (r_tail r) mod cap r"
        using same_slot_iff [OF wf(1), of "Suc i" 0 "r_tail r"] wf_cap_pos [OF wf(1)] by simp
      then show ?thesis
        unfolding pos using ok \<open>Suc i < cap r\<close>
        by (auto simp: slot_at_store [OF wf] mpsc_ok_def simp del: of_nat_Suc)
    qed
  qed
  then show ?thesis
    using wf le cnt by (simp add: mpsc_ok_def)
qed


section \<open>What the operations do\<close>

lemma full_by_count: "r_objNum r \<le> r_head r - r_tail r \<longleftrightarrow> cap r \<le> count r"
  by (simp add: cap_def count_def unat_le_iff)

lemma stat_flags:
  "(ucast (ucast SLOT_VALID :: size_t) :: c_int) AND SLOT_EMPTY = 0"
  "(ucast (ucast SLOT_EMPTY :: size_t) :: c_int) AND SLOT_EMPTY \<noteq> 0"
  "(x :: c_int) AND SLOT_UNKNOWN = 0"
  by (simp_all add: slot_stats)

lemma Push_Mpsc_cases:
  assumes ok: "mpsc_ok r" and call: "Push_MpscRingBuf r args sz = (rc, r')"
  shows "mpsc_ok r' \<and> geom r' = geom r \<and>
    (if r_objSize r < sz then rc = RINGBUF_PUSH_SIZE_TOO_LARGE \<and> r' = r
     else if count r = cap r then rc = RINGBUF_FULL \<and> r' = r
     else rc = ssize_of (r_head r) \<and> r_head r' = r_head r + 1 \<and>
       ring_queue r' = ring_queue r @ [map args [0..<unat sz] @ drop (unat sz) (elem r (r_head r))])"
proof -
  from ok have wf: "ring_wf r" and le: "count r \<le> cap r" by (simp_all add: mpsc_ok_def)
  show ?thesis
  proof (cases "r_objSize r < sz \<or> count r = cap r")
    case True
    then show ?thesis using ok call by (auto simp: Push_MpscRingBuf_def Let_def full_by_count)
  next
    case False
    then have n: "unat sz \<le> osz r" and room: "count r < cap r"
      using le by (simp_all add: osz_def unat_less_iff)
    let ?q = "memcpy_in (r\<lparr>r_head := r_head r + 1\<rparr>) (GET_BUFFER r (r_head r AND r_mask r)) args (unat sz)"
    have res: "rc = ssize_of (r_head r)" "r' = store_slot ?q (r_head r AND r_mask ?q) (ucast SLOT_VALID)"
      using call False le by (auto simp: Push_MpscRingBuf_def Let_def full_by_count cas_head_def)
    have "memcpy_in (r\<lparr>r_head := h\<rparr>) a args k = (memcpy_in r a args k)\<lparr>r_head := h\<rparr>" for h a k
      by (induction k) (simp_all add: write_byte_def)
    then have "ring_queue r' =
        ring_queue r @ [map args [0..<unat sz] @ drop (unat sz) (elem r (r_head r))]"
      using ring_queue_push(2) [OF wf room n, of args] by (simp add: res(2))
    moreover have "mpsc_ok r'"
      unfolding res(2) by (rule mpsc_ok_push [OF ok room]) simp_all
    ultimately show ?thesis using False by (simp add: res)
  qed
qed

text \<open>The code a failed pop returns depends on the cache, nothing else does.\<close>

lemma Pop_Mpsc_cases:
  assumes ok: "mpsc_ok r" and call: "Pop_MpscRingBuf l r sz = (rc, buf, l', r')"
  shows "mpsc_ok r' \<and> geom r' = geom r \<and>
    (if r_objSize r < sz then rc = RINGBUF_POP_SIZE_TOO_LARGE \<and> buf = None \<and> r' = r
     else if count r = 0
     then rc = (if l = r_tail r then RINGBUF_EMPTY else RINGBUF_SLOT_WRITING_DATA) \<and> buf = None \<and> r' = r
     else rc = ssize_of (r_tail r) \<and> buf = Some (take (unat sz) (hd (ring_queue r))) \<and>
       ring_queue r' = tl (ring_queue r))"
proof -
  from ok have wf: "ring_wf r" and pos: "0 < cap r" using wf_cap_pos by (auto simp: mpsc_ok_def)
  have head: "r_head r = r_tail r \<longleftrightarrow> count r = 0" by (simp add: count_def unat_0_iff)
  have slot: "load_slot r (r_tail r AND r_mask r) =
      (if 0 < count r then ucast SLOT_VALID else ucast SLOT_EMPTY)"
    using ok pos by (auto simp: mpsc_ok_def slot_at_def dest: spec [of _ 0])
  show ?thesis
  proof (cases "r_objSize r < sz \<or> count r = 0")
    case True
    then show ?thesis
      using ok call slot head by (auto simp: Pop_MpscRingBuf_def Let_def stat_flags split: if_splits)
  next
    case False
    then have n: "unat sz \<le> osz r" and ne: "0 < count r" by (simp_all add: osz_def unat_less_iff)
    have res: "rc = ssize_of (r_tail r)"
      "buf = Some (memcpy_out r (GET_BUFFER r (r_tail r AND r_mask r)) (unat sz))"
      "r' = (store_slot r (r_tail r AND r_mask r) (ucast SLOT_EMPTY))\<lparr>r_tail := r_tail r + 1\<rparr>"
      using call False slot head ne
      by (auto simp: Pop_MpscRingBuf_def Let_def stat_flags split: if_splits)
    have "ring_queue r' = tl (ring_queue r)"
      using ring_queue_pop(1) [OF ne] by (simp add: res(3) store_slot_def ring_queue_def count_def elem_def memcpy_out_def)
    moreover have "take (unat sz) (hd (ring_queue r)) =
        memcpy_out r (GET_BUFFER r (r_tail r AND r_mask r)) (unat sz)"
      using ring_queue_pop(1) [OF ne] n by (simp add: elem_def memcpy_out_def take_map)
    moreover have "mpsc_ok r'" unfolding res(3) by (rule mpsc_ok_pop [OF ok ne])
    ultimately show ?thesis using False by (simp add: res)
  qed
qed


section \<open>The MPSC ring is a bounded queue\<close>

text \<open>An operation's outcome is read off its effect, as for the SPSC ring.\<close>

fun mpsc_do :: "size_t \<times> ring \<Rightarrow> qop \<Rightarrow> qres \<times> size_t \<times> ring" where
  "mpsc_do (l, r) (Enq v) =
     (let (rc, r') = Push_MpscRingBuf r ((!) v) (r_objSize r)
      in (Pushed (r_head r' \<noteq> r_head r), l, r'))"
| "mpsc_do (l, r) Deq =
     (let (rc, buf, l', r') = Pop_MpscRingBuf l r (r_objSize r) in (Popped buf, l', r'))"

lemma mpsc_do_refines:
  assumes ok: "mpsc_ok (snd s)" and x: "op_fits (osz (snd s)) x" and call: "mpsc_do s x = (y, t)"
  shows "mpsc_ok (snd t) \<and> geom (snd t) = geom (snd s) \<and>
    spec_op (cap (snd s)) (ring_queue (snd s)) x = (y, ring_queue (snd t))"
proof -
  obtain l r where s: "s = (l, r)" by (cases s)
  have le: "count r \<le> cap r" and ok': "mpsc_ok r" using ok by (simp_all add: s mpsc_ok_def)
  show ?thesis
  proof (cases x)
    case (Enq v)
    obtain rc r' where push: "Push_MpscRingBuf r ((!) v) (r_objSize r) = (rc, r')" by fastforce
    then have res: "y = Pushed (r_head r' \<noteq> r_head r)" "t = (l, r')" using call by (simp_all add: s Enq)
    have v: "length v = osz r" using x by (simp add: s Enq)
    then have "map ((!) v) [0..<unat (r_objSize r)] = v"
      by (auto simp: osz_def intro: nth_equalityI)
    with Push_Mpsc_cases [OF ok' push] le v show ?thesis
      by (auto simp: s res Enq osz_def split: if_splits)
  next
    case Deq
    obtain rc buf l' r' where pop: "Pop_MpscRingBuf l r (r_objSize r) = (rc, buf, l', r')"
      by (metis prod_cases4)
    then have res: "y = Popped buf" "t = (l', r')" using call by (simp_all add: s Deq)
    note cases = Pop_Mpsc_cases [OF ok' pop]
    show ?thesis
    proof (cases "ring_queue r")
      case Nil
      then have "count r = 0" by (metis length_ring_queue list.size(3))
      with cases Nil show ?thesis by (auto simp: s res Deq)
    next
      case (Cons v q)
      then have ne: "0 < count r" by (metis length_ring_queue length_greater_0_conv list.distinct(1))
      have "v = elem r (r_tail r)" using ring_queue_pop(1) [OF ne] Cons by simp
      then have "take (unat (r_objSize r)) v = v" by (simp flip: osz_def)
      with cases Cons ne show ?thesis by (simp add: s res Deq)
    qed
  qed
qed

interpretation mpsc: bounded_queue "\<lambda>s. mpsc_ok (snd s)" "\<lambda>_ _. True" "\<lambda>s. ring_queue (snd s)"
  "\<lambda>s. cap (snd s)" "\<lambda>s. osz (snd s)" mpsc_do
proof (unfold_locales, goal_cases)
  case (1 s n x)
  then show ?case using mpsc_do_refines [OF 1(1,3)] by (metis surjective_pairing)
next
  case (2 s n x)
  then show ?case using mpsc_do_refines [OF 2(1,3)] by (metis geom_eqD(6,7) surjective_pairing)
next
  case (3 s n x)
  then show ?case using mpsc_do_refines [OF 3(1,3)] by (metis surjective_pairing)
next
  case (4 s)
  then show ?case by (simp add: mpsc_ok_def)
qed

lemma mpsc_ok_init:
  assumes "good_capacity n" "layout_fits n sz"
  shows "mpsc_ok (init_ring r0 (get_total_size n sz MPSC_SLOT) n m fd MPSC_SLOT)"
proof -
  let ?r = "init_ring r0 (get_total_size n sz MPSC_SLOT) n m fd MPSC_SLOT"
  have u: "slot_mode MPSC_SLOT" "MPSC_SLOT = MPMC_SLOT \<or> MPSC_SLOT = MPSC_SLOT"
    by (simp_all add: slot_mode_def)
  have "slot_at ?r (of_nat k) = 1" for k
    using seq_at_init_ring [OF assms u(2), of r0 m fd k]
    by (simp add: seq_at_def slot_at_def slot_flags)
  then show ?thesis
    using init_ring_wf [OF assms u(1)] init_slot_ring_wf [OF assms(2) u(2)]
    by (simp add: mpsc_ok_def slot_stats)
qed

section \<open>Properties\<close>

text \<open>C11: A ring made by \<^verbatim>\<open>get_buf\<close> with status slots is a FIFO queue: whatever the consumer's
  cache holds, any sequence of whole-object pushes and pops gives, result by result, what the
  same sequence gives on an empty list bounded by the capacity; in particular a batch comes out
  unchanged and in order.\<close>

theorem mpsc_fresh_fifo:
  assumes "good_capacity n" "layout_fits n sz"
    and "r = init_ring r0 (get_total_size n sz MPSC_SLOT) n m fd MPSC_SLOT"
    and "list_all (op_fits (osz r)) xs"
    and "length vs \<le> unat n" "list_all (\<lambda>v. length v = osz r) vs"
  shows "fst (run_ops mpsc_do (l, r) xs) = fst (run_ops (spec_op (unat n)) [] xs) \<and>
    fst (run_ops mpsc_do (l, r) (map Enq vs @ replicate (length vs) Deq)) =
      replicate (length vs) (Pushed True) @ map (Popped \<circ> Some) vs"
proof -
  have "mpsc_ok r" unfolding assms(3) by (rule mpsc_ok_init [OF assms(1,2)])
  moreover have "ring_queue r = []" "cap r = unat n"
    using assms(3) by (simp_all add: ring_queue_Nil_iff)
  ultimately show ?thesis
    using mpsc.run_refines [of "(l, r)" xs] mpsc.batch_in_order [of "(l, r)" vs] assms(4-6) by simp
qed

theorem mpsc_fresh_fifo_witness:
  "fst (run_ops mpsc_do (77, make_ring 4 8 MPSC_SLOT)
     [Deq, Enq (replicate 64 1), Enq (replicate 64 2), Deq, Deq]) =
   [Popped None, Pushed True, Pushed True, Popped (Some (replicate 64 1)),
    Popped (Some (replicate 64 2))]"
proof -
  have "osz (make_ring 4 8 MPSC_SLOT) = 64" by code_simp
  then have "list_all (op_fits (osz (make_ring 4 8 MPSC_SLOT)))
      [Deq, Enq (replicate 64 1), Enq (replicate 64 2), Deq, Deq]" by simp
  from mpsc_fresh_fifo [OF make_ring_4_8 make_ring_def this, of "[]"] show ?thesis by simp
qed

text \<open>C37: \<^verbatim>\<open>Push_MpscRingBuf\<close> and \<^verbatim>\<open>Pop_MpscRingBuf\<close> on every branch, undisturbed, for any value of the
  consumer's cache. The cache never makes a pop hand out something that is not there: an empty
  ring is left alone, since its slot is empty. But with a cache that is not the tail (a new
  consumer thread, or one that also uses another ring) the code returned for an empty ring is
  \<^verbatim>\<open>RINGBUF_SLOT_WRITING_DATA\<close>, documented as a producer writing the slot, although head and tail
  are equal and no producer has a slot; only with a cache that is the tail it is \<^verbatim>\<open>RINGBUF_EMPTY\<close>.\<close>

theorem mpsc_push_pop_correct:
  assumes "mpsc_ok r" "Push_MpscRingBuf r args sz = (prc, pr)"
    and "Pop_MpscRingBuf l r sz = (crc, buf, l', cr)"
  shows "mpsc_ok pr \<and> mpsc_ok cr \<and>
    (if r_objSize r < sz then prc = RINGBUF_PUSH_SIZE_TOO_LARGE \<and> pr = r
     else if length (ring_queue r) = cap r then prc = RINGBUF_FULL \<and> pr = r
     else prc = ssize_of (r_head r) \<and> ring_queue pr =
       ring_queue r @ [map args [0..<unat sz] @ drop (unat sz) (elem r (r_head r))]) \<and>
    (if r_objSize r < sz then crc = RINGBUF_POP_SIZE_TOO_LARGE \<and> buf = None \<and> cr = r
     else if ring_queue r = []
     then crc = (if l = r_tail r then RINGBUF_EMPTY else RINGBUF_SLOT_WRITING_DATA) \<and>
       r_head r = r_tail r \<and> buf = None \<and> cr = r
     else crc = ssize_of (r_tail r) \<and> buf = Some (take (unat sz) (hd (ring_queue r))) \<and>
       ring_queue cr = tl (ring_queue r))"
proof -
  have "ring_queue r = [] \<longleftrightarrow> count r = 0" by (metis length_ring_queue length_0_conv)
  moreover have "r_head r = r_tail r" if "ring_queue r = []" using that by (simp add: ring_queue_Nil_iff)
  ultimately show ?thesis
    using Push_Mpsc_cases [OF assms(1,2)] Pop_Mpsc_cases [OF assms(1,3)]
    by (cases "r_objSize r < sz"; cases "count r = cap r"; cases "count r = 0") simp_all
qed

text \<open>One object goes through a new ring; then its consumer finds the ring empty, and a new thread is
  told that a producer is writing.\<close>

theorem mpsc_push_pop_correct_witness:
  "(let (prc, r1) = Push_MpscRingBuf (make_ring 4 8 MPSC_SLOT) (\<lambda>i. 7) 2;
        (crc, buf, l, r2) = Pop_MpscRingBuf 0 r1 2
    in prc = 0 \<and> crc = 0 \<and> buf = Some [7, 7] \<and> ring_queue r2 = [] \<and>
       (case Pop_MpscRingBuf l r2 2 of (rc, buf, _, r3) \<Rightarrow> rc = RINGBUF_EMPTY \<and> buf = None \<and> r3 = r2) \<and>
       (case Pop_MpscRingBuf 0 r2 2 of (rc, buf, _, r3) \<Rightarrow> rc = RINGBUF_SLOT_WRITING_DATA \<and> buf = None \<and> r3 = r2))"
proof -
  let ?r = "make_ring 4 8 MPSC_SLOT"
  let ?p = "Push_MpscRingBuf ?r (\<lambda>i. 7) 2"
  let ?r1 = "snd ?p"
  let ?q = "Pop_MpscRingBuf 0 ?r1 2"
  let ?l = "fst (snd (snd ?q))"
  let ?r2 = "snd (snd (snd ?q))"
  have vals: "fst ?p = 0" "fst ?q = 0" "fst (snd ?q) = Some [7, 7]" "?l = 1"
    "r_tail ?r2 = 1" "r_head ?r2 = 1" "\<not> r_objSize ?r2 < 2" by code_simp+
  have pair: "?p = (fst ?p, ?r1)" and quad: "\<And>x. x = (fst x, fst (snd x), fst (snd (snd x)), snd (snd (snd x)))"
    by simp_all
  have ok: "mpsc_ok ?r" unfolding make_ring_def by (rule mpsc_ok_init [OF make_ring_4_8])
  have ok1: "mpsc_ok ?r1" using mpsc_push_pop_correct [OF ok pair quad] by (rule conjunct1)
  have ok2: "mpsc_ok ?r2" using mpsc_push_pop_correct [OF ok1 surjective_pairing quad] by blast
  have empty: "ring_queue ?r2 = []" by (simp add: ring_queue_Nil_iff vals)
  have code: "fst (Pop_MpscRingBuf c ?r2 2) = (if c = 1 then RINGBUF_EMPTY else RINGBUF_SLOT_WRITING_DATA) \<and>
      fst (snd (Pop_MpscRingBuf c ?r2 2)) = None \<and> snd (snd (snd (Pop_MpscRingBuf c ?r2 2))) = ?r2" for c
    using mpsc_push_pop_correct [OF ok2 surjective_pairing quad, of "\<lambda>i. 7" 2 c] empty vals by simp
  show ?thesis
    unfolding Let_def case_prod_beta using vals empty code [of ?l] code [of 0] by simp
qed

text \<open>The callback variant of the MPSC pop hands the callback the object the copying pop would
  have returned, leaves the ring and the cache as that does, and returns what the callback
  returned; when there is no object to hand out it does not call it. This holds in every state.\<close>

lemma mpsc_pop_w_cb_equiv:
  "Pop_w_cb_MpscRingBuf l r cb args =
    (case Pop_MpscRingBuf l r (r_objSize r) of
       (rc, None, l', r') \<Rightarrow> (rc, args, l', r')
     | (_, Some buf, l', r') \<Rightarrow> (fst (cb buf args), snd (cb buf args), l', r'))"
  by (simp add: Pop_w_cb_MpscRingBuf_def Pop_MpscRingBuf_def Let_def osz_def split_beta)

text \<open>The branch for an unknown slot status is dead: \<^verbatim>\<open>SLOT_UNKNOWN\<close> is 0, so
  \<open>slot_stat & SLOT_UNKNOWN\<close> never holds. In no state, with no cache, does a pop return
  \<^verbatim>\<open>RINGBUF_SLOT_STAT_UNKNOWN\<close> (positions below \<open>2 ^ 63\<close>); a slot whose status is 0 is taken
  for a valid one, and its bytes are handed out.\<close>

lemma mpsc_unknown_status_dead:
  assumes "unat (r_tail r) < 2 ^ 63"
  shows "fst (Pop_MpscRingBuf l r sz) \<noteq> RINGBUF_SLOT_STAT_UNKNOWN \<and>
    (sz \<le> r_objSize r \<longrightarrow> r_head r \<noteq> r_tail r \<longrightarrow> load_slot r (r_tail r AND r_mask r) = 0 \<longrightarrow>
      fst (Pop_MpscRingBuf l r sz) = ssize_of (r_tail r) \<and>
      fst (snd (Pop_MpscRingBuf l r sz)) =
        Some (memcpy_out r (GET_BUFFER r (r_tail r AND r_mask r)) (unat sz)))"
proof -
  have "ssize_of (r_tail r) \<noteq> RINGBUF_SLOT_STAT_UNKNOWN"
    unfolding ssize_of_small [OF assms] err_codes by linarith
  then show ?thesis
    by (auto simp: Pop_MpscRingBuf_def Let_def stat_flags err_codes not_less)
qed

text \<open>The four observers of the MPSC ring report the queue it holds.\<close>

lemma mpsc_observers:
  assumes "mpsc_ok r"
  shows "(Is_empty_MpscRingBuf r \<longleftrightarrow> ring_queue r = []) \<and>
    (Is_full_MpscRingBuf r \<longleftrightarrow> length (ring_queue r) = cap r) \<and>
    unat (Size_MpscRingBuf r) = length (ring_queue r) \<and>
    Capacity_MpscRingBuf r = of_nat (cap r)"
  using assms ring_queue_Nil_iff [of r] full_by_count [of r]
  by (auto simp: mpsc_ok_def Is_empty_MpscRingBuf_def Is_full_MpscRingBuf_def Size_MpscRingBuf_def
      Capacity_MpscRingBuf_def count_def cap_def)

end
