(* ===== verification/RB_Mpsc_Conc.thy ===== *)
theory RB_Mpsc_Conc
  imports RB_Mpsc RB_Steps
begin

text \<open>
  The MPSC ring under concurrency: any number of producer threads and one consumer thread,
  interleaved at every access to shared memory, single copied bytes included. The producers'
  steps are the code of \<^verbatim>\<open>Push_MpscRingBuf\<close>, the consumer's that of \<^verbatim>\<open>Pop_MpscRingBuf\<close> and
  \<^verbatim>\<open>Pop_w_cb_MpscRingBuf\<close>, cut at those accesses.
\<close>

section \<open>The system\<close>

datatype mpsc_ppc =
    q_idle: QIdle
  | QHead src size_t
  | QTail src size_t size_t
  | QCas src size_t size_t
  | QCopy src size_t size_t nat

text \<open>
  After its copy the consumer makes two stores: the slot's status (out of \<open>DCopy\<close>), then the
  tail (\<open>DTailStore\<close>). \<open>DUnknown\<close> is the same for the branch of the unknown status.
\<close>

datatype mpsc_cpc =
    d_idle: DIdle
  | DTail dest
  | DHead dest size_t
  | DSlot dest size_t
  | DCopy dest size_t "byte list"
  | DTailStore dest size_t "byte list"
  | DUnknown size_t

record mpsc_sys =
  q_ring :: ring
  q_pcs :: "nat \<Rightarrow> mpsc_ppc"
  q_head :: size_t
  d_pc :: mpsc_cpc

datatype mpsc_action = QPush nat src size_t | QStep nat | DPop dest | DStep

text \<open>
  Events: a producer obtained the next ticket for an object, the consumer took an object out,
  an operation returned.
\<close>

datatype mpsc_event = QReserve "byte list" | DGet "byte list" | QRet nat int | DRet int

fun mpsc_producer_step :: "nat \<Rightarrow> ring \<Rightarrow> mpsc_ppc \<Rightarrow> ring \<times> mpsc_ppc \<times> mpsc_event list" where
  "mpsc_producer_step t r QIdle = (r, QIdle, [])"
| "mpsc_producer_step t r (QHead args sz) = (r, QTail args sz (r_head r), [])"
| "mpsc_producer_step t r (QTail args sz curr_head) =
     (let curr_tail = r_tail r in
      if r_objNum r \<le> curr_head - curr_tail then (r, QIdle, [QRet t RINGBUF_FULL])
      else (r, QCas args sz curr_head, []))"
| "mpsc_producer_step t r (QCas args sz curr_head) =
     (let (success, curr_head, r') = cas_head r curr_head (curr_head + 1)
      in if \<not> success then (r', QIdle, [QRet t RINGBUF_CONTENTION])
         else (r', QCopy args sz curr_head 0, [QReserve (map args [0..<unat sz])]))"
| "mpsc_producer_step t r (QCopy args sz curr_head i) =
     (let idx = curr_head AND r_mask r in
      if i < unat sz
      then (write_byte r (GET_BUFFER r idx + of_nat i) (args i), QCopy args sz curr_head (Suc i), [])
      else (store_slot r idx (ucast SLOT_VALID), QIdle, [QRet t (ssize_of curr_head)]))"

text \<open>The consumer's step also takes and returns its thread-local cache.\<close>

fun mpsc_consumer_step ::
    "ring \<Rightarrow> size_t \<Rightarrow> mpsc_cpc \<Rightarrow> ring \<times> size_t \<times> mpsc_cpc \<times> mpsc_event list" where
  "mpsc_consumer_step r local_head DIdle = (r, local_head, DIdle, [])"
| "mpsc_consumer_step r local_head (DTail d) =
     (let curr_tail = r_tail r in
      if local_head = curr_tail then (r, local_head, DHead d curr_tail, [])
      else (r, local_head, DSlot d curr_tail, []))"
| "mpsc_consumer_step r local_head (DHead d curr_tail) =
     (let local_head = r_head r in
      if local_head = curr_tail then (r, local_head, DIdle, [DRet RINGBUF_EMPTY])
      else (r, local_head, DSlot d curr_tail, []))"
| "mpsc_consumer_step r local_head (DSlot d curr_tail) =
     (let slot_stat = ucast (load_slot r (curr_tail AND r_mask r)) :: c_int in
      if slot_stat AND SLOT_EMPTY \<noteq> 0
      then (r, local_head, DIdle, [DRet RINGBUF_SLOT_WRITING_DATA])
      else if slot_stat AND SLOT_UNKNOWN \<noteq> 0
      then (store_slot r (curr_tail AND r_mask r) (ucast SLOT_EMPTY), local_head,
            DUnknown curr_tail, [])
      else (r, local_head, DCopy d curr_tail [], []))"
| "mpsc_consumer_step r local_head (DCopy d curr_tail buf) =
     (let idx = curr_tail AND r_mask r in
      if length buf < want r d
      then (r, local_head,
            DCopy d curr_tail (buf @ [bytes r (GET_BUFFER r idx + of_nat (length buf))]), [])
      else (store_slot r idx (ucast SLOT_EMPTY), local_head, DTailStore d curr_tail buf, []))"
| "mpsc_consumer_step r local_head (DTailStore d curr_tail buf) =
     (r\<lparr>r_tail := curr_tail + 1\<rparr>, local_head, DIdle,
      [DGet buf, DRet (answer d curr_tail buf)])"
| "mpsc_consumer_step r local_head (DUnknown curr_tail) =
     (r\<lparr>r_tail := curr_tail + 1\<rparr>, local_head, DIdle, [DRet RINGBUF_SLOT_STAT_UNKNOWN])"

fun mpsc_step :: "mpsc_sys \<Rightarrow> mpsc_action \<Rightarrow> mpsc_sys \<times> mpsc_event list" where
  "mpsc_step s (QPush t args sz) =
     (if \<not> q_idle (q_pcs s t) then (s, [])
      else if r_objSize (q_ring s) < sz then (s, [QRet t RINGBUF_PUSH_SIZE_TOO_LARGE])
      else (s\<lparr>q_pcs := (q_pcs s)(t := QHead args sz)\<rparr>, []))"
| "mpsc_step s (DPop (ToBuf sz)) =
     (if \<not> d_idle (d_pc s) then (s, [])
      else if r_objSize (q_ring s) < sz then (s, [DRet RINGBUF_POP_SIZE_TOO_LARGE])
      else (s\<lparr>d_pc := DTail (ToBuf sz)\<rparr>, []))"
| "mpsc_step s (DPop (ToCb cb)) =
     (if \<not> d_idle (d_pc s) then (s, []) else (s\<lparr>d_pc := DTail (ToCb cb)\<rparr>, []))"
| "mpsc_step s (QStep t) =
     (let (r, pc, e) = mpsc_producer_step t (q_ring s) (q_pcs s t)
      in (s\<lparr>q_ring := r, q_pcs := (q_pcs s)(t := pc)\<rparr>, e))"
| "mpsc_step s DStep =
     (let (r, l, pc, e) = mpsc_consumer_step (q_ring s) (q_head s) (d_pc s)
      in (s\<lparr>q_ring := r, q_head := l, d_pc := pc\<rparr>, e))"

text \<open>The consumer's cache may hold anything at the start.\<close>

definition mpsc_start :: "size_t \<Rightarrow> ring \<Rightarrow> mpsc_sys" where
  "mpsc_start l r = \<lparr>q_ring = r, q_pcs = (\<lambda>_. QIdle), q_head = l, d_pc = DIdle\<rparr>"

fun pushed :: "mpsc_event list \<Rightarrow> byte list list" where
  "pushed [] = []"
| "pushed (QReserve v # es) = v # pushed es"
| "pushed (_ # es) = pushed es"

fun taken :: "mpsc_event list \<Rightarrow> byte list list" where
  "taken [] = []"
| "taken (DGet v # es) = v # taken es"
| "taken (_ # es) = taken es"

lemma mpsc_history_append [simp]:
  "pushed (h @ e) = pushed h @ pushed e" "taken (h @ e) = taken h @ taken e"
proof -
  show "pushed (h @ e) = pushed h @ pushed e" by (induction h rule: pushed.induct) simp_all
  show "taken (h @ e) = taken h @ taken e" by (induction h rule: taken.induct) simp_all
qed

section \<open>The invariant\<close>

text \<open>
  \<open>P\<close> is the list of pushed objects in ticket order, \<open>Q\<close> the list of objects taken out; their
  lengths are the unbounded positions. Within the lap that starts at the tail, a slot is valid
  exactly when its object has been pushed completely and not yet taken; a slot whose producer
  is still at work is empty, and so is the consumer's between its two stores.
\<close>

definition slot_valid :: "ring \<Rightarrow> nat \<Rightarrow> bool" where
  "slot_valid r k \<longleftrightarrow> seq_at r k = ucast SLOT_VALID"

definition slot_empty :: "ring \<Rightarrow> nat \<Rightarrow> bool" where
  "slot_empty r k \<longleftrightarrow> seq_at r k = ucast SLOT_EMPTY"

fun fills :: "mpsc_ppc \<Rightarrow> nat option" where
  "fills (QCopy args sz ch i) = Some (unat ch)"
| "fills _ = None"

text \<open>Whether the consumer has emptied the slot at the tail without having moved the tail yet.\<close>

fun half_done :: "mpsc_cpc \<Rightarrow> bool" where
  "half_done (DTailStore d ct buf) = True"
| "half_done _ = False"

definition mpsc_ring_inv :: "ring \<Rightarrow> byte list list \<Rightarrow> nat \<Rightarrow> bool \<Rightarrow> bool" where
  "mpsc_ring_inv r P T half \<longleftrightarrow> ring_wf r \<and> slots_wf r \<and>
     r_head r = of_nat (length P) \<and> r_tail r = of_nat T \<and>
     T \<le> length P \<and> length P \<le> T + cap r \<and> length P + cap r < 2 ^ 64 \<and>
     (\<forall>k. slot_valid r k \<or> slot_empty r k) \<and>
     (\<forall>k. T \<le> k \<and> k < T + cap r \<and> slot_valid r k \<longrightarrow>
        k < length P \<and> holds_bytes r k (P ! k)) \<and>
     (half \<longrightarrow> T < length P \<and> slot_empty r T)"

fun producer_ok :: "ring \<Rightarrow> byte list list \<Rightarrow> nat \<Rightarrow> bool \<Rightarrow> mpsc_ppc \<Rightarrow> bool" where
  "producer_ok r P T half QIdle \<longleftrightarrow> True"
| "producer_ok r P T half (QHead args sz) \<longleftrightarrow> unat sz \<le> osz r"
| "producer_ok r P T half (QTail args sz ch) \<longleftrightarrow> unat sz \<le> osz r \<and> unat ch \<le> length P"
| "producer_ok r P T half (QCas args sz ch) \<longleftrightarrow> unat sz \<le> osz r \<and> unat ch \<le> length P \<and>
     unat ch < T + cap r"
| "producer_ok r P T half (QCopy args sz ch i) \<longleftrightarrow> unat sz \<le> osz r \<and> T \<le> unat ch \<and>
     unat ch < length P \<and> P ! unat ch = map args [0..<unat sz] \<and> i \<le> unat sz \<and>
     slot_empty r (unat ch) \<and> holds_bytes r (unat ch) (map args [0..<i]) \<and> (half \<longrightarrow> T < unat ch)"

fun consumer_ok :: "ring \<Rightarrow> byte list list \<Rightarrow> nat \<Rightarrow> mpsc_cpc \<Rightarrow> bool" where
  "consumer_ok r P T DIdle \<longleftrightarrow> True"
| "consumer_ok r P T (DTail d) \<longleftrightarrow> want r d \<le> osz r"
| "consumer_ok r P T (DHead d ct) \<longleftrightarrow> want r d \<le> osz r \<and> unat ct = T"
| "consumer_ok r P T (DSlot d ct) \<longleftrightarrow> want r d \<le> osz r \<and> unat ct = T"
| "consumer_ok r P T (DCopy d ct buf) \<longleftrightarrow> want r d \<le> osz r \<and> unat ct = T \<and> slot_valid r T \<and>
     length buf \<le> want r d \<and> holds_bytes r T buf"
| "consumer_ok r P T (DTailStore d ct buf) \<longleftrightarrow> want r d \<le> osz r \<and> unat ct = T \<and> T < length P \<and>
     agree (P ! T) buf"
| "consumer_ok r P T (DUnknown ct) \<longleftrightarrow> False"

definition mpsc_inv_at ::
    "byte list list \<Rightarrow> byte list list \<Rightarrow> ring \<Rightarrow> (nat \<Rightarrow> mpsc_ppc) \<Rightarrow> mpsc_cpc \<Rightarrow> bool" where
  "mpsc_inv_at P Q r pcs pc \<longleftrightarrow>
     mpsc_ring_inv r P (length Q) (half_done pc) \<and>
     (\<forall>t. producer_ok r P (length Q) (half_done pc) (pcs t)) \<and>
     consumer_ok r P (length Q) pc \<and>
     one_owner (fills \<circ> pcs)
       {k. length Q \<le> k \<and> k < length P \<and> slot_empty r k \<and> \<not> (half_done pc \<and> k = length Q)} \<and>
     list_all2 agree (take (length Q) P) Q"


lemma slot_kind_frame [simp]:
  "slot_valid (r\<lparr>r_head := h\<rparr>) k = slot_valid r k" "slot_empty (r\<lparr>r_head := h\<rparr>) k = slot_empty r k"
  "slot_valid (r\<lparr>r_tail := h\<rparr>) k = slot_valid r k" "slot_empty (r\<lparr>r_tail := h\<rparr>) k = slot_empty r k"
  "slot_valid (write_byte r a v) k = slot_valid r k" "slot_empty (write_byte r a v) k = slot_empty r k"
  by (simp_all add: slot_valid_def slot_empty_def)

lemma valid_not_empty: "slot_valid r k \<Longrightarrow> \<not> slot_empty r k"
  by (simp add: slot_valid_def slot_empty_def slot_stats)

text \<open>Tickets less than a lap apart have different slots.\<close>

lemma lap_slots:
  "T \<le> k \<Longrightarrow> k < T + n \<Longrightarrow> T \<le> l \<Longrightarrow> l < T + n \<Longrightarrow> k mod n = l mod n \<longleftrightarrow> k = (l::nat)"
  using mod_less_distinct [of k l n] mod_less_distinct [of l k n]
  by (cases k l rule: linorder_cases) auto

lemma seq_at_store_word:
  assumes "ring_wf r" "slots_wf r"
  shows "seq_at (store_slot r (w AND r_mask r) v) k =
    (if k mod cap r = unat w mod cap r then v else seq_at r k)"
  using seq_at_store [OF assms, of "unat w" v k] by simp

lemma seq_at_lap: "ring_wf r \<Longrightarrow> seq_at r (k + cap r) = seq_at r k"
  by (rule seq_at_mod) simp_all

lemma slots_set_valid:
  assumes wf: "ring_wf r" "slots_wf r" and k: "T \<le> unat w" "unat w < T + cap r"
    and l: "T \<le> l" "l < T + cap r"
  defines "r' \<equiv> store_slot r (w AND r_mask r) (ucast SLOT_VALID)"
  shows "slot_valid r' l \<longleftrightarrow> slot_valid r l \<or> l = unat w"
    and "slot_empty r' l \<longleftrightarrow> slot_empty r l \<and> l \<noteq> unat w"
proof -
  have ne: "(ucast SLOT_VALID :: size_t) \<noteq> ucast SLOT_EMPTY" by (simp add: slot_stats)
  have at: "seq_at r' l = (if l = unat w then ucast SLOT_VALID else seq_at r l)"
    unfolding r'_def seq_at_store_word [OF wf] lap_slots [OF l k] ..
  show "slot_valid r' l \<longleftrightarrow> slot_valid r l \<or> l = unat w" by (simp add: slot_valid_def at)
  show "slot_empty r' l \<longleftrightarrow> slot_empty r l \<and> l \<noteq> unat w" using ne by (simp add: slot_empty_def at)
qed

lemma slots_set_empty:
  assumes wf: "ring_wf r" "slots_wf r" and k: "T \<le> unat w" "unat w < T + cap r"
    and l: "T \<le> l" "l < T + cap r"
  defines "r' \<equiv> store_slot r (w AND r_mask r) (ucast SLOT_EMPTY)"
  shows "slot_valid r' l \<longleftrightarrow> slot_valid r l \<and> l \<noteq> unat w"
    and "slot_empty r' l \<longleftrightarrow> slot_empty r l \<or> l = unat w"
proof -
  have ne: "(ucast SLOT_VALID :: size_t) \<noteq> ucast SLOT_EMPTY" by (simp add: slot_stats)
  have at: "seq_at r' l = (if l = unat w then ucast SLOT_EMPTY else seq_at r l)"
    unfolding r'_def seq_at_store_word [OF wf] lap_slots [OF l k] ..
  show "slot_valid r' l \<longleftrightarrow> slot_valid r l \<and> l \<noteq> unat w" using ne by (simp add: slot_valid_def at)
  show "slot_empty r' l \<longleftrightarrow> slot_empty r l \<or> l = unat w" by (simp add: slot_empty_def at)
qed

lemma slots_kept_two:
  assumes wf: "ring_wf r" "slots_wf r" and all: "\<forall>k. slot_valid r k \<or> slot_empty r k"
    and v: "v = ucast SLOT_VALID \<or> v = ucast SLOT_EMPTY"
  shows "slot_valid (store_slot r (w AND r_mask r) v) k \<or> slot_empty (store_slot r (w AND r_mask r) v) k"
  using all v unfolding slot_valid_def slot_empty_def seq_at_store_word [OF wf] by auto

lemma mpsc_parts:
  assumes "mpsc_inv_at P Q r pcs pc"
  shows "mpsc_ring_inv r P (length Q) (half_done pc)"
    "producer_ok r P (length Q) (half_done pc) (pcs t)"
    "consumer_ok r P (length Q) pc"
    "one_owner (fills \<circ> pcs)
       {k. length Q \<le> k \<and> k < length P \<and> slot_empty r k \<and> \<not> (half_done pc \<and> k = length Q)}"
    "list_all2 agree (take (length Q) P) Q"
  using assms by (simp_all add: mpsc_inv_at_def)

lemma mpsc_position:
  assumes "mpsc_ring_inv r P T half"
  shows "unat (r_head r) = length P" "unat (r_tail r) = T"
proof -
  have "r_head r = of_nat (length P)" "r_tail r = of_nat T" "length P < 2 ^ 64" "T < 2 ^ 64"
    using assms by (auto simp: mpsc_ring_inv_def)
  then show "unat (r_head r) = length P" "unat (r_tail r) = T" by (simp_all only: unat_of_nat64)
qed

section \<open>Every access preserves the invariant\<close>

lemma mpsc_producer_local:
  assumes inv: "mpsc_inv_at P Q r pcs pc" and new: "producer_ok r P (length Q) (half_done pc) q"
    and same: "fills q = fills (pcs t)"
  shows "mpsc_inv_at P Q r (pcs(t := q)) pc"
proof -
  have "fills \<circ> pcs(t := q) = fills \<circ> pcs" using same by (auto simp: fun_eq_iff)
  then show ?thesis using inv new by (simp add: mpsc_inv_at_def)
qed

lemma mpsc_consumer_local:
  assumes inv: "mpsc_inv_at P Q r pcs pc" and new: "consumer_ok r P (length Q) pc'"
    and same: "half_done pc' = half_done pc"
  shows "mpsc_inv_at P Q r pcs pc'"
  using assms by (simp add: mpsc_inv_at_def)

lemma mpsc_inv_reserve:
  assumes inv: "mpsc_inv_at P Q r pcs pc" and t: "pcs t = QCas args sz (r_head r)"
    and small: "length P + 1 + cap r < 2 ^ 64"
  shows "mpsc_inv_at (P @ [map args [0..<unat sz]]) Q (r\<lparr>r_head := r_head r + 1\<rparr>)
    (pcs(t := QCopy args sz (r_head r) 0)) pc" (is "mpsc_inv_at ?P Q ?r ?pcs pc")
proof -
  note ri = mpsc_parts(1) [OF inv]
  let ?T = "length Q" and ?H = "length P"
  have pos: "unat (r_head r) = ?H" by (rule mpsc_position [OF ri])
  have sz: "unat sz \<le> osz r" and room: "?H < ?T + cap r"
    using mpsc_parts(2) [OF inv, of t] by (simp_all add: t pos)
  have T: "?T \<le> ?H" using ri by (simp add: mpsc_ring_inv_def)
  have empty: "slot_empty r ?H" using ri room T by (force simp: mpsc_ring_inv_def)
  have "mpsc_ring_inv ?r ?P ?T (half_done pc)"
    using ri small room by (auto simp: mpsc_ring_inv_def nth_append add.commute)
  moreover have "producer_ok ?r ?P ?T (half_done pc) (?pcs u)" for u
  proof (cases "u = t")
    case True
    then show ?thesis using sz pos T empty ri by (simp add: mpsc_ring_inv_def)
  next
    case False
    then show ?thesis using mpsc_parts(2) [OF inv, of u] by (cases "pcs u") (auto simp: nth_append)
  qed
  moreover have "consumer_ok ?r ?P ?T pc"
    using mpsc_parts(3) [OF inv] by (cases pc) (auto simp: nth_append)
  moreover have "fills (pcs u) \<noteq> Some ?H" for u
    using mpsc_parts(2) [OF inv, of u] by (cases "pcs u") auto
  then have "one_owner ((fills \<circ> pcs)(t := Some ?H))
      {k. ?T \<le> k \<and> k < length ?P \<and> slot_empty ?r k \<and> \<not> (half_done pc \<and> k = ?T)}"
    by (intro one_owner_take [OF mpsc_parts(4) [OF inv]]) (auto simp: t less_Suc_eq)
  ultimately show ?thesis
    using mpsc_parts(5) [OF inv] T by (simp add: mpsc_inv_at_def owner_upd pos)
qed

lemma mpsc_inv_write:
  assumes inv: "mpsc_inv_at P Q r pcs pc" and t: "pcs t = QCopy args sz ch i" and i: "i < unat sz"
  shows "mpsc_inv_at P Q (write_byte r (GET_BUFFER r (ch AND r_mask r) + of_nat i) (args i))
    (pcs(t := QCopy args sz ch (Suc i))) pc" (is "mpsc_inv_at P Q ?r ?pcs pc")
proof -
  note ri = mpsc_parts(1) [OF inv]
  let ?T = "length Q" and ?k = "unat ch"
  have here: "unat sz \<le> osz r" "?T \<le> ?k" "?k < length P" "P ! ?k = map args [0..<unat sz]"
    "slot_empty r ?k" "holds_bytes r ?k (map args [0..<i])" "half_done pc \<longrightarrow> ?T < ?k"
    using mpsc_parts(2) [OF inv, of t] by (simp_all add: t)
  have wf: "ring_wf r" and win: "length P \<le> ?T + cap r" using ri by (simp_all add: mpsc_ring_inv_def)
  have io: "i < osz r" using here(1) i by simp
  have r: "?r = write_byte r (elem_addr r ?k + of_nat i) (args i)" by (simp add: elem_addr_def)
  have next_bytes: "holds_bytes ?r ?k (map args [0..<Suc i])"
    using holds_bytes_write_next [OF wf _ here(6), of "args i"] io unfolding r by simp
  have other: "holds_bytes ?r l p = holds_bytes r l p" if "l \<noteq> ?k" "?T \<le> l" "l < ?T + cap r" for l p
    unfolding r using holds_bytes_write_other [OF wf io, of l ?k] lap_slots [of ?T l "cap r" ?k] that here win
    by simp
  have apart: "slot_valid r l \<Longrightarrow> l \<noteq> ?k" for l using here(5) valid_not_empty by blast
  then have "mpsc_ring_inv ?r P ?T (half_done pc)"
    using ri other by (auto simp: mpsc_ring_inv_def)
  moreover have "producer_ok ?r P ?T (half_done pc) (?pcs u)" for u
  proof (cases "u = t")
    case True
    then show ?thesis using here next_bytes i by simp
  next
    case False
    have "(fills \<circ> pcs) t = Some ?k" by (simp add: t)
    then have "fills (pcs u) \<noteq> Some ?k"
      using mpsc_parts(4) [OF inv] False unfolding one_owner_def by (metis comp_apply)
    then show ?thesis
      using mpsc_parts(2) [OF inv, of u] False other win by (cases "pcs u") auto
  qed
  moreover have "consumer_ok ?r P ?T pc"
    using mpsc_parts(3) [OF inv] other [of ?T] apart [of ?T] wf_cap_pos [OF wf]
    by (cases pc) auto
  moreover have "one_owner ((fills \<circ> pcs)(t := Some ?k))
      {k. ?T \<le> k \<and> k < length P \<and> slot_empty ?r k \<and> \<not> (half_done pc \<and> k = ?T)}"
    by (rule one_owner_keep [OF mpsc_parts(4) [OF inv]]) (simp_all add: t)
  ultimately show ?thesis
    using mpsc_parts(5) [OF inv] by (simp add: mpsc_inv_at_def owner_upd)
qed

lemma mpsc_inv_publish:
  assumes inv: "mpsc_inv_at P Q r pcs pc" and t: "pcs t = QCopy args sz ch i" and i: "\<not> i < unat sz"
  shows "mpsc_inv_at P Q (store_slot r (ch AND r_mask r) (ucast SLOT_VALID)) (pcs(t := QIdle)) pc"
    (is "mpsc_inv_at P Q ?r ?pcs pc")
proof -
  note ri = mpsc_parts(1) [OF inv]
  let ?T = "length Q" and ?k = "unat ch"
  have here: "?T \<le> ?k" "?k < length P" "holds_bytes r ?k (P ! ?k)" "half_done pc \<longrightarrow> ?T < ?k"
    using mpsc_parts(2) [OF inv, of t] i by (auto simp: t)
  have wf: "ring_wf r" "slots_wf r" and win: "length P \<le> ?T + cap r"
    and two: "\<forall>k. slot_valid r k \<or> slot_empty r k"
    using ri by (simp_all add: mpsc_ring_inv_def)
  have k: "?k < ?T + cap r" using here(2) win by simp
  note slots = slots_set_valid [OF wf here(1) k]
  have "mpsc_ring_inv ?r P ?T (half_done pc)"
    using ri here slots slots_kept_two [OF wf two] wf_cap_pos [OF wf(1)] by (auto simp: mpsc_ring_inv_def)
  moreover have "producer_ok ?r P ?T (half_done pc) (?pcs u)" for u
  proof (cases "u = t")
    case False
    have "(fills \<circ> pcs) t = Some ?k" by (simp add: t)
    then have "fills (pcs u) \<noteq> Some ?k"
      using mpsc_parts(4) [OF inv] False unfolding one_owner_def by (metis comp_apply)
    then show ?thesis
      using mpsc_parts(2) [OF inv, of u] False slots(2) win by (cases "pcs u") auto
  qed simp
  moreover have "consumer_ok ?r P ?T pc"
    using mpsc_parts(3) [OF inv] slots(1) [of ?T] wf_cap_pos [OF wf(1)] by (cases pc) auto
  moreover have "one_owner ((fills \<circ> pcs)(t := None))
      {k. ?T \<le> k \<and> k < length P \<and> slot_empty ?r k \<and> \<not> (half_done pc \<and> k = ?T)}"
    by (rule one_owner_drop [OF mpsc_parts(4) [OF inv]]) (use slots(2) win in \<open>auto simp: t\<close>)
  ultimately show ?thesis
    using mpsc_parts(5) [OF inv] by (simp add: mpsc_inv_at_def owner_upd)
qed


text \<open>The consumer's accesses.\<close>

lemma mpsc_inv_read:
  assumes inv: "mpsc_inv_at P Q r pcs (DCopy d ct buf)" and i: "length buf < want r d"
  shows "mpsc_inv_at P Q r pcs
    (DCopy d ct (buf @ [bytes r (GET_BUFFER r (ct AND r_mask r) + of_nat (length buf))]))"
proof (rule mpsc_consumer_local [OF inv])
  have here: "want r d \<le> osz r" "unat ct = length Q" "slot_valid r (length Q)" "holds_bytes r (length Q) buf"
    using mpsc_parts(3) [OF inv] by simp_all
  have "elem_addr r (unat ct) = GET_BUFFER r (ct AND r_mask r)" by (simp add: elem_addr_def)
  then have "bytes r (GET_BUFFER r (ct AND r_mask r) + of_nat (length buf)) =
      byte_at r (length Q) (length buf)"
    by (simp add: byte_at_def here(2))
  then show "consumer_ok r P (length Q)
      (DCopy d ct (buf @ [bytes r (GET_BUFFER r (ct AND r_mask r) + of_nat (length buf))]))"
    using here i holds_bytes_read [OF _ here(4)] by simp
qed simp

lemma mpsc_inv_empty_slot:
  assumes inv: "mpsc_inv_at P Q r pcs (DCopy d ct buf)"
  shows "mpsc_inv_at P Q (store_slot r (ct AND r_mask r) (ucast SLOT_EMPTY)) pcs (DTailStore d ct buf)"
    (is "mpsc_inv_at P Q ?r pcs ?pc")
proof -
  note ri = mpsc_parts(1) [OF inv]
  let ?T = "length Q"
  have here: "want r d \<le> osz r" "unat ct = ?T" "slot_valid r ?T" "holds_bytes r ?T buf"
    using mpsc_parts(3) [OF inv] by simp_all
  have wf: "ring_wf r" "slots_wf r" and win: "length P \<le> ?T + cap r"
    and two: "\<forall>k. slot_valid r k \<or> slot_empty r k"
    using ri by (simp_all add: mpsc_ring_inv_def)
  note pos = wf_cap_pos [OF wf(1)]
  have T: "?T < length P" "holds_bytes r ?T (P ! ?T)"
    using ri here(3) pos by (simp_all add: mpsc_ring_inv_def)
  have slots: "slot_valid ?r l \<longleftrightarrow> slot_valid r l \<and> l \<noteq> ?T" "slot_empty ?r l \<longleftrightarrow> slot_empty r l \<or> l = ?T"
    if "?T \<le> l" "l < ?T + cap r" for l
    using slots_set_empty [OF wf _ _ that, of ct] pos by (simp_all add: here(2))
  have "mpsc_ring_inv ?r P ?T True"
    using ri T slots slots_kept_two [OF wf two] pos by (auto simp: mpsc_ring_inv_def)
  moreover have "producer_ok ?r P ?T True (pcs u)" for u
    using mpsc_parts(2) [OF inv, of u] slots(2) win valid_not_empty [OF here(3)]
    by (cases "pcs u") (auto simp: le_less)
  moreover have "consumer_ok ?r P ?T ?pc"
    using here T holds_bytes_agree by simp
  moreover have "one_owner (fills \<circ> pcs) {k. ?T \<le> k \<and> k < length P \<and> slot_empty ?r k \<and> \<not> (True \<and> k = ?T)}"
    using mpsc_parts(4) [OF inv] slots(2) win by (auto simp: one_owner_def)
  ultimately show ?thesis
    using mpsc_parts(5) [OF inv] by (simp add: mpsc_inv_at_def)
qed

lemma mpsc_inv_tail:
  assumes inv: "mpsc_inv_at P Q r pcs (DTailStore d ct buf)"
  shows "mpsc_inv_at P (Q @ [buf]) (r\<lparr>r_tail := ct + 1\<rparr>) pcs DIdle" (is "mpsc_inv_at P ?Q ?r pcs DIdle")
proof -
  note ri = mpsc_parts(1) [OF inv]
  let ?T = "length Q"
  have here: "unat ct = ?T" "?T < length P" "agree (P ! ?T) buf"
    using mpsc_parts(3) [OF inv] by simp_all
  have wf: "ring_wf r" and two: "\<forall>k. slot_valid r k \<or> slot_empty r k" and empty: "slot_empty r ?T"
    using ri by (simp_all add: mpsc_ring_inv_def)
  have "ct = of_nat ?T" using here(1) by (metis word_of_nat_eq_iff of_nat_unat ucast_id)
  then have tail: "ct + 1 = of_nat (Suc ?T)" by (simp add: add.commute)
  have "slot_empty r (?T + cap r)"
    using empty seq_at_store [of r] by (simp add: slot_empty_def seq_at_lap [OF wf])
  then have last: "\<not> slot_valid r (?T + cap r)" using valid_not_empty by blast
  have win: "slot_valid r k \<Longrightarrow> Suc ?T \<le> k \<Longrightarrow> k < Suc ?T + cap r \<Longrightarrow> k < length P \<and> holds_bytes r k (P ! k)" for k
    using ri last by (cases "k = ?T + cap r") (auto simp: mpsc_ring_inv_def)
  have "mpsc_ring_inv ?r P (Suc ?T) False"
    using ri here(2) win by (auto simp: mpsc_ring_inv_def tail)
  moreover have "producer_ok ?r P (Suc ?T) False (pcs u)" for u
    using mpsc_parts(2) [OF inv, of u] by (cases "pcs u") auto
  moreover have "one_owner (fills \<circ> pcs) {k. Suc ?T \<le> k \<and> k < length P \<and> slot_empty ?r k \<and> \<not> (False \<and> k = Suc ?T)}"
    using mpsc_parts(4) [OF inv] by (auto simp: one_owner_def)
  moreover have "list_all2 agree (take (Suc ?T) P) ?Q"
    using mpsc_parts(5) [OF inv] here(2,3) by (simp add: take_Suc_conv_app_nth list_all2_appendI)
  ultimately show ?thesis by (simp add: mpsc_inv_at_def)
qed


section \<open>Every schedule\<close>

definition mpsc_inv :: "nat \<Rightarrow> mpsc_event list \<Rightarrow> mpsc_sys \<Rightarrow> bool" where
  "mpsc_inv N h s \<longleftrightarrow> cap (q_ring s) = N \<and>
     mpsc_inv_at (pushed h) (taken h) (q_ring s) (q_pcs s) (d_pc s)"

text \<open>Fewer pushes than take the head once around the 64-bit range.\<close>

definition one_round :: "nat \<Rightarrow> mpsc_event list \<Rightarrow> bool" where
  "one_round N h \<longleftrightarrow> length (pushed h) + N < 2 ^ 64"

lemma mpsc_producer_geom: "mpsc_producer_step t r q = (r', q', e) \<Longrightarrow> geom r' = geom r"
  by (cases q) (auto simp: Let_def cas_head_def split: if_splits)

lemma mpsc_consumer_geom: "mpsc_consumer_step r l c = (r', l', c', e) \<Longrightarrow> geom r' = geom r"
  by (cases c) (auto simp: Let_def split: if_splits)

text \<open>
  The check against the tail: a producer whose head is current passes it only if there is room.
  One whose head has been overtaken by the tail fails it, since the difference wraps around.
\<close>

lemma room_check:
  assumes ri: "mpsc_ring_inv r P T half" and ch: "unat ch \<le> length P"
  shows "r_objNum r \<le> ch - r_tail r \<longleftrightarrow> unat ch < T \<or> T + cap r \<le> unat ch"
proof -
  have T: "unat (r_tail r) = T" by (rule mpsc_position [OF ri])
  have small: "length P + cap r < 2 ^ 64" "T \<le> length P" using ri by (simp_all add: mpsc_ring_inv_def)
  have "unat (ch - r_tail r) = (if T \<le> unat ch then unat ch - T else 2 ^ 64 + unat ch - T)"
    using unat_sub_if' [of ch "r_tail r"] T small ch by (auto simp: unat_sub_if_size word_size)
  then show ?thesis
    using small ch by (auto simp: unat_le_iff cap_def)
qed

lemma mpsc_inv_producer:
  assumes inv: "mpsc_inv_at P Q r pcs pc" and step: "mpsc_producer_step t r (pcs t) = (r', q, e)"
    and small: "length (P @ pushed e) + cap r < 2 ^ 64"
  shows "mpsc_inv_at (P @ pushed e) (Q @ taken e) r' (pcs(t := q)) pc"
proof (cases "pcs t")
  case QIdle
  then show ?thesis using step inv by (auto simp: fun_upd_idem)
next
  case (QHead args sz)
  have "mpsc_inv_at P Q r (pcs(t := QTail args sz (r_head r))) pc"
    using mpsc_parts(2) [OF inv, of t] mpsc_position(1) [OF mpsc_parts(1) [OF inv]] QHead
    by (intro mpsc_producer_local [OF inv]) simp_all
  then show ?thesis using step QHead by auto
next
  case (QTail args sz ch)
  have le: "unat sz \<le> osz r" "unat ch \<le> length P" using mpsc_parts(2) [OF inv, of t] QTail by simp_all
  have "mpsc_inv_at P Q r (pcs(t := QIdle)) pc"
    by (rule mpsc_producer_local [OF inv]) (simp_all add: QTail)
  moreover have "mpsc_inv_at P Q r (pcs(t := QCas args sz ch)) pc" if "\<not> r_objNum r \<le> ch - r_tail r"
    using le that room_check [OF mpsc_parts(1) [OF inv] le(2)]
    by (intro mpsc_producer_local [OF inv]) (auto simp: QTail)
  ultimately show ?thesis using step QTail by (auto simp: Let_def split: if_splits)
next
  case (QCas args sz ch)
  show ?thesis
  proof (cases "r_head r = ch")
    case True
    then have "pcs t = QCas args sz (r_head r)" using QCas by simp
    from mpsc_inv_reserve [OF inv this] show ?thesis
      using step QCas small True by (auto simp: cas_head_def)
  next
    case False
    have "mpsc_inv_at P Q r (pcs(t := QIdle)) pc"
      by (rule mpsc_producer_local [OF inv]) (simp_all add: QCas)
    then show ?thesis using step QCas False by (auto simp: cas_head_def)
  qed
next
  case (QCopy args sz ch i)
  show ?thesis
  proof (cases "i < unat sz")
    case True
    then show ?thesis using mpsc_inv_write [OF inv QCopy True] step QCopy by (auto simp: Let_def)
  next
    case False
    then show ?thesis using mpsc_inv_publish [OF inv QCopy False] step QCopy by (auto simp: Let_def)
  qed
qed

lemma valid_iff_stat:
  assumes ri: "mpsc_ring_inv r P T half" and ct: "unat ct = T"
  shows "(ucast (load_slot r (ct AND r_mask r)) :: c_int) AND SLOT_EMPTY \<noteq> 0 \<longleftrightarrow> slot_empty r T"
    and "slot_valid r T \<longleftrightarrow> \<not> slot_empty r T"
proof -
  have seq: "load_slot r (ct AND r_mask r) = seq_at r T" using ct by (auto simp: seq_at_def)
  have two: "slot_valid r T \<or> slot_empty r T" using ri by (simp add: mpsc_ring_inv_def)
  then show "slot_valid r T \<longleftrightarrow> \<not> slot_empty r T" using valid_not_empty by blast
  show "(ucast (load_slot r (ct AND r_mask r)) :: c_int) AND SLOT_EMPTY \<noteq> 0 \<longleftrightarrow> slot_empty r T"
    using two stat_flags(1,2) unfolding seq slot_valid_def slot_empty_def by metis
qed

lemma mpsc_inv_consumer:
  assumes inv: "mpsc_inv_at P Q r pcs pc" and step: "mpsc_consumer_step r l pc = (r', l', pc', e)"
  shows "mpsc_inv_at (P @ pushed e) (Q @ taken e) r' pcs pc'"
proof (cases pc)
  case DIdle
  then show ?thesis using step inv by auto
next
  case (DTail d)
  have pos: "unat (r_tail r) = length Q" by (rule mpsc_position [OF mpsc_parts(1) [OF inv]])
  have "mpsc_inv_at P Q r pcs (DHead d (r_tail r))" "mpsc_inv_at P Q r pcs (DSlot d (r_tail r))"
    by (rule mpsc_consumer_local [OF inv]; use mpsc_parts(3) [OF inv] pos in \<open>simp add: DTail\<close>)+
  then show ?thesis using step DTail by (auto simp: Let_def split: if_splits)
next
  case (DHead d ct)
  have "mpsc_inv_at P Q r pcs DIdle" "mpsc_inv_at P Q r pcs (DSlot d ct)"
    by (rule mpsc_consumer_local [OF inv]; use mpsc_parts(3) [OF inv] in \<open>simp add: DHead\<close>)+
  then show ?thesis using step DHead by (auto simp: Let_def split: if_splits)
next
  case (DSlot d ct)
  have here: "want r d \<le> osz r" "unat ct = length Q" using mpsc_parts(3) [OF inv] by (simp_all add: DSlot)
  note stat = valid_iff_stat [OF mpsc_parts(1) [OF inv] here(2)]
  have "mpsc_inv_at P Q r pcs DIdle" by (rule mpsc_consumer_local [OF inv]) (simp_all add: DSlot)
  moreover have "mpsc_inv_at P Q r pcs (DCopy d ct [])" if "\<not> slot_empty r (length Q)"
    by (rule mpsc_consumer_local [OF inv]) (use here that stat(2) in \<open>simp_all add: DSlot\<close>)
  ultimately show ?thesis
    using step DSlot stat(1) by (auto simp: Let_def stat_flags(3) split: if_splits)
next
  case (DCopy d ct buf)
  show ?thesis
  proof (cases "length buf < want r d")
    case True
    then show ?thesis using mpsc_inv_read [of P Q r pcs d ct buf] inv step DCopy by (auto simp: Let_def)
  next
    case False
    then show ?thesis using mpsc_inv_empty_slot [of P Q r pcs d ct buf] inv step DCopy by (auto simp: Let_def)
  qed
next
  case (DTailStore d ct buf)
  then show ?thesis using mpsc_inv_tail [of P Q r pcs d ct buf] inv step by auto
next
  case (DUnknown ct)
  then show ?thesis using mpsc_parts(3) [OF inv] by simp
qed

lemma mpsc_inv_step:
  assumes inv: "mpsc_inv N h s" and step: "mpsc_step s a = (s', e)" and guard: "one_round N (h @ e)"
  shows "mpsc_inv N (h @ e) s'"
proof -
  have at: "mpsc_inv_at (pushed h) (taken h) (q_ring s) (q_pcs s) (d_pc s)"
    and cap: "cap (q_ring s) = N"
    using inv by (simp_all add: mpsc_inv_def)
  have idle: "q_pcs s t = QIdle" if "q_idle (q_pcs s t)" for t using that by (cases "q_pcs s t") simp_all
  have push: "mpsc_inv_at (pushed h) (taken h) (q_ring s) ((q_pcs s)(t := QHead args sz)) (d_pc s)"
    if "q_idle (q_pcs s t)" "unat sz \<le> osz (q_ring s)" for t args sz
    by (rule mpsc_producer_local [OF at]) (simp_all add: that idle)
  have pop: "mpsc_inv_at (pushed h) (taken h) (q_ring s) (q_pcs s) (DTail d)"
    if "d_idle (d_pc s)" "want (q_ring s) d \<le> osz (q_ring s)" for d
  proof (rule mpsc_consumer_local [OF at])
    show "half_done (DTail d) = half_done (d_pc s)" using that(1) by (cases "d_pc s") simp_all
  qed (use that(2) in simp)
  show ?thesis
  proof (cases "(s, a)" rule: mpsc_step.cases)
    case (1 _ t args sz)
    then show ?thesis
      using inv step push [of t sz args]
      by (auto simp: mpsc_inv_def osz_def unat_less_iff split: if_splits)
  next
    case (2 _ sz)
    then show ?thesis
      using inv step pop [of "ToBuf sz"]
      by (auto simp: mpsc_inv_def osz_def unat_less_iff split: if_splits)
  next
    case (3 _ cb)
    then show ?thesis
      using inv step pop [of "ToCb cb"] by (auto simp: mpsc_inv_def split: if_splits)
  next
    case (4 _ t)
    then obtain r q where q: "mpsc_producer_step t (q_ring s) (q_pcs s t) = (r, q, e)"
      and s': "s' = s\<lparr>q_ring := r, q_pcs := (q_pcs s)(t := q)\<rparr>"
      using step by (auto simp: Let_def split: prod.splits)
    have "length (pushed h @ pushed e) + cap (q_ring s) < 2 ^ 64"
      using guard by (simp add: one_round_def cap)
    from mpsc_inv_producer [OF at q this] geom_eqD(6) [OF mpsc_producer_geom [OF q]] show ?thesis
      by (simp add: mpsc_inv_def s' cap)
  next
    case (5 _)
    then obtain r l c where c: "mpsc_consumer_step (q_ring s) (q_head s) (d_pc s) = (r, l, c, e)"
      and s': "s' = s\<lparr>q_ring := r, q_head := l, d_pc := c\<rparr>"
      using step by (auto simp: Let_def split: prod.splits)
    from mpsc_inv_consumer [OF at c] geom_eqD(6) [OF mpsc_consumer_geom [OF c]] show ?thesis
      by (simp add: mpsc_inv_def s' cap)
  qed
qed

interpretation mpsc_conc: history_system mpsc_step "mpsc_inv N" "one_round N" for N
  by unfold_locales (auto intro: mpsc_inv_step simp: one_round_def)


lemma mpsc_inv_start:
  assumes wf: "ring_wf r" "slots_wf r" and pos: "r_head r = 0" "r_tail r = 0"
    and slots: "\<And>k. seq_at r k = ucast SLOT_EMPTY" and small: "cap r < 2 ^ 64"
  shows "mpsc_inv (cap r) [] (mpsc_start l r)"
proof -
  have "slot_empty r k" "\<not> slot_valid r k" for k
    using slots [of k] by (simp_all add: slot_empty_def slot_valid_def slot_stats)
  then show ?thesis
    using assms by (simp add: mpsc_inv_def mpsc_inv_at_def mpsc_start_def mpsc_ring_inv_def one_owner_def)
qed

lemma mpsc_fresh_inv:
  assumes "good_capacity n" "layout_fits n sz"
    and "r = init_ring r0 (get_total_size n sz MPSC_SLOT) n m fd MPSC_SLOT"
    and run: "exec mpsc_step (mpsc_start l r) as = (s, h)" and guard: "one_round (unat n) h"
  shows "mpsc_inv (unat n) h s"
proof -
  have u: "slot_mode MPSC_SLOT" "MPSC_SLOT = MPMC_SLOT \<or> MPSC_SLOT = MPSC_SLOT"
    by (simp_all add: slot_mode_def)
  have cap: "cap r = unat n" by (simp add: assms(3))
  have "ring_wf r" "slots_wf r" "r_head r = 0" "r_tail r = 0"
    unfolding assms(3) using init_ring_wf [OF assms(1,2) u(1)] init_slot_ring_wf [OF assms(2) u(2)]
    by simp_all
  moreover have "seq_at r k = ucast SLOT_EMPTY" for k
    unfolding assms(3) using seq_at_init_ring [OF assms(1,2) u(2)] by (simp add: slot_flags slot_stats)
  ultimately have "mpsc_inv (unat n) [] (mpsc_start l r)"
    using mpsc_inv_start [of r l] unat_less64 [of n] cap by simp
  from mpsc_conc.inv_run [OF this run guard] show ?thesis .
qed

section \<open>When every operation has returned\<close>

lemma mpsc_quiescent_ok:
  assumes inv: "mpsc_inv_at P Q r pcs DIdle" and idle: "\<And>t. pcs t = QIdle"
  shows "mpsc_ok r" "list_all2 agree (drop (length Q) P) (ring_queue r)"
proof -
  note ri = mpsc_parts(1) [OF inv]
  let ?T = "length Q" and ?H = "length P"
  have wf: "ring_wf r" "slots_wf r" and order: "?T \<le> ?H" "?H \<le> ?T + cap r"
    and pos: "r_head r = of_nat ?H" "r_tail r = of_nat ?T" and two: "\<forall>k. slot_valid r k \<or> slot_empty r k"
    using ri by (simp_all add: mpsc_ring_inv_def)
  have "?H - ?T < 2 ^ 64" using order wf_cap_le [OF wf(1)] by simp
  then have cnt: "count r = ?H - ?T"
    unfolding count_def pos by (intro unat_ticket_diff order(1))
  have none: "\<not> slot_empty r k" if "?T \<le> k" "k < ?H" for k
    using no_owner [OF mpsc_parts(4) [OF inv]] that by (auto simp: idle)
  have kind: "slot_valid r k \<longleftrightarrow> k < ?H" if "?T \<le> k" "k < ?T + cap r" for k
    using ri none [of k] that two valid_not_empty by (auto simp: mpsc_ring_inv_def)
  have at: "slot_at r (r_tail r + of_nat i) = seq_at r (?T + i)" for i
    by (simp add: slot_at_def seq_at_def pos)
  show "mpsc_ok r"
    unfolding mpsc_ok_def
  proof (intro conjI allI impI)
    fix i assume "i < cap r"
    then show "slot_at r (r_tail r + of_nat i) = (if i < count r then ucast SLOT_VALID else ucast SLOT_EMPTY)"
      using kind [of "?T + i"] two order by (auto simp: at cnt slot_valid_def slot_empty_def)
  qed (use wf order cnt in auto)
  show "list_all2 agree (drop ?T P) (ring_queue r)"
  proof (rule list_all2_all_nthI)
    fix i assume i: "i < length (drop ?T P)"
    then have k: "?T + i < ?H" by simp
    then have "holds_bytes r (?T + i) (P ! (?T + i))"
      using ri kind [of "?T + i"] order by (simp add: mpsc_ring_inv_def)
    moreover have "ring_queue r ! i = map (byte_at r (?T + i)) [0..<osz r]"
      using i elem_of_nat [of r "?T + i"] by (simp add: ring_queue_def cnt pos)
    ultimately show "agree (drop ?T P ! i) (ring_queue r ! i)"
      using i by (simp add: agree_def holds_bytes_def)
  qed (simp add: cnt)
qed

section \<open>Properties\<close>

text \<open>
  What a history means to a queue: an object enters with its ticket and leaves with the consumer's
  last access. The failure codes are no events here: \<open>mpsc_status_meaning\<close> says what they mean.
\<close>

fun mpsc_queue :: "mpsc_event list \<Rightarrow> queue_event list" where
  "mpsc_queue [] = []"
| "mpsc_queue (QReserve v # es) = Enqueue v # mpsc_queue es"
| "mpsc_queue (DGet v # es) = Dequeue v # mpsc_queue es"
| "mpsc_queue (_ # es) = mpsc_queue es"

lemma mpsc_queue_append: "mpsc_queue (h @ e) = mpsc_queue h @ mpsc_queue e"
  by (induction h rule: mpsc_queue.induct) simp_all

lemma mpsc_queue_sides [simp]: "enqueued (mpsc_queue h) = pushed h" "dequeued (mpsc_queue h) = taken h"
  by (induction h rule: mpsc_queue.induct) simp_all

lemma mpsc_queue_no_refusal [simp]: "Refuse_full \<notin> set (mpsc_queue h)" "Refuse_empty \<notin> set (mpsc_queue h)"
  by (induction h rule: mpsc_queue.induct) simp_all

lemma mpsc_one_event:
  assumes "mpsc_step s a = (s', e)"
  shows "length (mpsc_queue e) \<le> 1"
proof (cases a)
  case (QStep t)
  then show ?thesis using assms
    by (cases "q_pcs s t") (auto simp: Let_def cas_head_def split: if_splits)
next
  case (DPop d)
  then show ?thesis using assms by (cases d) (auto split: if_splits)
next
  case DStep
  then show ?thesis using assms by (cases "d_pc s") (auto simp: Let_def split: if_splits)
qed (use assms in \<open>auto split: if_splits\<close>)

interpretation mpsc_fifo: queue_history mpsc_step "mpsc_inv N" "one_round N" N mpsc_queue for N
proof
  fix h s assume "mpsc_inv N h s"
  then have inv: "mpsc_inv_at (pushed h) (taken h) (q_ring s) (q_pcs s) (d_pc s)" and cap: "cap (q_ring s) = N"
    by (simp_all add: mpsc_inv_def)
  show "fifo_counts N (mpsc_queue h)"
    using mpsc_parts(1,5) [OF inv] cap by (simp add: fifo_counts_def mpsc_ring_inv_def)
qed (simp_all add: mpsc_queue_append mpsc_one_event [simplified])

text \<open>C5: Any number of producers and one consumer on a fresh MPSC ring, under every schedule of
  their accesses, whatever the consumer's cache holds at the start, as long as the head does
  not run once around the 64-bit range. The successful operations are those of one bounded queue,
  a push at the instant it obtains its ticket and a pop at its last access: objects come out in
  the order of the tickets, none lost and none twice, equal to those pushed on all the bytes
  both calls transferred, and never more than the capacity are in between. When every operation
  has returned, the ring holds exactly the objects not yet taken.\<close>

theorem mpsc_concurrent_fifo:
  assumes "good_capacity n" "layout_fits n sz"
    and "r = init_ring r0 (get_total_size n sz MPSC_SLOT) n m fd MPSC_SLOT"
    and "exec mpsc_step (mpsc_start l r) as = (s, h)" "length (pushed h) + unat n < 2 ^ 64"
  shows "queue_run (unat n) [] (mpsc_queue h) = Some (drop (length (taken h)) (pushed h)) \<and>
    list_all2 agree (take (length (taken h)) (pushed h)) (taken h) \<and>
    ((\<forall>t. q_pcs s t = QIdle) \<and> d_pc s = DIdle \<longrightarrow> mpsc_ok (q_ring s) \<and>
      list_all2 agree (drop (length (taken h)) (pushed h)) (ring_queue (q_ring s)))"
proof -
  have guard: "one_round (unat n) h" using assms(5) by (simp add: one_round_def)
  have "mpsc_inv (unat n) [] (mpsc_start l r)"
    using mpsc_fresh_inv [OF assms(1-3), of l "[]" "mpsc_start l r" "[]"] guard by (simp add: one_round_def)
  from mpsc_fifo.explained_run [OF this assms(4) guard]
  have run: "queue_run (unat n) [] (mpsc_queue h) = Some (drop (length (taken h)) (pushed h))"
    by (simp add: explained_def)
  have "mpsc_inv (unat n) h s" by (rule mpsc_fresh_inv [OF assms(1-4) guard])
  then have inv: "mpsc_inv_at (pushed h) (taken h) (q_ring s) (q_pcs s) (d_pc s)"
    and cap: "cap (q_ring s) = unat n" by (simp_all add: mpsc_inv_def)
  then show ?thesis
    using run mpsc_quiescent_ok [of "pushed h" "taken h" "q_ring s" "q_pcs s"] mpsc_parts(1,5) [OF inv]
    by (auto simp: mpsc_ring_inv_def)
qed

theorem mpsc_concurrent_fifo_witness:
  "(let h = snd (exec mpsc_step (mpsc_start 0 (make_ring 2 8 MPSC_SLOT))
      ([QPush 0 (\<lambda>i. 5) 1, QPush 1 (\<lambda>i. 6) 1] @ replicate 5 (QStep 0) @ [QStep 1, QStep 1, DPop (ToBuf 1)] @
       replicate 6 DStep @ [QStep 1]))
    in list_all2 agree (take (length (taken h)) (pushed h)) (taken h) \<and> taken h = [[5]])"
proof -
  let ?as = "[QPush 0 (\<lambda>i. 5) 1, QPush 1 (\<lambda>i. 6) 1] @ replicate 5 (QStep 0) @ [QStep 1, QStep 1, DPop (ToBuf 1)] @
       replicate 6 DStep @ [QStep 1]"
  let ?x = "exec mpsc_step (mpsc_start 0 (make_ring 2 8 MPSC_SLOT)) ?as"
  have cap: "good_capacity 2" "layout_fits 2 8"
    by (simp_all add: good_capacity_def layout_fits_def align_nat_def)
  have res: "length (pushed (snd ?x)) = 2" "taken (snd ?x) = [[5]]" by code_simp+
  then have few: "length (pushed (snd ?x)) + unat (2::size_t) < 2 ^ 64" by (simp only: res) simp
  from mpsc_concurrent_fifo [OF cap make_ring_def surjective_pairing few] res(2)
  show ?thesis by (simp only: Let_def simp_thms)
qed

text \<open>The slot a producer, or the consumer, is copying into or out of.\<close>

fun fills_word :: "mpsc_ppc \<Rightarrow> size_t option" where
  "fills_word (QCopy args sz ch i) = Some ch"
| "fills_word _ = None"

fun drains_word :: "mpsc_cpc \<Rightarrow> size_t option" where
  "drains_word (DCopy d ct buf) = Some ct"
| "drains_word _ = None"

text \<open>C27: No two threads of an MPSC ring copy on the same slot at the same time: neither two
  producers nor a producer and the consumer, under every schedule.\<close>

theorem mpsc_slot_exclusive:
  assumes "good_capacity n" "layout_fits n sz"
    and "r = init_ring r0 (get_total_size n sz MPSC_SLOT) n m fd MPSC_SLOT"
    and "exec mpsc_step (mpsc_start l r) as = (s, h)" "length (pushed h) + unat n < 2 ^ 64"
    and "fills_word (q_pcs s t) = Some w"
  shows "(\<forall>u w'. u \<noteq> t \<longrightarrow> fills_word (q_pcs s u) = Some w' \<longrightarrow>
      w' AND r_mask (q_ring s) \<noteq> w AND r_mask (q_ring s)) \<and>
    (\<forall>w'. drains_word (d_pc s) = Some w' \<longrightarrow> w' AND r_mask (q_ring s) \<noteq> w AND r_mask (q_ring s))"
proof -
  let ?r = "q_ring s" and ?T = "length (taken h)"
  have "mpsc_inv (unat n) h s"
    by (rule mpsc_fresh_inv [OF assms(1-4)]) (use assms(5) in \<open>simp add: one_round_def\<close>)
  then have inv: "mpsc_inv_at (pushed h) (taken h) ?r (q_pcs s) (d_pc s)" by (simp add: mpsc_inv_def)
  have wf: "ring_wf ?r" and win: "length (pushed h) \<le> ?T + cap ?r"
    using mpsc_parts(1) [OF inv] by (simp_all add: mpsc_ring_inv_def)
  have here: "fills (q_pcs s u) = Some (unat v) \<and> ?T \<le> unat v \<and> unat v < ?T + cap ?r \<and> slot_empty ?r (unat v)"
    if "fills_word (q_pcs s u) = Some v" for u v
    using that mpsc_parts(2) [OF inv, of u] win by (cases "q_pcs s u") auto
  have same: "v AND r_mask ?r = w AND r_mask ?r \<longleftrightarrow> unat v = unat w"
    if "?T \<le> unat v" "unat v < ?T + cap ?r" for v
    using lap_slots [OF that, of "unat w"] here [OF assms(6)] by (simp add: word_unat_eq_iff unat_index [OF wf])
  have one: "u = t" if "fills (q_pcs s u) = Some k" "fills (q_pcs s t) = Some k" for u k
    using mpsc_parts(4) [OF inv] that unfolding one_owner_def by (metis comp_apply)
  have cons: "unat v = ?T \<and> slot_valid ?r ?T" if "drains_word (d_pc s) = Some v" for v
    using that mpsc_parts(3) [OF inv] by (cases "d_pc s") auto
  show ?thesis
  proof (intro conjI allI impI)
    fix u v assume "u \<noteq> t" "fills_word (q_pcs s u) = Some v"
    then show "v AND r_mask ?r \<noteq> w AND r_mask ?r"
      using here [of u v] here [OF assms(6)] same [of v] one [of u] by metis
  next
    fix v assume "drains_word (d_pc s) = Some v"
    then show "v AND r_mask ?r \<noteq> w AND r_mask ?r"
      using cons [of v] here [OF assms(6)] same [of v] valid_not_empty wf_cap_pos [OF wf] by force
  qed
qed

theorem mpsc_slot_exclusive_witness: "(1::size_t) AND 1 \<noteq> 0 AND 1"
proof -
  let ?as = "[QPush 0 (\<lambda>i. 5) 1, QPush 1 (\<lambda>i. 6) 1] @ replicate 3 (QStep 0) @ replicate 3 (QStep 1)"
  let ?x = "exec mpsc_step (mpsc_start 0 (make_ring 2 8 MPSC_SLOT)) ?as"
  have cap: "good_capacity 2" "layout_fits 2 8"
    by (simp_all add: good_capacity_def layout_fits_def align_nat_def)
  have res: "length (pushed (snd ?x)) = 2" by code_simp
  then have few: "length (pushed (snd ?x)) + unat (2::size_t) < 2 ^ 64" by (simp only: res) simp
  have at: "fills_word (q_pcs (fst ?x) 0) = Some 0" "fills_word (q_pcs (fst ?x) 1) = Some 1"
    and mask: "r_mask (q_ring (fst ?x)) = 1" by code_simp+
  from mpsc_slot_exclusive [OF cap make_ring_def surjective_pairing few at(1), THEN conjunct1,
      rule_format, OF _ at(2)]
  show ?thesis by (simp only: mask) simp
qed

lemma mpsc_push_codes:
  assumes inv: "mpsc_inv_at P Q (q_ring s) (q_pcs s) (d_pc s)" and step: "mpsc_step s (QStep t) = (s', e)"
  shows "q_pcs s t = QTail args z ch \<Longrightarrow> QRet t RINGBUF_FULL \<in> set e \<Longrightarrow>
      length P = length Q + cap (q_ring s) \<or> unat ch < length Q"
    and "q_pcs s t = QCas args z ch \<Longrightarrow> QRet t RINGBUF_CONTENTION \<in> set e \<Longrightarrow> unat ch < length P"
proof -
  note ri = mpsc_parts(1) [OF inv]
  have win: "length Q \<le> length P" "length P \<le> length Q + cap (q_ring s)"
    using ri by (simp_all add: mpsc_ring_inv_def)
  show "length P = length Q + cap (q_ring s) \<or> unat ch < length Q"
    if at: "q_pcs s t = QTail args z ch" and ret: "QRet t RINGBUF_FULL \<in> set e"
  proof -
    have check: "r_objNum (q_ring s) \<le> ch - r_tail (q_ring s)"
      using step at ret by (auto simp: Let_def split: if_splits)
    have "unat ch \<le> length P" using mpsc_parts(2) [OF inv, of t] by (simp add: at)
    with room_check [OF ri this] check win show ?thesis by auto
  qed
  show "unat ch < length P"
    if at: "q_pcs s t = QCas args z ch" and ret: "QRet t RINGBUF_CONTENTION \<in> set e"
  proof -
    have "r_head (q_ring s) \<noteq> ch" using step at ret by (auto simp: cas_head_def split: if_splits)
    then have "unat ch \<noteq> length P" using mpsc_position(1) [OF ri] by (metis word_unat_eq_iff)
    then show ?thesis using mpsc_parts(2) [OF inv, of t] by (simp add: at)
  qed
qed

lemma mpsc_pop_codes:
  assumes inv: "mpsc_inv_at P Q (q_ring s) (q_pcs s) (d_pc s)" and step: "mpsc_step s DStep = (s', e)"
  shows "d_pc s = DHead d ct \<Longrightarrow> DRet RINGBUF_EMPTY \<in> set e \<Longrightarrow> length P = length Q"
    and "d_pc s = DSlot d ct \<Longrightarrow> DRet RINGBUF_SLOT_WRITING_DATA \<in> set e \<Longrightarrow>
      (\<exists>u. fills (q_pcs s u) = Some (length Q)) \<or> length P = length Q"
proof -
  note ri = mpsc_parts(1) [OF inv]
  show "length P = length Q" if at: "d_pc s = DHead d ct" and ret: "DRet RINGBUF_EMPTY \<in> set e"
  proof -
    have "r_head (q_ring s) = ct" using step at ret by (auto simp: Let_def split: if_splits)
    then show ?thesis using mpsc_position(1) [OF ri] mpsc_parts(3) [OF inv] by (simp add: at)
  qed
  show "(\<exists>u. fills (q_pcs s u) = Some (length Q)) \<or> length P = length Q"
    if at: "d_pc s = DSlot d ct" and ret: "DRet RINGBUF_SLOT_WRITING_DATA \<in> set e"
  proof -
    have ct: "unat ct = length Q" using mpsc_parts(3) [OF inv] by (simp add: at)
    have "slot_empty (q_ring s) (length Q)"
      using step at ret valid_iff_stat(1) [OF ri ct] by (auto simp: Let_def stat_flags(3) split: if_splits)
    then have "length Q < length P \<longrightarrow> (\<exists>u. fills (q_pcs s u) = Some (length Q))"
      using mpsc_parts(4) [OF inv] unfolding one_owner_def at by auto
    then show ?thesis using ri by (auto simp: mpsc_ring_inv_def)
  qed
qed

text \<open>C29: What the failure codes of the MPSC ring say at the access that decides them.
  \<^verbatim>\<open>RINGBUF_FULL\<close>: the ring holds as many objects as its capacity, or the tail has overtaken the
  head this producer read. \<^verbatim>\<open>RINGBUF_CONTENTION\<close>: another producer obtained the ticket.
  \<^verbatim>\<open>RINGBUF_EMPTY\<close>: the ring is empty. \<^verbatim>\<open>RINGBUF_SLOT_WRITING_DATA\<close>: a producer is still writing
  the oldest object, or the ring is empty.\<close>

theorem mpsc_status_meaning:
  assumes "good_capacity n" "layout_fits n sz"
    and "r = init_ring r0 (get_total_size n sz MPSC_SLOT) n m fd MPSC_SLOT"
    and "exec mpsc_step (mpsc_start l r) as = (s, h)" "length (pushed h) + unat n < 2 ^ 64"
  shows "(\<forall>t args z ch s' e. q_pcs s t = QTail args z ch \<longrightarrow> mpsc_step s (QStep t) = (s', e) \<longrightarrow>
      QRet t RINGBUF_FULL \<in> set e \<longrightarrow>
      length (pushed h) = length (taken h) + unat n \<or> unat ch < length (taken h)) \<and>
    (\<forall>t args z ch s' e. q_pcs s t = QCas args z ch \<longrightarrow> mpsc_step s (QStep t) = (s', e) \<longrightarrow>
      QRet t RINGBUF_CONTENTION \<in> set e \<longrightarrow> unat ch < length (pushed h)) \<and>
    (\<forall>d ct s' e. d_pc s = DHead d ct \<longrightarrow> mpsc_step s DStep = (s', e) \<longrightarrow>
      DRet RINGBUF_EMPTY \<in> set e \<longrightarrow> length (pushed h) = length (taken h)) \<and>
    (\<forall>d ct s' e. d_pc s = DSlot d ct \<longrightarrow> mpsc_step s DStep = (s', e) \<longrightarrow>
      DRet RINGBUF_SLOT_WRITING_DATA \<in> set e \<longrightarrow>
      (\<exists>u. fills (q_pcs s u) = Some (length (taken h))) \<or> length (pushed h) = length (taken h))"
proof -
  let ?r = "q_ring s" and ?P = "pushed h" and ?T = "length (taken h)"
  have "mpsc_inv (unat n) h s"
    by (rule mpsc_fresh_inv [OF assms(1-4)]) (use assms(5) in \<open>simp add: one_round_def\<close>)
  then have inv: "mpsc_inv_at ?P (taken h) ?r (q_pcs s) (d_pc s)" and cap: "cap ?r = unat n"
    by (simp_all add: mpsc_inv_def)
  show ?thesis
    by (intro conjI allI impI)
      (rule mpsc_push_codes [OF inv, unfolded cap] mpsc_pop_codes [OF inv]; assumption)+
qed

theorem mpsc_status_meaning_witness:
  "(let x = exec mpsc_step (mpsc_start 0 (make_ring 2 8 MPSC_SLOT)) [DPop (ToBuf 1), DStep]
    in length (pushed (snd x)) = length (taken (snd x)))"
proof -
  let ?x = "exec mpsc_step (mpsc_start 0 (make_ring 2 8 MPSC_SLOT)) [DPop (ToBuf 1), DStep]"
  have cap: "good_capacity 2" "layout_fits 2 8"
    by (simp_all add: good_capacity_def layout_fits_def align_nat_def)
  have res: "length (pushed (snd ?x)) = 0" by code_simp
  then have few: "length (pushed (snd ?x)) + unat (2::size_t) < 2 ^ 64" by (simp only: res) simp
  have "case d_pc (fst ?x) of DHead d ct \<Rightarrow> True | _ \<Rightarrow> False"
    and e: "snd (mpsc_step (fst ?x) DStep) = [DRet RINGBUF_EMPTY]" by code_simp+
  then obtain d ct where at: "d_pc (fst ?x) = DHead d ct" by (auto split: mpsc_cpc.splits)
  have ret: "DRet RINGBUF_EMPTY \<in> set (snd (mpsc_step (fst ?x) DStep))" by (simp only: e list.set) simp
  from mpsc_status_meaning [OF cap make_ring_def surjective_pairing few, THEN conjunct2, THEN conjunct2,
      THEN conjunct1, rule_format, OF at surjective_pairing ret]
  show ?thesis by (simp only: Let_def)
qed

text \<open>An MPSC push can report a full ring that is empty: the producer reads the head before the
  tail, and when another push and the pop of its object come between, the unsigned difference
  wraps around. Here a producer of a two-element ring does, and the ring holds nothing before
  and after.\<close>

lemma mpsc_spurious_full:
  "(let x = exec mpsc_step (mpsc_start 0 (make_ring 2 8 MPSC_SLOT))
      ([QPush 0 (\<lambda>i. 5) 1, QStep 0, QPush 1 (\<lambda>i. 6) 1] @ replicate 5 (QStep 1) @
       [DPop (ToBuf 1)] @ replicate 6 DStep)
    in Size_MpscRingBuf (q_ring (fst x)) = 0 \<and>
       snd (mpsc_step (fst x) (QStep 0)) = [QRet 0 RINGBUF_FULL] \<and>
       Size_MpscRingBuf (q_ring (fst (mpsc_step (fst x) (QStep 0)))) = 0)"
  by code_simp

section \<open>Bounded steps\<close>

fun producer_left :: "mpsc_ppc \<Rightarrow> nat" where
  "producer_left QIdle = 0"
| "producer_left (QHead args sz) = unat sz + 4"
| "producer_left (QTail args sz ch) = unat sz + 3"
| "producer_left (QCas args sz ch) = unat sz + 2"
| "producer_left (QCopy args sz ch i) = unat sz - i + 1"

fun consumer_left :: "ring \<Rightarrow> mpsc_cpc \<Rightarrow> nat" where
  "consumer_left r DIdle = 0"
| "consumer_left r (DTail d) = want r d + 5"
| "consumer_left r (DHead d ct) = want r d + 4"
| "consumer_left r (DSlot d ct) = want r d + 3"
| "consumer_left r (DCopy d ct buf) = want r d - length buf + 2"
| "consumer_left r (DTailStore d ct buf) = 1"
| "consumer_left r (DUnknown ct) = 1"

text \<open>Producer \<open>t\<close> is \<open>Some t\<close>, the consumer is \<open>None\<close>.\<close>

fun mpsc_busy :: "nat option \<Rightarrow> mpsc_sys \<Rightarrow> bool" where
  "mpsc_busy (Some t) s = (\<not> q_idle (q_pcs s t))"
| "mpsc_busy None s = (\<not> d_idle (d_pc s))"

fun mpsc_left :: "nat option \<Rightarrow> mpsc_sys \<Rightarrow> nat" where
  "mpsc_left (Some t) s = producer_left (q_pcs s t)"
| "mpsc_left None s = consumer_left (q_ring s) (d_pc s)"

fun mpsc_own :: "nat option \<Rightarrow> mpsc_action \<Rightarrow> bool" where
  "mpsc_own (Some t) (QStep u) = (u = t)"
| "mpsc_own None DStep = True"
| "mpsc_own x a = False"

fun mpsc_returned :: "nat option \<Rightarrow> mpsc_event list \<Rightarrow> bool" where
  "mpsc_returned (Some t) e = (\<exists>rc. QRet t rc \<in> set e)"
| "mpsc_returned None e = (\<exists>rc. DRet rc \<in> set e)"

lemma mpsc_producer_progress:
  "\<not> q_idle q \<Longrightarrow> mpsc_producer_step t r q = (r', q', e) \<Longrightarrow>
   (\<exists>rc. QRet t rc \<in> set e) \<or> (\<not> q_idle q' \<and> producer_left q' < producer_left q)"
  by (cases q) (auto simp: Let_def split: if_splits prod.splits)

lemma mpsc_consumer_progress:
  assumes "\<not> d_idle c" "mpsc_consumer_step r l c = (r', l', c', e)"
  shows "(\<exists>rc. DRet rc \<in> set e) \<or> (\<not> d_idle c' \<and> consumer_left r' c' < consumer_left r c)"
  using assms by (cases c) (auto simp: Let_def split: if_splits)

lemma left_geom:
  assumes "geom r' = geom r"
  shows "consumer_left r' c = consumer_left r c"
  by (cases c) (simp_all add: want_geom [OF assms])

lemma mpsc_other:
  assumes "mpsc_busy x s" "\<not> mpsc_own x a" "mpsc_step s a = (s', e)"
  shows "mpsc_busy x s' \<and> mpsc_left x s' = mpsc_left x s"
proof (cases x)
  case (Some t)
  with assms have "q_pcs s' t = q_pcs s t"
    by (cases "(s, a)" rule: mpsc_step.cases) (auto simp: Let_def split: if_splits prod.splits)
  with Some assms(1) show ?thesis by simp
next
  case None
  with assms have same: "d_pc s' = d_pc s" and geo: "geom (q_ring s') = geom (q_ring s)"
    by (cases "(s, a)" rule: mpsc_step.cases;
        auto simp: Let_def split: if_splits prod.splits dest: mpsc_producer_geom)+
  with None assms(1) left_geom [OF geo] show ?thesis by simp
qed

interpretation mpsc_ops: bounded_operations mpsc_step mpsc_busy mpsc_left mpsc_own mpsc_returned
proof (unfold_locales, goal_cases)
  case (1 x s a s' e)
  show ?case
  proof (cases x)
    case (Some t)
    with 1 have "a = QStep t" by (cases a) auto
    then obtain r q where q: "mpsc_producer_step t (q_ring s) (q_pcs s t) = (r, q, e)"
      and s': "s' = s\<lparr>q_ring := r, q_pcs := (q_pcs s)(t := q)\<rparr>"
      using 1(3) by (auto simp: Let_def split: prod.splits)
    then show ?thesis using 1(1) Some mpsc_producer_progress [OF _ q] by simp
  next
    case None
    with 1 have "a = DStep" by (cases a) auto
    then obtain r l c where c: "mpsc_consumer_step (q_ring s) (q_head s) (d_pc s) = (r, l, c, e)"
      and s': "s' = s\<lparr>q_ring := r, q_head := l, d_pc := c\<rparr>"
      using 1(3) by (auto simp: Let_def split: prod.splits)
    then show ?thesis using 1(1) None mpsc_consumer_progress [OF _ c] by simp
  qed
next
  case (2 x s a s' e)
  then show ?case by (rule mpsc_other)
next
  case (3 x s)
  then show ?case
  proof (cases x)
    case (Some t)
    with 3 show ?thesis by (cases "q_pcs s t") simp_all
  next
    case None
    with 3 show ?thesis by (cases "d_pc s") simp_all
  qed
next
  case (4 x e e')
  then show ?case by (cases x) auto
qed

text \<open>Every operation of the MPSC ring is wait-free: a push of \<open>size\<close> bytes has returned once its
  own thread has made \<open>size + 4\<close> accesses, a pop once the consumer has made \<open>size + 5\<close>, whatever
  the other threads do in between.\<close>

lemma mpsc_wait_free:
  "(q_pcs s t = QIdle \<longrightarrow> unat sz + 4 \<le> length (filter (mpsc_own (Some t)) as) \<longrightarrow>
     (\<exists>rc. QRet t rc \<in> set (snd (exec mpsc_step s (QPush t args sz # as))))) \<and>
   (d_pc s = DIdle \<longrightarrow> want (q_ring s) d + 5 \<le> length (filter (mpsc_own None) as) \<longrightarrow>
     (\<exists>rc. DRet rc \<in> set (snd (exec mpsc_step s (DPop d # as)))))"
proof (intro conjI impI)
  assume pc: "q_pcs s t = QIdle" and n: "unat sz + 4 \<le> length (filter (mpsc_own (Some t)) as)"
  let ?s = "s\<lparr>q_pcs := (q_pcs s)(t := QHead args sz)\<rparr>"
  have "mpsc_returned (Some t) (snd (exec mpsc_step ?s as))"
    by (rule mpsc_ops.returns_within_work [of "Some t" ?s as "fst (exec mpsc_step ?s as)"])
      (use n in simp_all)
  then show "\<exists>rc. QRet t rc \<in> set (snd (exec mpsc_step s (QPush t args sz # as)))"
    using pc by (auto simp: split_beta Let_def)
next
  assume pc: "d_pc s = DIdle" and n: "want (q_ring s) d + 5 \<le> length (filter (mpsc_own None) as)"
  let ?s = "s\<lparr>d_pc := DTail d\<rparr>"
  have "mpsc_returned None (snd (exec mpsc_step ?s as))"
    by (rule mpsc_ops.returns_within_work [of None ?s as "fst (exec mpsc_step ?s as)"])
      (use n in simp_all)
  then show "\<exists>rc. DRet rc \<in> set (snd (exec mpsc_step s (DPop d # as)))"
    using pc by (cases d) (auto simp: split_beta Let_def)
qed

section \<open>An operation run alone\<close>

lemma mpsc_idle_steps:
  "q_pcs s t = QIdle \<Longrightarrow> exec mpsc_step s (replicate n (QStep t)) = (s, [])"
  "d_pc s = DIdle \<Longrightarrow> exec mpsc_step s (replicate n DStep) = (s, [])"
proof -
  show "exec mpsc_step s (replicate n (QStep t)) = (s, [])" if "q_pcs s t = QIdle"
    using that by (induction n) (simp_all add: fun_upd_idem)
  show "exec mpsc_step s (replicate n DStep) = (s, [])" if "d_pc s = DIdle"
  proof -
    have "mpsc_step s DStep = (s, [])" using that by (cases s) simp
    then show ?thesis by (induction n) (simp_all del: mpsc_step.simps)
  qed
qed

lemma mpsc_then_idle:
  assumes "exec mpsc_step s (replicate m a) = (s', e)" "m \<le> n"
    and "a = QStep t \<and> q_pcs s' t = QIdle \<or> a = DStep \<and> d_pc s' = DIdle"
  shows "exec mpsc_step s (replicate n a) = (s', e)"
proof -
  have "replicate n a = replicate m a @ replicate (n - m) a"
    using assms(2) by (simp flip: replicate_add)
  then show ?thesis using assms(1,3) by (auto simp: exec_append mpsc_idle_steps)
qed

lemma mpsc_quiet_step:
  "mpsc_step s a = (s', []) \<Longrightarrow> exec mpsc_step s (replicate (Suc n) a) = exec mpsc_step s' (replicate n a)"
  by simp

lemma mpsc_push_copy_alone:
  assumes "q_pcs s t = QCopy args sz ch i" "i \<le> unat sz" "q_ring s = memcpy_in r a args i"
    and "a = GET_BUFFER r (ch AND r_mask r)"
  shows "exec mpsc_step s (replicate (unat sz - i + 1) (QStep t)) =
    (s\<lparr>q_ring := store_slot (memcpy_in r a args (unat sz)) (ch AND r_mask r) (ucast SLOT_VALID),
       q_pcs := (q_pcs s)(t := QIdle)\<rparr>, [QRet t (ssize_of ch)])"
  using assms(1-3)
proof (induction "unat sz - i" arbitrary: i s)
  case 0
  then show ?case by (simp add: fun_upd_def)
next
  case (Suc d)
  let ?s = "s\<lparr>q_ring := memcpy_in r a args (Suc i), q_pcs := (q_pcs s)(t := QCopy args sz ch (Suc i))\<rparr>"
  have "mpsc_step s (QStep t) = (?s, [])"
    using Suc.prems Suc.hyps(2) assms(4) by (simp add: Let_def)
  from mpsc_quiet_step [OF this, of "unat sz - Suc i + 1"]
  have "exec mpsc_step s (replicate (unat sz - i + 1) (QStep t)) =
      exec mpsc_step ?s (replicate (unat sz - Suc i + 1) (QStep t))"
    using Suc.hyps(2) by (simp add: Suc_diff_Suc del: replicate_Suc exec.simps)
  also have "\<dots> = (?s\<lparr>q_ring := store_slot (memcpy_in r a args (unat sz)) (ch AND r_mask r) (ucast SLOT_VALID),
       q_pcs := (q_pcs ?s)(t := QIdle)\<rparr>, [QRet t (ssize_of ch)])"
    by (rule Suc.hyps(1)) (use Suc.prems Suc.hyps(2) in simp_all)
  finally show ?case by simp
qed

lemma mpsc_pop_copy_alone:
  assumes "d_pc s = DCopy d ct (memcpy_out (q_ring s) a i)" "i \<le> want (q_ring s) d"
    and "a = GET_BUFFER (q_ring s) (ct AND r_mask (q_ring s))"
  shows "exec mpsc_step s (replicate (want (q_ring s) d - i + 2) DStep) =
    (s\<lparr>q_ring := (store_slot (q_ring s) (ct AND r_mask (q_ring s)) (ucast SLOT_EMPTY))\<lparr>r_tail := ct + 1\<rparr>,
       d_pc := DIdle\<rparr>,
     [DGet (memcpy_out (q_ring s) a (want (q_ring s) d)),
      DRet (answer d ct (memcpy_out (q_ring s) a (want (q_ring s) d)))])"
  using assms
proof (induction "want (q_ring s) d - i" arbitrary: i s)
  case 0
  then show ?case by (simp add: eval_nat_numeral Let_def)
next
  case (Suc n)
  let ?r = "q_ring s"
  let ?s = "s\<lparr>q_ring := ?r, d_pc := DCopy d ct (memcpy_out ?r a (Suc i))\<rparr>"
  have "mpsc_step s DStep = (?s, [])"
    using Suc.prems Suc.hyps(2) by (simp add: memcpy_out_def Let_def)
  from mpsc_quiet_step [OF this, of "want ?r d - Suc i + 2"]
  have "exec mpsc_step s (replicate (want ?r d - i + 2) DStep) =
      exec mpsc_step ?s (replicate (want ?r d - Suc i + 2) DStep)"
    using Suc.hyps(2) by (simp add: Suc_diff_Suc del: replicate_Suc exec.simps)
  also have "\<dots> = (?s\<lparr>q_ring := (store_slot (q_ring ?s) (ct AND r_mask (q_ring ?s)) (ucast SLOT_EMPTY))\<lparr>r_tail := ct + 1\<rparr>,
       d_pc := DIdle\<rparr>,
     [DGet (memcpy_out (q_ring ?s) a (want (q_ring ?s) d)),
      DRet (answer d ct (memcpy_out (q_ring ?s) a (want (q_ring ?s) d)))])"
    using Suc.hyps(1) [of ?s "Suc i"] Suc.prems Suc.hyps(2)
    by (simp del: replicate_Suc exec.simps mpsc_step.simps)
  finally show ?case by simp
qed


lemma mpsc_push_alone:
  assumes pc: "q_pcs s t = QIdle" and push: "Push_MpscRingBuf (q_ring s) args sz = (rc, r')"
  shows "\<exists>e. exec mpsc_step s (QPush t args sz # replicate (unat sz + 4) (QStep t)) =
    (s\<lparr>q_ring := r'\<rparr>, e @ [QRet t rc])"
proof (cases "r_objSize (q_ring s) < sz")
  case True
  then show ?thesis using pc push by (simp add: Push_MpscRingBuf_def mpsc_idle_steps)
next
  case False
  let ?r = "q_ring s" and ?u = "\<lambda>pc. (q_pcs s)(t := pc)" and ?n = "unat sz"
  let ?h = "r_head ?r"
  let ?i = "?h AND r_mask ?r"
  let ?s1 = "s\<lparr>q_ring := ?r, q_pcs := ?u (QTail args sz ?h)\<rparr>"
  have idle: "s\<lparr>q_ring := q, q_pcs := ?u QIdle\<rparr> = s\<lparr>q_ring := q\<rparr>" for q
    using pc by (simp add: fun_upd_idem)
  have "exec mpsc_step s (QPush t args sz # replicate (?n + 4) (QStep t)) =
      exec mpsc_step (s\<lparr>q_ring := ?r, q_pcs := ?u (QHead args sz)\<rparr>) (replicate (?n + 4) (QStep t))"
    using False pc by (simp del: replicate_Suc)
  also have "\<dots> = exec mpsc_step ?s1 (replicate (?n + 3) (QStep t))"
    using mpsc_quiet_step [of "s\<lparr>q_ring := ?r, q_pcs := ?u (QHead args sz)\<rparr>" "QStep t" ?s1 "?n + 3"]
    by (simp add: eval_nat_numeral del: replicate_Suc exec.simps)
  finally have start: "exec mpsc_step s (QPush t args sz # replicate (?n + 4) (QStep t)) =
      exec mpsc_step ?s1 (replicate (?n + 3) (QStep t))" .
  show ?thesis
  proof (cases "r_objNum ?r \<le> ?h - r_tail ?r")
    case full: True
    have "exec mpsc_step ?s1 (replicate 1 (QStep t)) = (s\<lparr>q_ring := ?r\<rparr>, [QRet t RINGBUF_FULL])"
      using full pc by (simp add: fun_upd_idem Let_def)
    then have "exec mpsc_step ?s1 (replicate (?n + 3) (QStep t)) = (s\<lparr>q_ring := ?r\<rparr>, [QRet t RINGBUF_FULL])"
      by (rule mpsc_then_idle [where t = t]) (simp_all add: pc)
    moreover have "rc = RINGBUF_FULL" "r' = ?r"
      using push False full by (auto simp: Push_MpscRingBuf_def Let_def)
    ultimately show ?thesis using start by simp
  next
    case room: False
    let ?r1 = "?r\<lparr>r_head := ?h + 1\<rparr>" and ?v = "[QReserve (map args [0..<?n])]"
    let ?s2 = "s\<lparr>q_ring := ?r, q_pcs := ?u (QCas args sz ?h)\<rparr>"
    let ?s3 = "s\<lparr>q_ring := ?r1, q_pcs := ?u (QCopy args sz ?h 0)\<rparr>"
    let ?r' = "store_slot (memcpy_in ?r1 (GET_BUFFER ?r1 ?i) args ?n) ?i (ucast SLOT_VALID)"
    have "exec mpsc_step ?s1 (replicate (?n + 3) (QStep t)) = exec mpsc_step ?s2 (replicate (?n + 2) (QStep t))"
      using mpsc_quiet_step [of ?s1 "QStep t" ?s2 "?n + 2"] room
      by (simp add: eval_nat_numeral del: replicate_Suc exec.simps)
    moreover have "mpsc_step ?s2 (QStep t) = (?s3, ?v)" by (simp add: cas_head_def)
    then have "exec mpsc_step ?s2 (replicate (?n + 2) (QStep t)) =
        (let (s', e) = exec mpsc_step ?s3 (replicate (?n + 1) (QStep t)) in (s', ?v @ e))"
      by (simp add: eval_nat_numeral del: mpsc_step.simps)
    moreover have "exec mpsc_step ?s3 (replicate (?n + 1) (QStep t)) =
        (s\<lparr>q_ring := ?r'\<rparr>, [QRet t (ssize_of ?h)])"
      using mpsc_push_copy_alone [of ?s3 t args sz ?h 0 ?r1 "GET_BUFFER ?r1 ?i"] idle
      by (simp del: replicate_Suc exec.simps mpsc_step.simps)
    moreover have "rc = ssize_of ?h" "r' = ?r'"
      using push False room by (simp_all add: Push_MpscRingBuf_def Let_def cas_head_def)
    ultimately show ?thesis using start by (simp del: exec.simps replicate_Suc)
  qed
qed


text \<open>What a pop for destination \<open>d\<close> does in the sequential model, past the size check.\<close>

definition mpsc_pop_to :: "size_t \<Rightarrow> ring \<Rightarrow> dest \<Rightarrow> int \<times> byte list option \<times> size_t \<times> ring" where
  "mpsc_pop_to l r d =
     (let l' = (if l = r_tail r then r_head r else l);
          idx = r_tail r AND r_mask r;
          buf = memcpy_out r (GET_BUFFER r idx) (want r d)
      in if l = r_tail r \<and> l' = r_tail r then (RINGBUF_EMPTY, None, l', r)
         else if (ucast (load_slot r idx) :: c_int) AND SLOT_EMPTY \<noteq> 0
         then (RINGBUF_SLOT_WRITING_DATA, None, l', r)
         else (answer d (r_tail r) buf, Some buf, l',
               (store_slot r idx (ucast SLOT_EMPTY))\<lparr>r_tail := r_tail r + 1\<rparr>))"

lemma Pop_Mpsc_pop_to: "\<not> r_objSize r < sz \<Longrightarrow> Pop_MpscRingBuf l r sz = mpsc_pop_to l r (ToBuf sz)"
  by (simp add: Pop_MpscRingBuf_def mpsc_pop_to_def Let_def stat_flags(3))

lemma Pop_w_cb_Mpsc_pop_to:
  "Pop_w_cb_MpscRingBuf l r (\<lambda>b _. (cb b, ())) () =
     (case mpsc_pop_to l r (ToCb cb) of (rc, buf, l', r') \<Rightarrow> (rc, (), l', r'))"
  by (simp add: Pop_w_cb_MpscRingBuf_def mpsc_pop_to_def Let_def osz_def stat_flags(3))

lemma mpsc_slot_alone:
  fixes s :: mpsc_sys and l :: size_t and d :: dest
  assumes pc: "d_pc s = DIdle" and k: "want (q_ring s) d + 3 \<le> k"
  defines "ct \<equiv> r_tail (q_ring s)"
  defines "idx \<equiv> ct AND r_mask (q_ring s)"
  defines "buf \<equiv> memcpy_out (q_ring s) (GET_BUFFER (q_ring s) idx) (want (q_ring s) d)"
  shows "exec mpsc_step (s\<lparr>q_head := l, d_pc := DSlot d ct\<rparr>) (replicate k DStep) =
    (if (ucast (load_slot (q_ring s) idx) :: c_int) AND SLOT_EMPTY \<noteq> 0
     then (s\<lparr>q_head := l\<rparr>, [DRet RINGBUF_SLOT_WRITING_DATA])
     else (s\<lparr>q_ring := (store_slot (q_ring s) idx (ucast SLOT_EMPTY))\<lparr>r_tail := ct + 1\<rparr>, q_head := l\<rparr>,
           [DGet buf, DRet (answer d ct buf)]))"
proof (cases "(ucast (load_slot (q_ring s) idx) :: c_int) AND SLOT_EMPTY \<noteq> 0")
  case True
  have idle: "s\<lparr>q_head := l, d_pc := DIdle\<rparr> = s\<lparr>q_head := l\<rparr>" using pc by (cases s) simp
  have "exec mpsc_step (s\<lparr>q_head := l, d_pc := DSlot d ct\<rparr>) (replicate 1 DStep) =
      (s\<lparr>q_head := l\<rparr>, [DRet RINGBUF_SLOT_WRITING_DATA])"
    using True idle by (simp add: idx_def Let_def)
  then have "exec mpsc_step (s\<lparr>q_head := l, d_pc := DSlot d ct\<rparr>) (replicate k DStep) =
      (s\<lparr>q_head := l\<rparr>, [DRet RINGBUF_SLOT_WRITING_DATA])"
    by (rule mpsc_then_idle) (use k pc in simp_all)
  then show ?thesis using True by simp
next
  case False
  let ?r = "q_ring s" and ?n = "want (q_ring s) d"
  let ?s = "s\<lparr>q_head := l, d_pc := DCopy d ct []\<rparr>"
  let ?final = "s\<lparr>q_ring := (store_slot ?r idx (ucast SLOT_EMPTY))\<lparr>r_tail := ct + 1\<rparr>, q_head := l\<rparr>"
  have "mpsc_step (s\<lparr>q_head := l, d_pc := DSlot d ct\<rparr>) DStep = (?s, [])"
    using False by (simp add: idx_def Let_def stat_flags(3))
  note first = mpsc_quiet_step [OF this, of "?n + 2"]
  have "exec mpsc_step ?s (replicate (want (q_ring ?s) d - 0 + 2) DStep) =
    (?s\<lparr>q_ring := (store_slot (q_ring ?s) (ct AND r_mask (q_ring ?s)) (ucast SLOT_EMPTY))\<lparr>r_tail := ct + 1\<rparr>,
       d_pc := DIdle\<rparr>,
     [DGet (memcpy_out (q_ring ?s) (GET_BUFFER ?r idx) (want (q_ring ?s) d)),
      DRet (answer d ct (memcpy_out (q_ring ?s) (GET_BUFFER ?r idx) (want (q_ring ?s) d)))])"
    by (rule mpsc_pop_copy_alone) (simp_all add: memcpy_out_0 idx_def)
  moreover have "?s\<lparr>q_ring := x, d_pc := DIdle\<rparr> = s\<lparr>q_ring := x, q_head := l\<rparr>" for x
    using pc by (cases s) simp
  ultimately have "exec mpsc_step (s\<lparr>q_head := l, d_pc := DSlot d ct\<rparr>) (replicate (Suc (?n + 2)) DStep) =
      (?final, [DGet buf, DRet (answer d ct buf)])"
    unfolding first by (simp add: idx_def buf_def del: replicate_Suc exec.simps mpsc_step.simps)
  then have "exec mpsc_step (s\<lparr>q_head := l, d_pc := DSlot d ct\<rparr>) (replicate k DStep) =
      (?final, [DGet buf, DRet (answer d ct buf)])"
    by (rule mpsc_then_idle) (use k pc in simp_all)
  then show ?thesis using False by simp
qed

lemma mpsc_pop_alone:
  assumes pc: "d_pc s = DIdle" and pop: "mpsc_pop_to (q_head s) (q_ring s) d = (rc, buf, l', r')"
  shows "exec mpsc_step (s\<lparr>d_pc := DTail d\<rparr>) (replicate (want (q_ring s) d + 5) DStep) =
    (s\<lparr>q_ring := r', q_head := l'\<rparr>, (case buf of None \<Rightarrow> [] | Some b \<Rightarrow> [DGet b]) @ [DRet rc])"
proof (cases "q_head s = r_tail (q_ring s)")
  case False
  have "mpsc_step (s\<lparr>d_pc := DTail d\<rparr>) DStep = (s\<lparr>q_head := q_head s, d_pc := DSlot d (r_tail (q_ring s))\<rparr>, [])"
    using False by (simp add: Let_def)
  from mpsc_quiet_step [OF this, of "want (q_ring s) d + 4"]
  show ?thesis
    using mpsc_slot_alone [OF pc, of d "want (q_ring s) d + 4" "q_head s"] pop False
    by (auto simp: mpsc_pop_to_def Let_def eval_nat_numeral simp del: replicate_Suc exec.simps split: if_splits)
next
  case True
  let ?q = "r_tail (q_ring s)" and ?n = "want (q_ring s) d"
  have "mpsc_step (s\<lparr>d_pc := DTail d\<rparr>) DStep = (s\<lparr>d_pc := DHead d ?q\<rparr>, [])"
    using True by (simp add: Let_def)
  from mpsc_quiet_step [OF this, of "?n + 4"]
  have one: "exec mpsc_step (s\<lparr>d_pc := DTail d\<rparr>) (replicate (?n + 5) DStep) =
      exec mpsc_step (s\<lparr>d_pc := DHead d ?q\<rparr>) (replicate (?n + 4) DStep)"
    by (simp add: eval_nat_numeral del: replicate_Suc exec.simps)
  show ?thesis
  proof (cases "r_head (q_ring s) = ?q")
    case drained: True
    have "s\<lparr>q_head := x, d_pc := DIdle\<rparr> = s\<lparr>q_head := x\<rparr>" for x using pc by (cases s) simp
    then have "exec mpsc_step (s\<lparr>d_pc := DHead d ?q\<rparr>) (replicate 1 DStep) =
        (s\<lparr>q_head := ?q\<rparr>, [DRet RINGBUF_EMPTY])"
      using drained by (simp add: Let_def)
    then have "exec mpsc_step (s\<lparr>d_pc := DHead d ?q\<rparr>) (replicate (?n + 4) DStep) =
        (s\<lparr>q_head := ?q\<rparr>, [DRet RINGBUF_EMPTY])"
      by (rule mpsc_then_idle) (simp_all add: pc)
    moreover have "rc = RINGBUF_EMPTY" "buf = None" "l' = ?q" "r' = q_ring s"
      using pop True drained by (auto simp: mpsc_pop_to_def Let_def)
    ultimately show ?thesis using one by (simp del: replicate_Suc)
  next
    case more: False
    have "mpsc_step (s\<lparr>d_pc := DHead d ?q\<rparr>) DStep =
        (s\<lparr>q_head := r_head (q_ring s), d_pc := DSlot d ?q\<rparr>, [])"
      using more by (simp add: Let_def)
    from mpsc_quiet_step [OF this, of "?n + 3"]
    show ?thesis
      using one mpsc_slot_alone [OF pc, of d "?n + 3" "r_head (q_ring s)"] pop True more
      by (auto simp: mpsc_pop_to_def Let_def eval_nat_numeral simp del: replicate_Suc exec.simps split: if_splits)
  qed
qed


text \<open>C32: The interleaving model of the MPSC ring is the sequential one cut into its accesses: an
  operation whose thread runs undisturbed leaves exactly the ring and the cache, and returns
  exactly the code, of \<^verbatim>\<open>Push_MpscRingBuf\<close>, \<^verbatim>\<open>Pop_MpscRingBuf\<close> or \<^verbatim>\<open>Pop_w_cb_MpscRingBuf\<close>.\<close>

theorem mpsc_steps_implement:
  assumes "q_pcs s t = QIdle" "d_pc s = DIdle"
    and "Push_MpscRingBuf (q_ring s) args sz = (prc, pr)"
    and "Pop_MpscRingBuf (q_head s) (q_ring s) sz = (crc, buf, cl, cr)"
    and "Pop_w_cb_MpscRingBuf (q_head s) (q_ring s) (\<lambda>b _. (cb b, ())) () = (wrc, u, wl, wr)"
  shows "(\<exists>e. exec mpsc_step s (QPush t args sz # replicate (unat sz + 4) (QStep t)) =
      (s\<lparr>q_ring := pr\<rparr>, e @ [QRet t prc])) \<and>
    (\<exists>e. exec mpsc_step s (DPop (ToBuf sz) # replicate (unat sz + 5) DStep) =
      (s\<lparr>q_ring := cr, q_head := cl\<rparr>, e @ [DRet crc]) \<and> (\<forall>b. buf = Some b \<longrightarrow> DGet b \<in> set e)) \<and>
    (\<exists>e. exec mpsc_step s (DPop (ToCb cb) # replicate (osz (q_ring s) + 5) DStep) =
      (s\<lparr>q_ring := wr, q_head := wl\<rparr>, e @ [DRet wrc]))"
proof (intro conjI)
  show "\<exists>e. exec mpsc_step s (QPush t args sz # replicate (unat sz + 4) (QStep t)) =
      (s\<lparr>q_ring := pr\<rparr>, e @ [QRet t prc])"
    by (rule mpsc_push_alone [OF assms(1,3)])
  show "\<exists>e. exec mpsc_step s (DPop (ToBuf sz) # replicate (unat sz + 5) DStep) =
      (s\<lparr>q_ring := cr, q_head := cl\<rparr>, e @ [DRet crc]) \<and> (\<forall>b. buf = Some b \<longrightarrow> DGet b \<in> set e)"
  proof (cases "r_objSize (q_ring s) < sz")
    case True
    then show ?thesis using assms(2,4) by (auto simp: Pop_MpscRingBuf_def mpsc_idle_steps)
  next
    case False
    then have "mpsc_pop_to (q_head s) (q_ring s) (ToBuf sz) = (crc, buf, cl, cr)"
      using assms(4) Pop_Mpsc_pop_to by simp
    from mpsc_pop_alone [OF assms(2) this] show ?thesis
      using assms(2) False by (cases buf) (simp_all del: replicate_Suc)
  qed
  obtain wbuf where "mpsc_pop_to (q_head s) (q_ring s) (ToCb cb) = (wrc, wbuf, wl, wr)"
    using assms(5) [unfolded Pop_w_cb_Mpsc_pop_to] by (auto split: prod.splits)
  from mpsc_pop_alone [OF assms(2) this] assms(2)
  show "\<exists>e. exec mpsc_step s (DPop (ToCb cb) # replicate (osz (q_ring s) + 5) DStep) =
      (s\<lparr>q_ring := wr, q_head := wl\<rparr>, e @ [DRet wrc])"
    by (simp del: replicate_Suc)
qed

theorem mpsc_steps_implement_witness:
  "\<exists>s' e. exec mpsc_step (mpsc_start 0 (make_ring 2 8 MPSC_SLOT)) (DPop (ToBuf 1) # replicate 6 DStep) =
     (s', e @ [DRet RINGBUF_EMPTY])"
proof -
  let ?r = "make_ring 2 8 MPSC_SLOT"
  let ?s = "mpsc_start 0 ?r"
  have f: "q_ring ?s = ?r" "q_head ?s = 0" and idle: "q_pcs ?s 0 = QIdle" "d_pc ?s = DIdle"
    by (simp_all add: mpsc_start_def)
  obtain prc pr where push: "Push_MpscRingBuf (q_ring ?s) (\<lambda>i. 0) 1 = (prc, pr)" by fastforce
  obtain crc buf cl cr where pop: "Pop_MpscRingBuf (q_head ?s) (q_ring ?s) 1 = (crc, buf, cl, cr)"
    by (metis prod_cases4)
  obtain wrc u wl wr where cb:
    "Pop_w_cb_MpscRingBuf (q_head ?s) (q_ring ?s) (\<lambda>b _. ((\<lambda>_. 0) b, ())) () = (wrc, u, wl, wr)"
    by (metis prod_cases4)
  have "fst (Pop_MpscRingBuf 0 ?r 1) = RINGBUF_EMPTY" by code_simp
  then have "crc = RINGBUF_EMPTY" using pop f by simp
  with mpsc_steps_implement [OF idle push pop cb]
  show ?thesis by (simp del: exec.simps replicate_Suc) metis
qed

end
