(* ===== verification/RB_Mpmc.thy ===== *)
theory RB_Mpmc
  imports RB_Ring RB_Fifo
begin

text \<open>
  \<^verbatim>\<open>RingBuf_Mpmc.c\<close>: the multi-producer, multi-consumer ring, whose slots carry sequence
  numbers. Each operation here runs without interference; \<^verbatim>\<open>RB_Mpmc_Conc\<close> splits the same
  operations into their atomic accesses. The signed subtraction of the two positions is
  undefined in C when it overflows, so every operation returns an option, \<open>None\<close> being
  undefined behaviour.
\<close>

section \<open>The operations\<close>

text \<open>\<open>(intptr_t) a - (intptr_t) b\<close>.\<close>

definition intptr_diff :: "size_t \<Rightarrow> size_t \<Rightarrow> int option" where
  "intptr_diff a b =
     (let d = ssize_of a - ssize_of b in if - (2 ^ 63) \<le> d \<and> d < 2 ^ 63 then Some d else None)"

definition Push_MpmcRingBuf :: "ring \<Rightarrow> src \<Rightarrow> size_t \<Rightarrow> (int \<times> ring) option" where
  "Push_MpmcRingBuf r args sz =
     (if r_objSize r < sz then Some (RINGBUF_PUSH_SIZE_TOO_LARGE, r)
      else
        let expected_head = r_head r;
            idx = expected_head AND r_mask r;
            seq = load_slot r idx
        in case intptr_diff seq expected_head of
             None \<Rightarrow> None
           | Some dif \<Rightarrow>
               if 0 < dif then Some (RINGBUF_CONTENTION, r)
               else if dif < 0 then Some (RINGBUF_FULL, r)
               else
                 let desired = expected_head + 1;
                     (success, expected_head, r) = cas_head r expected_head desired
                 in if \<not> success then Some (RINGBUF_CONTENTION, r)
                    else
                      let r = memcpy_in r (GET_BUFFER r idx) args (unat sz);
                          r = store_slot r idx (expected_head + 1)
                      in Some (ssize_of expected_head, r))"

definition Pop_MpmcRingBuf :: "ring \<Rightarrow> size_t \<Rightarrow> (int \<times> byte list option \<times> ring) option" where
  "Pop_MpmcRingBuf r sz =
     (if r_objSize r < sz then Some (RINGBUF_POP_SIZE_TOO_LARGE, None, r)
      else
        let expected_tail = r_tail r;
            idx = expected_tail AND r_mask r;
            seq = load_slot r idx
        in case intptr_diff seq (expected_tail + 1) of
             None \<Rightarrow> None
           | Some dif \<Rightarrow>
               if 0 < dif then Some (RINGBUF_CONTENTION, None, r)
               else if dif < 0 then Some (RINGBUF_EMPTY, None, r)
               else
                 let desired = expected_tail + 1;
                     (success, expected_tail, r) = cas_tail r expected_tail desired
                 in if \<not> success then Some (RINGBUF_CONTENTION, None, r)
                    else
                      let buf = memcpy_out r (GET_BUFFER r idx) (unat sz);
                          r = store_slot r idx (expected_tail + r_objNum r)
                      in Some (ssize_of expected_tail, Some buf, r))"

text \<open>
  The callback reads the object in place and may update what its second argument points to;
  it is a parameter, from the object's bytes and the argument's state to the returned code and
  the new state.
\<close>

definition Pop_w_cb_MpmcRingBuf ::
    "ring \<Rightarrow> (byte list \<Rightarrow> 'a \<Rightarrow> int \<times> 'a) \<Rightarrow> 'a \<Rightarrow> (int \<times> 'a \<times> ring) option" where
  "Pop_w_cb_MpmcRingBuf r cb args =
     (let expected_tail = r_tail r;
          idx = expected_tail AND r_mask r;
          seq = load_slot r idx
      in case intptr_diff seq (expected_tail + 1) of
           None \<Rightarrow> None
         | Some dif \<Rightarrow>
             if 0 < dif then Some (RINGBUF_CONTENTION, args, r)
             else if dif < 0 then Some (RINGBUF_EMPTY, args, r)
             else
               let desired = expected_tail + 1;
                   (success, expected_tail, r) = cas_tail r expected_tail desired
               in if \<not> success then Some (RINGBUF_CONTENTION, args, r)
                  else
                    let (rc, args) = cb (memcpy_out r (GET_BUFFER r idx) (osz r)) args;
                        r = store_slot r idx (expected_tail + r_objNum r)
                    in Some (rc, args, r))"

section \<open>The invariant: what the sequence numbers say\<close>

text \<open>
  Between operations, with the unbounded positions \<open>T\<close> and \<open>H\<close>: the slot of a stored object
  carries its ticket plus one, the slot of a free place the ticket it waits for.
\<close>

definition mpmc_at :: "ring \<Rightarrow> nat \<Rightarrow> nat \<Rightarrow> bool" where
  "mpmc_at r T H \<longleftrightarrow> ring_wf r \<and> slots_wf r \<and> r_tail r = of_nat T \<and> r_head r = of_nat H \<and>
     T \<le> H \<and> H \<le> T + cap r \<and>
     (\<forall>k. T \<le> k \<and> k < H \<longrightarrow> seq_at r k = of_nat (k + 1)) \<and>
     (\<forall>k. H \<le> k \<and> k < T + cap r \<longrightarrow> seq_at r k = of_nat k)"

text \<open>The positions are where the signed comparison cannot overflow, for \<open>n\<close> more operations.\<close>

definition mpmc_room :: "ring \<Rightarrow> nat \<Rightarrow> bool" where
  "mpmc_room r n \<longleftrightarrow> unat (r_head r) + cap r + n \<le> 2 ^ 63"

definition mpmc_ok :: "ring \<Rightarrow> bool" where
  "mpmc_ok r \<longleftrightarrow> r_tail r \<le> r_head r \<and> mpmc_at r (unat (r_tail r)) (unat (r_head r))"

lemma intptr_diff_small:
  assumes "x < 2 ^ 63" "y < 2 ^ 63"
  shows "intptr_diff (of_nat x) (of_nat y) = Some (int x - int y)"
proof -
  have "unat (of_nat x :: size_t) = x" "unat (of_nat y :: size_t) = y"
    by (rule unat_of_nat64, use assms in simp)+
  then have "ssize_of (of_nat x) = int x" "ssize_of (of_nat y) = int y"
    using ssize_of_small [of "of_nat x"] ssize_of_small [of "of_nat y"] assms by simp_all
  moreover have "- (2 ^ 63) \<le> int x - int y \<and> int x - int y < 2 ^ 63" using assms by auto
  ultimately show ?thesis unfolding intptr_diff_def Let_def by (simp only: if_True simp_thms)
qed

lemma load_slot_ticket: "load_slot r (of_nat k AND r_mask r) = seq_at r k"
  by (simp add: seq_at_def)

text \<open>The number the producer reads at the head, and the consumer at the tail.\<close>

lemma head_seq:
  assumes at: "mpmc_at r T H"
  shows "seq_at r H = (if H = T + cap r then of_nat (T + 1) else of_nat H)"
proof (cases "H = T + cap r")
  case True
  have wf: "ring_wf r" using at by (simp add: mpmc_at_def)
  have "seq_at r H = seq_at r T" by (rule seq_at_mod [OF wf]) (simp add: True)
  moreover have "T < H" using True wf_cap_pos [OF wf] by simp
  ultimately show ?thesis using at True by (simp add: mpmc_at_def)
next
  case False
  with at show ?thesis by (simp add: mpmc_at_def)
qed

lemma tail_seq:
  assumes at: "mpmc_at r T H"
  shows "seq_at r T = (if H = T then of_nat T else of_nat (T + 1))"
  using at wf_cap_pos [of r] by (auto simp: mpmc_at_def)

text \<open>The two comparisons, below the sign bit.\<close>

lemma head_dif:
  assumes at: "mpmc_at r T H" and room: "H + cap r < 2 ^ 63"
  shows "intptr_diff (seq_at r H) (of_nat H) = Some (if H = T + cap r then 1 - int (cap r) else 0)"
proof -
  have "T + 1 < 2 ^ 63" "H < 2 ^ 63"
    using at room wf_cap_ge2 [of r] by (auto simp: mpmc_at_def)
  then show ?thesis
    unfolding head_seq [OF at] using intptr_diff_small [of "T + 1" H] intptr_diff_small [of H H]
    by (cases "H = T + cap r") simp_all
qed

lemma tail_dif:
  assumes at: "mpmc_at r T H" and room: "H + cap r < 2 ^ 63"
  shows "intptr_diff (seq_at r T) (of_nat (T + 1)) = Some (if H = T then - 1 else 0)"
proof -
  have "T + 1 < 2 ^ 63" "T < 2 ^ 63"
    using at room wf_cap_ge2 [of r] by (auto simp: mpmc_at_def)
  then show ?thesis
    unfolding tail_seq [OF at] using intptr_diff_small [of T "T + 1"] intptr_diff_small [of "T + 1" "T + 1"]
    by (cases "H = T") simp_all
qed


lemma of_nat_cap: "of_nat (cap r) = r_objNum r"
  by (simp add: cap_def)

lemma mpmc_at_push:
  assumes at: "mpmc_at r T H" and room: "H < T + cap r"
    and r': "geom r' = geom r" "r_tail r' = r_tail r" "cells r' = cells r" "r_head r' = of_nat (H + 1)"
  shows "mpmc_at (store_slot r' (of_nat H AND r_mask r') (of_nat (H + 1))) T (H + 1)"
proof -
  note geo = geom_eqD [OF r'(1)]
  have wf: "ring_wf r'" "slots_wf r'" using at by (simp_all add: mpmc_at_def geo)
  have seq: "seq_at r' k = seq_at r k" for k by (simp add: seq_at_def load_slot_def geo r'(3))
  have other: "k mod cap r \<noteq> H mod cap r" if "T \<le> k" "k < T + cap r" "k \<noteq> H" for k
    using mod_less_distinct [of k H "cap r"] mod_less_distinct [of H k "cap r"] at that room
    by (cases "k < H") (auto simp: mpmc_at_def)
  have store: "seq_at (store_slot r' (of_nat H AND r_mask r) v) k =
      (if k mod cap r = H mod cap r then v else seq_at r k)" for v k
    using seq_at_store [OF wf, of H v k] by (simp only: geo seq)
  show ?thesis
    using at room other by (auto simp: mpmc_at_def store seq geo r' less_Suc_eq)
qed

lemma mpmc_at_pop:
  assumes at: "mpmc_at r T H" and ne: "T < H"
    and r': "geom r' = geom r" "r_head r' = r_head r" "cells r' = cells r" "r_tail r' = of_nat (T + 1)"
  shows "mpmc_at (store_slot r' (of_nat T AND r_mask r') (of_nat T + r_objNum r')) (T + 1) H"
proof -
  note geo = geom_eqD [OF r'(1)]
  have wf: "ring_wf r'" "slots_wf r'" using at by (simp_all add: mpmc_at_def geo)
  have seq: "seq_at r' k = seq_at r k" for k by (simp add: seq_at_def load_slot_def geo r'(3))
  have other: "k mod cap r \<noteq> T mod cap r" if "T < k" "k < T + cap r" for k
    using mod_less_distinct [of T k "cap r"] that by simp
  have free: "k = T + cap r" if "k mod cap r = T mod cap r" "T < k" "k < Suc (T + cap r)" for k
    using other that by (cases "k < T + cap r") auto
  have store: "seq_at (store_slot r' (of_nat T AND r_mask r) v) k =
      (if k mod cap r = T mod cap r then v else seq_at r k)" for v k
    using seq_at_store [OF wf, of T v k] by (simp only: geo seq)
  have stored: "k mod cap r \<noteq> T mod cap r" if "T + 1 \<le> k" "k < H" for k
    by (rule other) (use that at in \<open>auto simp: mpmc_at_def\<close>)
  have freed: "(if k mod cap r = T mod cap r then of_nat T + r_objNum r else seq_at r k) = of_nat k"
    if "H \<le> k" "k < Suc (T + cap r)" for k
  proof (cases "k = T + cap r")
    case True
    then show ?thesis by (simp add: of_nat_cap)
  next
    case False
    then have "k mod cap r \<noteq> T mod cap r" using free [of k] that ne by fastforce
    then show ?thesis using at that False by (simp add: mpmc_at_def)
  qed
  show ?thesis
    using at ne stored freed by (auto simp: mpmc_at_def store seq geo r')
qed

lemma mpmc_at_count:
  assumes "mpmc_at r T H"
  shows "count r = H - T"
proof -
  have "H - T < 2 ^ 64" "T \<le> H" using assms wf_cap_le [of r] by (auto simp: mpmc_at_def)
  then have "unat (of_nat H - of_nat T :: size_t) = H - T" by (intro unat_ticket_diff)
  then show ?thesis using assms by (simp add: count_def mpmc_at_def)
qed

lemma mpmc_okI:
  assumes "mpmc_at r T H" "H < 2 ^ 64"
  shows "mpmc_ok r"
proof -
  have le: "T \<le> H" using assms(1) by (simp add: mpmc_at_def)
  then have "unat (of_nat T :: size_t) = T" "unat (of_nat H :: size_t) = H"
    using assms(2) by (intro unat_of_nat64; simp)+
  moreover have "r_tail r = of_nat T" "r_head r = of_nat H" using assms(1) by (simp_all add: mpmc_at_def)
  ultimately show ?thesis using assms(1) le by (simp add: mpmc_ok_def unat_le_iff)
qed

section \<open>What the operations do\<close>

lemma mpmc_okE:
  assumes "mpmc_ok r"
  obtains T H where "mpmc_at r T H" "T = unat (r_tail r)" "H = unat (r_head r)"
  using assms by (simp add: mpmc_ok_def)

lemma Push_Mpmc_cases:
  assumes ok: "mpmc_ok r" and room: "mpmc_room r (Suc n)"
  shows "\<exists>rc r'. Push_MpmcRingBuf r args sz = Some (rc, r') \<and> mpmc_ok r' \<and> mpmc_room r' n \<and>
    geom r' = geom r \<and>
    (if r_objSize r < sz then rc = RINGBUF_PUSH_SIZE_TOO_LARGE \<and> r' = r
     else if count r = cap r then rc = RINGBUF_FULL \<and> r' = r
     else rc = ssize_of (r_head r) \<and> 0 \<le> rc \<and>
       ring_queue r' = ring_queue r @ [map args [0..<unat sz] @ drop (unat sz) (elem r (r_head r))])"
proof -
  from ok obtain T H where at: "mpmc_at r T H" and H: "H = unat (r_head r)" by (rule mpmc_okE)
  have small: "H + cap r < 2 ^ 63" and room': "mpmc_room r n" using room by (simp_all add: mpmc_room_def H)
  have head: "of_nat H = r_head r" by (simp add: H)
  note cnt = mpmc_at_count [OF at]
  have dif: "intptr_diff (load_slot r (r_head r AND r_mask r)) (r_head r) =
      Some (if count r = cap r then 1 - int (cap r) else 0)"
    using head_dif [OF at small] at unfolding load_slot_ticket [symmetric] head
    by (auto simp: cnt mpmc_at_def)
  have wf: "ring_wf r" and two: "2 \<le> cap r" using at wf_cap_ge2 by (auto simp: mpmc_at_def)
  show ?thesis
  proof (cases "r_objSize r < sz \<or> count r = cap r")
    case True
    then show ?thesis
      using ok room' dif two by (auto simp: Push_MpmcRingBuf_def Let_def)
  next
    case False
    then have n: "unat sz \<le> osz r" by (simp add: osz_def unat_less_iff)
    have lt: "H < T + cap r" "count r < cap r" using False at by (auto simp: cnt mpmc_at_def)
    define q where "q = (memcpy_in (r\<lparr>r_head := r_head r + 1\<rparr>)
        (GET_BUFFER r (r_head r AND r_mask r)) args (unat sz))"
    have q: "geom q = geom r" "r_head q = of_nat (H + 1)" "r_tail q = r_tail r" "cells q = cells r"
      "q = (memcpy_in r (GET_BUFFER r (r_head r AND r_mask r)) args (unat sz))\<lparr>r_head := r_head r + 1\<rparr>"
    proof -
      have "memcpy_in (r\<lparr>r_head := h\<rparr>) a args k = (memcpy_in r a args k)\<lparr>r_head := h\<rparr>" for h a k
        by (induction k) (simp_all add: write_byte_def)
      then show "q = (memcpy_in r (GET_BUFFER r (r_head r AND r_mask r)) args (unat sz))\<lparr>r_head := r_head r + 1\<rparr>"
        by (simp add: q_def)
    qed (simp_all add: q_def flip: head)
    let ?r' = "store_slot q (r_head r AND r_mask r) (r_head r + 1)"
    have call: "Push_MpmcRingBuf r args sz = Some (ssize_of (r_head r), ?r')"
      using False dif by (simp add: Push_MpmcRingBuf_def Let_def cas_head_def q_def)
    have "mpmc_at ?r' T (H + 1)"
      using mpmc_at_push [OF at lt(1) q(1,3,4,2)] geom_eqD(3) [OF q(1)] head by (simp add: add.commute)
    moreover have lim: "H + 1 < 2 ^ 64" using small by simp
    ultimately have "mpmc_ok ?r'" by (rule mpmc_okI)
    moreover have "unat (r_head ?r') = H + 1"
      using unat_of_nat64 [OF lim] q(2) by simp
    then have "mpmc_room ?r' n"
      using room geom_eqD(6) [OF q(1)] by (simp add: mpmc_room_def H)
    moreover have "ring_queue ?r' =
        ring_queue r @ [map args [0..<unat sz] @ drop (unat sz) (elem r (r_head r))]"
      using ring_queue_push(2) [OF wf lt(2) n, of args] by (simp add: q(5))
    moreover have "0 \<le> ssize_of (r_head r)"
      using ssize_of_small [of "r_head r"] small by (simp add: H)
    ultimately show ?thesis using False call q(1) by simp
  qed
qed


lemma take_elem:
  "n \<le> osz r \<Longrightarrow> take n (elem r w) = memcpy_out r (GET_BUFFER r (w AND r_mask r)) n"
  by (simp add: elem_def memcpy_out_def take_map)

lemma Pop_Mpmc_cases:
  assumes ok: "mpmc_ok r" and room: "mpmc_room r (Suc n)"
  shows "\<exists>rc buf r'. Pop_MpmcRingBuf r sz = Some (rc, buf, r') \<and> mpmc_ok r' \<and> mpmc_room r' n \<and>
    geom r' = geom r \<and>
    (if r_objSize r < sz then rc = RINGBUF_POP_SIZE_TOO_LARGE \<and> buf = None \<and> r' = r
     else if count r = 0 then rc = RINGBUF_EMPTY \<and> buf = None \<and> r' = r
     else rc = ssize_of (r_tail r) \<and> 0 \<le> rc \<and>
       buf = Some (take (unat sz) (hd (ring_queue r))) \<and> ring_queue r' = tl (ring_queue r))"
proof -
  from ok obtain T H where at: "mpmc_at r T H" and T: "T = unat (r_tail r)" and H: "H = unat (r_head r)"
    by (rule mpmc_okE)
  have small: "H + cap r < 2 ^ 63" and room': "mpmc_room r n" using room by (simp_all add: mpmc_room_def H)
  have tail: "of_nat T = r_tail r" by (simp add: T)
  note cnt = mpmc_at_count [OF at]
  have le: "T \<le> H" using at by (simp add: mpmc_at_def)
  have dif: "intptr_diff (load_slot r (r_tail r AND r_mask r)) (r_tail r + 1) =
      Some (if count r = 0 then - 1 else 0)"
    using tail_dif [OF at small] le unfolding load_slot_ticket [symmetric] tail
    by (auto simp: cnt tail add.commute)
  show ?thesis
  proof (cases "r_objSize r < sz \<or> count r = 0")
    case True
    then show ?thesis
      using ok room' dif by (auto simp: Pop_MpmcRingBuf_def Let_def)
  next
    case False
    then have n: "unat sz \<le> osz r" and ne: "0 < count r" "T < H"
      by (simp_all add: osz_def unat_less_iff cnt)
    let ?q = "r\<lparr>r_tail := r_tail r + 1\<rparr>"
    let ?r' = "store_slot ?q (r_tail r AND r_mask r) (r_tail r + r_objNum r)"
    have call: "Pop_MpmcRingBuf r sz =
        Some (ssize_of (r_tail r), Some (memcpy_out r (GET_BUFFER r (r_tail r AND r_mask r)) (unat sz)), ?r')"
      using False dif by (simp add: Pop_MpmcRingBuf_def Let_def cas_tail_def memcpy_out_def)
    have q: "geom ?q = geom r" "r_head ?q = r_head r" "cells ?q = cells r" "r_tail ?q = of_nat (T + 1)"
      by (simp_all add: tail add.commute)
    have "mpmc_at ?r' (T + 1) H"
      using mpmc_at_pop [OF at ne(2) q] by (simp add: tail)
    moreover have "H < 2 ^ 64" using small by simp
    ultimately have "mpmc_ok ?r'" by (rule mpmc_okI)
    moreover have "mpmc_room ?r' n" using room' by (simp add: mpmc_room_def)
    moreover have "0 \<le> ssize_of (r_tail r)"
      using ssize_of_small [of "r_tail r"] small le by (simp add: T)
    ultimately show ?thesis
      using False call ring_queue_pop(1) [OF ne(1)] take_elem [OF n] by simp
  qed
qed

section \<open>The MPMC ring is a bounded queue\<close>

text \<open>
  A client that moves whole objects and takes a non-negative code for success. \<open>None\<close> is the
  state after undefined behaviour.
\<close>

fun mpmc_do :: "ring option \<Rightarrow> qop \<Rightarrow> qres \<times> ring option" where
  "mpmc_do None x = (Popped None, None)"
| "mpmc_do (Some r) (Enq v) =
     (case Push_MpmcRingBuf r ((!) v) (r_objSize r) of
        None \<Rightarrow> (Pushed False, None)
      | Some (rc, r') \<Rightarrow> (Pushed (0 \<le> rc), Some r'))"
| "mpmc_do (Some r) Deq =
     (case Pop_MpmcRingBuf r (r_objSize r) of
        None \<Rightarrow> (Popped None, None)
      | Some (rc, buf, r') \<Rightarrow> (Popped (if 0 \<le> rc then buf else None), Some r'))"

fun mpmc_state_ok :: "ring option \<Rightarrow> bool" where
  "mpmc_state_ok None = False"
| "mpmc_state_ok (Some r) = mpmc_ok r"

lemma map_nth_osz: "length v = osz r \<Longrightarrow> map ((!) v) [0..<unat (r_objSize r)] = v"
  by (auto simp: osz_def intro: nth_equalityI)

lemma mpmc_ok_bounded:
  assumes "mpmc_ok r"
  shows "count r \<le> cap r"
proof -
  from assms obtain T H where at: "mpmc_at r T H" by (rule mpmc_okE)
  then show ?thesis unfolding mpmc_at_count [OF at] by (auto simp: mpmc_at_def)
qed

lemma mpmc_do_refines:
  assumes ok: "mpmc_ok r" and room: "mpmc_room r (Suc n)" and x: "op_fits (osz r) x"
  shows "\<exists>y r'. mpmc_do (Some r) x = (y, Some r') \<and> mpmc_ok r' \<and> mpmc_room r' n \<and> geom r' = geom r \<and>
    spec_op (cap r) (ring_queue r) x = (y, ring_queue r')"
proof (cases x)
  case (Enq v)
  then have v: "map ((!) v) [0..<unat (r_objSize r)] = v" "length v = osz r"
    using x map_nth_osz by simp_all
  obtain rc r' where "Push_MpmcRingBuf r ((!) v) (r_objSize r) = Some (rc, r')"
    "mpmc_ok r'" "mpmc_room r' n" "geom r' = geom r"
    "if count r = cap r then rc = RINGBUF_FULL \<and> r' = r
     else 0 \<le> rc \<and> ring_queue r' = ring_queue r @ [v]"
    using Push_Mpmc_cases [OF ok room, of "(!) v" "r_objSize r"] v(2)
    by (auto simp: v(1) osz_def split: if_splits)
  then show ?thesis
    using mpmc_ok_bounded [OF ok] Enq by (auto simp: err_codes split: if_splits)
next
  case Deq
  obtain rc buf r' where "Pop_MpmcRingBuf r (r_objSize r) = Some (rc, buf, r')"
    "mpmc_ok r'" "mpmc_room r' n" "geom r' = geom r"
    "if count r = 0 then rc = RINGBUF_EMPTY \<and> buf = None \<and> r' = r
     else 0 \<le> rc \<and> buf = Some (take (osz r) (hd (ring_queue r))) \<and> ring_queue r' = tl (ring_queue r)"
    using Pop_Mpmc_cases [OF ok room, of "r_objSize r"] by (auto simp: osz_def split: if_splits)
  moreover have "length (hd (ring_queue r)) = osz r" if "0 < count r"
    using ring_queue_pop(1) [OF that] by simp
  moreover have "ring_queue r = [] \<longleftrightarrow> count r = 0" by (metis length_ring_queue length_0_conv)
  ultimately show ?thesis
    using Deq by (cases "ring_queue r") (auto split: if_splits)
qed

interpretation mpmc: bounded_queue mpmc_state_ok "\<lambda>s n. mpmc_room (the s) n"
  "\<lambda>s. ring_queue (the s)" "\<lambda>s. cap (the s)" "\<lambda>s. osz (the s)" mpmc_do
proof (unfold_locales, goal_cases)
  case (1 s n x)
  then show ?case using mpmc_do_refines [of "the s" n x] by (cases s) auto
next
  case (2 s n x)
  then obtain y r' where "mpmc_do s x = (y, Some r')" "geom r' = geom (the s)"
    using mpmc_do_refines [of "the s" n x] by (cases s) auto
  then show ?case using geom_eqD(6,7) [of r' "the s"] by simp
next
  case (3 s n x)
  then show ?case using mpmc_do_refines [of "the s" n x] by (cases s) auto
next
  case (4 s)
  then show ?case using mpmc_ok_bounded by (cases s) auto
qed

lemma mpmc_ok_init:
  assumes "good_capacity n" "layout_fits n sz"
  shows "mpmc_ok (init_ring r0 (get_total_size n sz MPMC_SLOT) n m fd MPMC_SLOT)"
proof (rule mpmc_okI [of _ 0 0])
  let ?r = "init_ring r0 (get_total_size n sz MPMC_SLOT) n m fd MPMC_SLOT"
  have u: "slot_mode MPMC_SLOT" "MPMC_SLOT = MPMC_SLOT \<or> MPMC_SLOT = MPSC_SLOT"
    by (simp_all add: slot_mode_def)
  show "mpmc_at ?r 0 0"
    using init_ring_wf [OF assms u(1)] init_slot_ring_wf [OF assms(2) u(2)]
      seq_at_init_ring [OF assms u(2)]
    by (simp add: mpmc_at_def)
qed simp


section \<open>Properties\<close>

text \<open>C10: A ring made by \<^verbatim>\<open>get_buf\<close> with sequence-numbered slots is a FIFO queue as long as
  fewer than \<open>2 ^ 63 - capacity\<close> operations are made: any such sequence of whole-object pushes
  and pops meets no undefined behaviour and gives, result by result, what the same sequence
  gives on an empty list bounded by the capacity.\<close>

theorem mpmc_fresh_fifo:
  assumes "good_capacity n" "layout_fits n sz"
    and "r = init_ring r0 (get_total_size n sz MPMC_SLOT) n m fd MPMC_SLOT"
    and "list_all (op_fits (osz r)) xs" "unat n + length xs \<le> 2 ^ 63"
  shows "fst (run_ops mpmc_do (Some r) xs) = fst (run_ops (spec_op (unat n)) [] xs) \<and>
    snd (run_ops mpmc_do (Some r) xs) \<noteq> None"
proof -
  have "mpmc_state_ok (Some r)" unfolding assms(3) by (simp add: mpmc_ok_init [OF assms(1,2)])
  moreover have "ring_queue r = []" "cap r = unat n" "mpmc_room r (length xs)"
    using assms(3,5) by (simp_all add: ring_queue_Nil_iff mpmc_room_def)
  ultimately show ?thesis
    using mpmc.run_refines [of "Some r" xs] assms(4)
    by (cases "snd (run_ops mpmc_do (Some r) xs)") auto
qed

theorem mpmc_fresh_fifo_witness:
  "fst (run_ops mpmc_do (Some (make_ring 4 8 MPMC_SLOT))
     [Deq, Enq (replicate 64 1), Enq (replicate 64 2), Deq, Deq]) =
   [Popped None, Pushed True, Pushed True, Popped (Some (replicate 64 1)),
    Popped (Some (replicate 64 2))]"
proof -
  have "osz (make_ring 4 8 MPMC_SLOT) = 64" by code_simp
  then have "list_all (op_fits (osz (make_ring 4 8 MPMC_SLOT)))
      [Deq, Enq (replicate 64 1), Enq (replicate 64 2), Deq, Deq]" by simp
  from mpmc_fresh_fifo [OF make_ring_4_8 make_ring_def this] show ?thesis by simp
qed

text \<open>C36: \<^verbatim>\<open>Push_MpmcRingBuf\<close> and \<^verbatim>\<open>Pop_MpmcRingBuf\<close> on every branch, undisturbed and below the
  sign bit: a size above the object size is refused, a full or empty ring is reported exactly
  when it is one, and otherwise the object is appended, or the oldest one handed out and
  removed, under the old position; the slot protocol is preserved and no signed subtraction
  overflows.\<close>

theorem mpmc_push_pop_correct:
  assumes "mpmc_ok r" "mpmc_room r (Suc n)"
  shows "(\<exists>rc r'. Push_MpmcRingBuf r args sz = Some (rc, r') \<and> mpmc_ok r' \<and> mpmc_room r' n \<and>
      (if r_objSize r < sz then rc = RINGBUF_PUSH_SIZE_TOO_LARGE \<and> r' = r
       else if length (ring_queue r) = cap r then rc = RINGBUF_FULL \<and> r' = r
       else rc = int (unat (r_head r)) \<and> ring_queue r' =
         ring_queue r @ [map args [0..<unat sz] @ drop (unat sz) (elem r (r_head r))])) \<and>
    (\<exists>rc buf r'. Pop_MpmcRingBuf r sz = Some (rc, buf, r') \<and> mpmc_ok r' \<and> mpmc_room r' n \<and>
      (if r_objSize r < sz then rc = RINGBUF_POP_SIZE_TOO_LARGE \<and> buf = None \<and> r' = r
       else if ring_queue r = [] then rc = RINGBUF_EMPTY \<and> buf = None \<and> r' = r
       else rc = int (unat (r_tail r)) \<and> buf = Some (take (unat sz) (hd (ring_queue r))) \<and>
         ring_queue r' = tl (ring_queue r)))"
proof -
  have "unat (r_head r) < 2 ^ 63" "unat (r_tail r) < 2 ^ 63"
    using assms by (auto simp: mpmc_room_def mpmc_ok_def unat_le_iff)
  then have "ssize_of (r_head r) = int (unat (r_head r))" "ssize_of (r_tail r) = int (unat (r_tail r))"
    by (simp_all only: ssize_of_small)
  moreover have "ring_queue r = [] \<longleftrightarrow> count r = 0" by (metis length_ring_queue length_0_conv)
  ultimately show ?thesis
    using Push_Mpmc_cases [OF assms, of args sz] Pop_Mpmc_cases [OF assms, of sz]
    by (intro conjI) (auto split: if_splits)
qed

theorem mpmc_push_pop_correct_witness:
  "(let r' = the (Push_MpmcRingBuf (make_ring 4 8 MPMC_SLOT) (\<lambda>i. of_nat i) 3)
    in ring_queue (snd r') = [[0, 1, 2] @ replicate 61 0])"
proof -
  let ?r = "make_ring 4 8 MPMC_SLOT"
  have ok: "mpmc_ok ?r" unfolding make_ring_def by (rule mpmc_ok_init [OF make_ring_4_8])
  have room: "mpmc_room ?r (Suc 0)" by (simp add: mpmc_room_def make_ring_def)
  have "\<not> r_objSize ?r < 3" "length (ring_queue ?r) \<noteq> cap ?r" "ring_queue ?r = []"
    "drop 3 (elem ?r (r_head ?r)) = replicate 61 0" by code_simp+
  with mpmc_push_pop_correct [OF ok room, of "\<lambda>i. of_nat i" 3]
  show ?thesis by (auto simp: upt_rec Let_def)
qed

text \<open>The callback variant of pop hands the callback the object the copying pop would have
  returned, takes it out of the ring the same way, and returns what the callback returned; on
  an empty ring or contention it does not call it. This holds in every state.\<close>

lemma mpmc_pop_w_cb_equiv:
  "Pop_w_cb_MpmcRingBuf r cb args =
    (case Pop_MpmcRingBuf r (r_objSize r) of
       None \<Rightarrow> None
     | Some (rc, None, r') \<Rightarrow> Some (rc, args, r')
     | Some (_, Some buf, r') \<Rightarrow> Some (fst (cb buf args), snd (cb buf args), r'))"
  by (simp add: Pop_w_cb_MpmcRingBuf_def Pop_MpmcRingBuf_def Let_def osz_def split_beta
      cas_tail_def split: option.split)

text \<open>The signed comparison fails at the middle of the position range: an empty ring whose
  tail has reached \<open>2 ^ 63 - 1\<close> makes the next pop, and a full ring whose head has reached
  \<open>2 ^ 63\<close> the next push, compute a difference that no \<open>intptr_t\<close> can hold.\<close>

lemma mpmc_sign_boundary:
  assumes "mpmc_at e (2 ^ 63 - 1) (2 ^ 63 - 1)" "sz \<le> r_objSize e"
    and "mpmc_at f (2 ^ 63 - cap f) (2 ^ 63)" "sz \<le> r_objSize f"
  shows "Pop_MpmcRingBuf e sz = None \<and> Push_MpmcRingBuf f args sz = None"
proof -
  have sint: "ssize_of (of_nat k) = (if k < 2 ^ 63 then int k else int k - 2 ^ 64)"
    if "k \<le> 2 ^ 63" for k
  proof -
    have "unat (of_nat k :: size_t) = k" using that by (intro unat_of_nat64) simp
    then show ?thesis by (simp only: ssize_of_eq)
  qed
  have "r_tail e = of_nat (2 ^ 63 - 1)" using assms(1) by (simp only: mpmc_at_def)
  have pop: "intptr_diff (of_nat (2 ^ 63 - 1)) (of_nat (2 ^ 63 - 1) + 1) = None"
    using sint [of "2 ^ 63 - 1"] sint [of "2 ^ 63"] by (simp add: intptr_diff_def)
  have "load_slot e (r_tail e AND r_mask e) = of_nat (2 ^ 63 - 1)"
    using tail_seq [OF assms(1)] \<open>r_tail e = _\<close> by (simp only: load_slot_ticket if_True simp_thms)
  then have "Pop_MpmcRingBuf e sz = None"
    using pop assms(2) unfolding \<open>r_tail e = _\<close> Pop_MpmcRingBuf_def Let_def by (simp add: not_less)
  have wf: "ring_wf f" using assms(3) by (simp add: mpmc_at_def)
  note le = wf_cap_le [OF wf] and two = wf_cap_ge2 [OF wf]
  have "r_head f = of_nat (2 ^ 63)" using assms(3) by (simp only: mpmc_at_def)
  have "intptr_diff (of_nat (2 ^ 63 - cap f + 1)) (of_nat (2 ^ 63)) = None"
    using sint [of "2 ^ 63 - cap f + 1"] sint [of "2 ^ 63"] le two by (simp add: intptr_diff_def)
  moreover have "load_slot f (r_head f AND r_mask f) = of_nat (2 ^ 63 - cap f + 1)"
    using head_seq [OF assms(3)] le \<open>r_head f = _\<close>
    by (simp only: load_slot_ticket le_add_diff_inverse2 if_True simp_thms)
  ultimately have "Push_MpmcRingBuf f args sz = None"
    using assms(4) unfolding \<open>r_head f = _\<close> Push_MpmcRingBuf_def Let_def by (simp add: not_less)
  then show ?thesis using \<open>Pop_MpmcRingBuf e sz = None\<close> by simp
qed


text \<open>A two-element ring whose positions and sequence numbers were set by hand.\<close>

definition ring_at :: "size_t \<Rightarrow> size_t \<Rightarrow> size_t \<Rightarrow> size_t \<Rightarrow> ring" where
  "ring_at t h s0 s1 =
     store_slot (store_slot ((make_ring 2 8 MPMC_SLOT)\<lparr>r_head := h, r_tail := t\<rparr>) 0 s0) 1 s1"

lemma ring_at_fields:
  "r_head (ring_at t h a b) = h" "r_tail (ring_at t h a b) = t"
  "load_slot (ring_at t h a b) 0 = a" "load_slot (ring_at t h a b) 1 = b"
  "cap (ring_at t h a b) = 2" "r_mask (ring_at t h a b) = 1"
  "ring_wf (ring_at t h a b)" "slots_wf (ring_at t h a b)" "r_objSize (ring_at t h a b) = 64"
proof -
  have g: "geom (ring_at t h a b) = geom (make_ring 2 8 MPMC_SLOT)" by (simp add: ring_at_def)
  have c: "good_capacity 2" "layout_fits 2 8"
    by (simp_all add: good_capacity_def layout_fits_def align_nat_def)
  have "GET_SLOT (make_ring 2 8 MPMC_SLOT) 0 \<noteq> GET_SLOT (make_ring 2 8 MPMC_SLOT) 1" by code_simp
  then show "load_slot (ring_at t h a b) 0 = a" "load_slot (ring_at t h a b) 1 = b"
    by (simp_all add: load_slot_def geom_eqD(10) [OF g] ring_at_def store_slot_def GET_SLOT_def)
  show "cap (ring_at t h a b) = 2" "r_mask (ring_at t h a b) = 1" "r_objSize (ring_at t h a b) = 64"
    unfolding geom_eqD(1,3,6) [OF g] by code_simp+
  show "ring_wf (ring_at t h a b)"
    unfolding geom_eqD(11) [OF g] make_ring_def by (rule init_ring_wf [OF c]) (simp add: slot_mode_def)
  show "slots_wf (ring_at t h a b)"
    unfolding geom_eqD(12) [OF g] make_ring_def by (rule init_slot_ring_wf [OF c(2)]) simp
qed (simp_all add: ring_at_def)

lemma mpmc_sign_boundary_example:
  "Pop_MpmcRingBuf (ring_at (2 ^ 63 - 1) (2 ^ 63 - 1) (2 ^ 63) (2 ^ 63 - 1)) 8 = None"
proof -
  let ?e = "ring_at (2 ^ 63 - 1) (2 ^ 63 - 1) (2 ^ 63) (2 ^ 63 - 1)"
  let ?f = "ring_at (2 ^ 63 - 2) (2 ^ 63) (2 ^ 63 - 1) (2 ^ 63)"
  have ke: "k = 9223372036854775807 \<or> k = 9223372036854775808"
    if "9223372036854775807 \<le> k" "k < 9223372036854775809" for k :: nat
    using that by linarith
  have kf: "k = 9223372036854775806 \<or> k = 9223372036854775807"
    if "9223372036854775806 \<le> k" "k < 9223372036854775808" for k :: nat
    using that by linarith
  have "mpmc_at ?e (2 ^ 63 - 1) (2 ^ 63 - 1)"
    by (auto simp: mpmc_at_def ring_at_fields seq_at_def dest!: ke)
  moreover have "mpmc_at ?f (2 ^ 63 - cap ?f) (2 ^ 63)"
    by (auto simp: mpmc_at_def ring_at_fields seq_at_def dest!: kf)
  ultimately show ?thesis
    using mpmc_sign_boundary [of ?e 8 ?f] by (simp add: ring_at_fields)
qed

end
