(* ===== verification/RB_Mpmc_Conc.thy ===== *)
theory RB_Mpmc_Conc
  imports RB_Mpmc RB_Steps
begin

text \<open>
  The MPMC ring under concurrency: any number of threads, each of which may push, pop, or pop
  with a callback, interleaved at every access to shared memory, single copied bytes included.
  \<open>mpmc_pc_step\<close> is the code of \<^verbatim>\<open>RingBuf_Mpmc.c\<close> cut at those accesses. A ticket is the
  position a thread obtained by its compare-and-exchange.
\<close>

section \<open>The system\<close>

text \<open>Where a thread is inside an operation, with the locals it holds there.\<close>

datatype mpmc_pc =
    m_idle: MIdle
  | PushHead src size_t
  | PushSeq src size_t size_t
  | PushCas src size_t size_t
  | PushCopy src size_t size_t nat
  | PopTail dest
  | PopSeq dest size_t
  | PopCas dest size_t
  | PopCopy dest size_t "byte list"

record mpmc_sys =
  m_ring :: ring
  m_pcs :: "nat \<Rightarrow> mpmc_pc"

datatype mpmc_action = MPush nat src size_t | MPop nat dest | MStep nat

text \<open>
  Events: a push obtained the next ticket for an object, a pop obtained the next ticket, a pop
  finished with the object of its ticket, an operation returned, undefined behaviour.
\<close>

datatype mpmc_event =
  Reserve "byte list" | Claim | Deliver nat size_t "byte list" | Ret nat int | Undefined

fun mpmc_pc_step :: "nat \<Rightarrow> ring \<Rightarrow> mpmc_pc \<Rightarrow> ring \<times> mpmc_pc \<times> mpmc_event list" where
  "mpmc_pc_step t r MIdle = (r, MIdle, [])"
| "mpmc_pc_step t r (PushHead args sz) = (r, PushSeq args sz (r_head r), [])"
| "mpmc_pc_step t r (PushSeq args sz expected_head) =
     (case intptr_diff (load_slot r (expected_head AND r_mask r)) expected_head of
        None \<Rightarrow> (r, MIdle, [Undefined])
      | Some dif \<Rightarrow>
          if 0 < dif then (r, MIdle, [Ret t RINGBUF_CONTENTION])
          else if dif < 0 then (r, MIdle, [Ret t RINGBUF_FULL])
          else (r, PushCas args sz expected_head, []))"
| "mpmc_pc_step t r (PushCas args sz expected_head) =
     (let (success, expected_head, r') = cas_head r expected_head (expected_head + 1)
      in if \<not> success then (r', MIdle, [Ret t RINGBUF_CONTENTION])
         else (r', PushCopy args sz expected_head 0, [Reserve (map args [0..<unat sz])]))"
| "mpmc_pc_step t r (PushCopy args sz expected_head i) =
     (let idx = expected_head AND r_mask r in
      if i < unat sz
      then (write_byte r (GET_BUFFER r idx + of_nat i) (args i),
            PushCopy args sz expected_head (Suc i), [])
      else (store_slot r idx (expected_head + 1), MIdle, [Ret t (ssize_of expected_head)]))"
| "mpmc_pc_step t r (PopTail d) = (r, PopSeq d (r_tail r), [])"
| "mpmc_pc_step t r (PopSeq d expected_tail) =
     (case intptr_diff (load_slot r (expected_tail AND r_mask r)) (expected_tail + 1) of
        None \<Rightarrow> (r, MIdle, [Undefined])
      | Some dif \<Rightarrow>
          if 0 < dif then (r, MIdle, [Ret t RINGBUF_CONTENTION])
          else if dif < 0 then (r, MIdle, [Ret t RINGBUF_EMPTY])
          else (r, PopCas d expected_tail, []))"
| "mpmc_pc_step t r (PopCas d expected_tail) =
     (let (success, expected_tail, r') = cas_tail r expected_tail (expected_tail + 1)
      in if \<not> success then (r', MIdle, [Ret t RINGBUF_CONTENTION])
         else (r', PopCopy d expected_tail [], [Claim]))"
| "mpmc_pc_step t r (PopCopy d expected_tail buf) =
     (let idx = expected_tail AND r_mask r in
      if length buf < want r d
      then (r, PopCopy d expected_tail (buf @ [bytes r (GET_BUFFER r idx + of_nat (length buf))]), [])
      else (store_slot r idx (expected_tail + r_objNum r), MIdle,
            [Deliver t expected_tail buf, Ret t (answer d expected_tail buf)]))"

text \<open>
  A call starts with the check against \<open>objSize_\<close>, which no thread ever writes; the callback
  variant has none. A thread inside an operation cannot start another one.
\<close>

fun mpmc_step :: "mpmc_sys \<Rightarrow> mpmc_action \<Rightarrow> mpmc_sys \<times> mpmc_event list" where
  "mpmc_step s (MPush t args sz) =
     (if \<not> m_idle (m_pcs s t) then (s, [])
      else if r_objSize (m_ring s) < sz then (s, [Ret t RINGBUF_PUSH_SIZE_TOO_LARGE])
      else (s\<lparr>m_pcs := (m_pcs s)(t := PushHead args sz)\<rparr>, []))"
| "mpmc_step s (MPop t (ToBuf sz)) =
     (if \<not> m_idle (m_pcs s t) then (s, [])
      else if r_objSize (m_ring s) < sz then (s, [Ret t RINGBUF_POP_SIZE_TOO_LARGE])
      else (s\<lparr>m_pcs := (m_pcs s)(t := PopTail (ToBuf sz))\<rparr>, []))"
| "mpmc_step s (MPop t (ToCb cb)) =
     (if \<not> m_idle (m_pcs s t) then (s, [])
      else (s\<lparr>m_pcs := (m_pcs s)(t := PopTail (ToCb cb))\<rparr>, []))"
| "mpmc_step s (MStep t) =
     (let (r, pc, e) = mpmc_pc_step t (m_ring s) (m_pcs s t)
      in (s\<lparr>m_ring := r, m_pcs := (m_pcs s)(t := pc)\<rparr>, e))"

definition mpmc_start :: "ring \<Rightarrow> mpmc_sys" where
  "mpmc_start r = \<lparr>m_ring = r, m_pcs = (\<lambda>_. MIdle)\<rparr>"

text \<open>The objects pushed, in ticket order; the number of tickets taken by pops; the deliveries.\<close>

fun reserved :: "mpmc_event list \<Rightarrow> byte list list" where
  "reserved [] = []"
| "reserved (Reserve v # es) = v # reserved es"
| "reserved (_ # es) = reserved es"

fun claims :: "mpmc_event list \<Rightarrow> nat" where
  "claims [] = 0"
| "claims (Claim # es) = Suc (claims es)"
| "claims (_ # es) = claims es"

fun delivered :: "mpmc_event list \<Rightarrow> (nat \<times> size_t \<times> byte list) list" where
  "delivered [] = []"
| "delivered (Deliver t w b # es) = (t, w, b) # delivered es"
| "delivered (_ # es) = delivered es"

lemma history_append [simp]:
  "reserved (h @ e) = reserved h @ reserved e" "claims (h @ e) = claims h + claims e"
  "delivered (h @ e) = delivered h @ delivered e"
proof -
  show "reserved (h @ e) = reserved h @ reserved e" by (induction h rule: reserved.induct) simp_all
  show "claims (h @ e) = claims h + claims e" by (induction h rule: claims.induct) simp_all
  show "delivered (h @ e) = delivered h @ delivered e" by (induction h rule: delivered.induct) simp_all
qed


section \<open>Slots\<close>

text \<open>The slot of ticket \<open>k\<close> waits for the producer of \<open>k\<close>, or holds the object of \<open>k\<close>.\<close>

definition slot_free :: "ring \<Rightarrow> nat \<Rightarrow> bool" where
  "slot_free r k \<longleftrightarrow> unat (seq_at r k) = k"

definition slot_full :: "ring \<Rightarrow> nat \<Rightarrow> bool" where
  "slot_full r k \<longleftrightarrow> unat (seq_at r k) = k + 1"

lemma slot_frame [simp]:
  "slot_free (r\<lparr>r_head := h\<rparr>) k = slot_free r k" "slot_full (r\<lparr>r_head := h\<rparr>) k = slot_full r k"
  "slot_free (r\<lparr>r_tail := h\<rparr>) k = slot_free r k" "slot_full (r\<lparr>r_tail := h\<rparr>) k = slot_full r k"
  "slot_free (write_byte r a v) k = slot_free r k" "slot_full (write_byte r a v) k = slot_full r k"
  by (simp_all add: slot_free_def slot_full_def)

lemma slot_freeD: "slot_free r k \<Longrightarrow> seq_at r k = of_nat k"
  and slot_fullD: "slot_full r k \<Longrightarrow> seq_at r k = of_nat (k + 1)"
proof -
  have w: "of_nat (unat (seq_at r k)) = seq_at r k" by simp
  show "slot_free r k \<Longrightarrow> seq_at r k = of_nat k" by (subst w [symmetric]) (simp only: slot_free_def)
  show "slot_full r k \<Longrightarrow> seq_at r k = of_nat (k + 1)"
    by (subst w [symmetric]) (simp only: slot_full_def)
qed

text \<open>A slot is in one state only.\<close>

lemma free_free: "ring_wf r \<Longrightarrow> k mod cap r = l mod cap r \<Longrightarrow> slot_free r k \<Longrightarrow> slot_free r l \<Longrightarrow> k = l"
  using seq_at_mod [of r k l] by (simp add: slot_free_def)

lemma full_full: "ring_wf r \<Longrightarrow> k mod cap r = l mod cap r \<Longrightarrow> slot_full r k \<Longrightarrow> slot_full r l \<Longrightarrow> k = l"
  using seq_at_mod [of r k l] by (simp add: slot_full_def)

lemma succ_mod_neq: "2 \<le> n \<Longrightarrow> Suc k mod n \<noteq> k mod (n::nat)"
  using mod_less_distinct [of k "Suc k" n] by auto

lemma free_full: "ring_wf r \<Longrightarrow> k mod cap r = l mod cap r \<Longrightarrow> slot_free r k \<Longrightarrow> slot_full r l \<Longrightarrow> False"
  using seq_at_mod [of r k l] succ_mod_neq [OF wf_cap_ge2, of r l]
  by (simp add: slot_free_def slot_full_def)

text \<open>What the two stores do to the slots: publishing an object, and freeing its place.\<close>

lemma slots_publish:
  assumes wf: "ring_wf r" "slots_wf r" and k: "slot_free r k" "k + 1 < 2 ^ 64"
  defines "r' \<equiv> store_slot r (of_nat k AND r_mask r) (of_nat (k + 1))"
  shows "slot_free r' l \<longleftrightarrow> slot_free r l \<and> l \<noteq> k"
    and "slot_full r' l \<longleftrightarrow> slot_full r l \<or> l = k"
proof -
  have at: "unat (seq_at r' l) = (if l mod cap r = k mod cap r then k + 1 else unat (seq_at r l))"
    unfolding r'_def seq_at_store [OF wf] using unat_of_nat64 [OF k(2)] by simp
  show "slot_free r' l \<longleftrightarrow> slot_free r l \<and> l \<noteq> k"
    using free_free [OF wf(1) _ k(1), of l] succ_mod_neq [OF wf_cap_ge2 [OF wf(1)], of k]
    by (auto simp: slot_free_def at)
  show "slot_full r' l \<longleftrightarrow> slot_full r l \<or> l = k"
    using free_full [OF wf(1) _ k(1), of l] by (auto simp: slot_full_def at)
qed

lemma slots_release:
  assumes wf: "ring_wf r" "slots_wf r" and k: "slot_full r k" "k + cap r < 2 ^ 64"
  defines "r' \<equiv> store_slot r (of_nat k AND r_mask r) (of_nat (k + cap r))"
  shows "slot_full r' l \<longleftrightarrow> slot_full r l \<and> l \<noteq> k"
    and "slot_free r' l \<longleftrightarrow> slot_free r l \<or> l = k + cap r"
proof -
  note two = wf_cap_ge2 [OF wf(1)]
  have at: "unat (seq_at r' l) = (if l mod cap r = k mod cap r then k + cap r else unat (seq_at r l))"
    unfolding r'_def seq_at_store [OF wf] using unat_of_nat64 [OF k(2)] by simp
  have "l mod cap r \<noteq> k mod cap r" if "k + cap r = l + 1"
    using succ_mod_neq [OF two, of l] that by (metis Suc_eq_plus1 mod_add_self2)
  then show "slot_full r' l \<longleftrightarrow> slot_full r l \<and> l \<noteq> k"
    using full_full [OF wf(1) _ k(1), of l] two by (auto simp: slot_full_def at)
  show "slot_free r' l \<longleftrightarrow> slot_free r l \<or> l = k + cap r"
    using free_full [OF wf(1) _ _ k(1), of l] by (auto simp: slot_free_def at)
qed


section \<open>The invariant\<close>

text \<open>
  \<open>P\<close> is the list of pushed objects in ticket order, so \<open>length P\<close> is the unbounded head;
  \<open>T\<close> is the unbounded tail.
\<close>

definition slots_inv :: "ring \<Rightarrow> nat \<Rightarrow> nat \<Rightarrow> bool" where
  "slots_inv r H T \<longleftrightarrow>
     (\<forall>k. slot_free r k \<longrightarrow> T \<le> k \<and> k < T + cap r \<and> H \<le> k + cap r) \<and>
     (\<forall>k. slot_full r k \<longrightarrow> k < H \<and> H \<le> k + cap r \<and> T \<le> k + cap r) \<and>
     (\<forall>k. \<exists>l. l mod cap r = k mod cap r \<and> (slot_free r l \<or> slot_full r l))"

definition ring_inv :: "ring \<Rightarrow> byte list list \<Rightarrow> nat \<Rightarrow> bool" where
  "ring_inv r P T \<longleftrightarrow> ring_wf r \<and> slots_wf r \<and> r_head r = of_nat (length P) \<and> r_tail r = of_nat T \<and>
     T \<le> length P \<and> length P \<le> T + cap r \<and> length P + cap r < 2 ^ 63 \<and>
     slots_inv r (length P) T \<and> (\<forall>k < length P. slot_full r k \<longrightarrow> holds_bytes r k (P ! k))"

fun pc_ok :: "ring \<Rightarrow> byte list list \<Rightarrow> nat \<Rightarrow> mpmc_pc \<Rightarrow> bool" where
  "pc_ok r P T MIdle \<longleftrightarrow> True"
| "pc_ok r P T (PushHead args sz) \<longleftrightarrow> unat sz \<le> osz r"
| "pc_ok r P T (PushSeq args sz eh) \<longleftrightarrow> unat sz \<le> osz r \<and> unat eh \<le> length P"
| "pc_ok r P T (PushCas args sz eh) \<longleftrightarrow> unat sz \<le> osz r \<and> unat eh \<le> length P \<and>
     (unat eh = length P \<longrightarrow> slot_free r (length P))"
| "pc_ok r P T (PushCopy args sz eh i) \<longleftrightarrow> unat sz \<le> osz r \<and> unat eh < length P \<and>
     P ! unat eh = map args [0..<unat sz] \<and> i \<le> unat sz \<and> slot_free r (unat eh) \<and>
     holds_bytes r (unat eh) (map args [0..<i])"
| "pc_ok r P T (PopTail d) \<longleftrightarrow> want r d \<le> osz r"
| "pc_ok r P T (PopSeq d et) \<longleftrightarrow> want r d \<le> osz r \<and> unat et \<le> T"
| "pc_ok r P T (PopCas d et) \<longleftrightarrow> want r d \<le> osz r \<and> unat et \<le> T \<and> (unat et = T \<longrightarrow> slot_full r T)"
| "pc_ok r P T (PopCopy d et buf) \<longleftrightarrow> want r d \<le> osz r \<and> unat et < T \<and> slot_full r (unat et) \<and>
     length buf \<le> want r d \<and> holds_bytes r (unat et) buf"

text \<open>The ticket whose slot a thread is writing or reading.\<close>

fun writes :: "mpmc_pc \<Rightarrow> nat option" where
  "writes (PushCopy args sz eh i) = Some (unat eh)"
| "writes _ = None"

fun reads :: "mpmc_pc \<Rightarrow> nat option" where
  "reads (PopCopy d et buf) = Some (unat et)"
| "reads _ = None"

definition owners_inv :: "ring \<Rightarrow> nat \<Rightarrow> nat \<Rightarrow> (nat \<Rightarrow> mpmc_pc) \<Rightarrow> bool" where
  "owners_inv r H T pcs \<longleftrightarrow>
     one_owner (writes \<circ> pcs) {k. k < H \<and> slot_free r k} \<and>
     one_owner (reads \<circ> pcs) {k. k < T \<and> slot_full r k}"

text \<open>The tickets a thread has delivered, in order.\<close>

definition tickets_of :: "nat \<Rightarrow> (nat \<times> size_t \<times> byte list) list \<Rightarrow> nat list" where
  "tickets_of t D = map (\<lambda>x. unat (fst (snd x))) (filter (\<lambda>x. fst x = t) D)"

definition delivered_inv ::
    "ring \<Rightarrow> byte list list \<Rightarrow> nat \<Rightarrow> (nat \<times> size_t \<times> byte list) list \<Rightarrow> (nat \<Rightarrow> mpmc_pc) \<Rightarrow> bool" where
  "delivered_inv r P T D pcs \<longleftrightarrow>
     (\<forall>(t, w, b) \<in> set D. unat w < T \<and> agree (P ! unat w) b \<and> \<not> slot_full r (unat w)) \<and>
     distinct (map (fst \<circ> snd) D) \<and>
     (\<forall>k < T. slot_full r k \<or> (\<exists>t b. (t, of_nat k, b) \<in> set D)) \<and>
     (\<forall>t. sorted_wrt (<) (tickets_of t D)) \<and>
     (\<forall>t k. reads (pcs t) = Some k \<longrightarrow> (\<forall>l \<in> set (tickets_of t D). l < k))"

definition mpmc_inv_at ::
    "byte list list \<Rightarrow> nat \<Rightarrow> (nat \<times> size_t \<times> byte list) list \<Rightarrow> ring \<Rightarrow> (nat \<Rightarrow> mpmc_pc) \<Rightarrow> bool" where
  "mpmc_inv_at P T D r pcs \<longleftrightarrow> ring_inv r P T \<and> (\<forall>t. pc_ok r P T (pcs t)) \<and>
     owners_inv r (length P) T pcs \<and> delivered_inv r P T D pcs"

text \<open>What the invariant says of a slot whose state is known.\<close>

lemma free_bounds:
  "ring_inv r P T \<Longrightarrow> slot_free r k \<Longrightarrow> T \<le> k \<and> k < T + cap r \<and> length P \<le> k + cap r"
  by (simp add: ring_inv_def slots_inv_def)

lemma full_bounds:
  "ring_inv r P T \<Longrightarrow> slot_full r k \<Longrightarrow> k < length P \<and> length P \<le> k + cap r \<and> T \<le> k + cap r"
  by (simp add: ring_inv_def slots_inv_def)

lemma slot_stateE:
  assumes "ring_inv r P T"
  obtains l where "l mod cap r = k mod cap r" "slot_free r l"
  | l where "l mod cap r = k mod cap r" "slot_full r l"
  using assms unfolding ring_inv_def slots_inv_def by metis

lemma seq_bound:
  assumes inv: "ring_inv r P T"
  shows "unat (seq_at r k) < 2 ^ 63"
proof -
  have wf: "ring_wf r" and small: "length P + cap r < 2 ^ 63" "T \<le> length P"
    using inv by (simp_all add: ring_inv_def)
  from inv show ?thesis
  proof (rule slot_stateE [where k = k])
    fix l assume "l mod cap r = k mod cap r" "slot_free r l"
    then show ?thesis
      using seq_at_mod [OF wf, of l k] free_bounds [OF inv, of l] small by (auto simp: slot_free_def)
  next
    fix l assume "l mod cap r = k mod cap r" "slot_full r l"
    then show ?thesis
      using seq_at_mod [OF wf, of l k] full_bounds [OF inv, of l] small wf_cap_pos [OF wf]
      by (auto simp: slot_full_def)
  qed
qed

lemma head_bound: "ring_inv r P T \<Longrightarrow> length P < 2 ^ 63" "ring_inv r P T \<Longrightarrow> T < 2 ^ 63"
  by (auto simp: ring_inv_def)

text \<open>The signed differences are exact.\<close>

lemma inv_intptr_diff:
  assumes inv: "ring_inv r P T" and w: "unat w \<le> length P"
  shows "intptr_diff (load_slot r (w AND r_mask r)) w = Some (int (unat (seq_at r (unat w))) - int (unat w))"
    and "unat w \<le> T \<Longrightarrow> intptr_diff (load_slot r (w AND r_mask r)) (w + 1) =
      Some (int (unat (seq_at r (unat w))) - int (unat w + 1))"
proof -
  have seq: "load_slot r (w AND r_mask r) = of_nat (unat (seq_at r (unat w)))"
    by (simp add: seq_at_def)
  have w1: "w + 1 = of_nat (unat w + 1)" by (simp add: add.commute)
  have "unat w < 2 ^ 63" using head_bound(1) [OF inv] w by simp
  then show "intptr_diff (load_slot r (w AND r_mask r)) w =
      Some (int (unat (seq_at r (unat w))) - int (unat w))"
    using intptr_diff_small [OF seq_bound [OF inv, of "unat w"], of "unat w"] unfolding seq by simp
  have "unat w + 1 < 2 ^ 63"
    using inv w wf_cap_ge2 [of r] by (auto simp: ring_inv_def)
  then show "intptr_diff (load_slot r (w AND r_mask r)) (w + 1) =
      Some (int (unat (seq_at r (unat w))) - int (unat w + 1))"
    using intptr_diff_small [OF seq_bound [OF inv, of "unat w"], of "unat w + 1"]
    unfolding seq w1 by simp
qed


section \<open>Every access preserves the invariant\<close>

lemma inv_local:
  assumes inv: "mpmc_inv_at P T D r pcs" and pc: "pc_ok r P T pc"
    and same: "writes pc = writes (pcs t)" "reads pc = reads (pcs t)"
  shows "mpmc_inv_at P T D r (pcs(t := pc))"
proof -
  have "writes \<circ> pcs(t := pc) = writes \<circ> pcs" "reads \<circ> pcs(t := pc) = reads \<circ> pcs"
    using same by (auto simp: fun_eq_iff)
  moreover have "reads ((pcs(t := pc)) u) = reads (pcs u)" for u using same by auto
  ultimately show ?thesis
    using inv pc by (simp add: mpmc_inv_at_def owners_inv_def delivered_inv_def)
qed

lemma inv_parts:
  assumes "mpmc_inv_at P T D r pcs"
  shows "ring_inv r P T" "pc_ok r P T (pcs t)"
    "one_owner (writes \<circ> pcs) {k. k < length P \<and> slot_free r k}"
    "one_owner (reads \<circ> pcs) {k. k < T \<and> slot_full r k}"
    "delivered_inv r P T D pcs"
  using assms by (simp_all add: mpmc_inv_at_def owners_inv_def)

lemma ring_position: "ring_inv r P T \<Longrightarrow> unat (r_head r) = length P" "ring_inv r P T \<Longrightarrow> unat (r_tail r) = T"
proof -
  assume inv: "ring_inv r P T"
  then have "r_head r = of_nat (length P)" "r_tail r = of_nat T" by (simp_all add: ring_inv_def)
  moreover have "length P < 2 ^ 64" "T < 2 ^ 64" using head_bound [OF inv] by simp_all
  ultimately show "unat (r_head r) = length P" "unat (r_tail r) = T" by (simp_all only: unat_of_nat64)
qed

lemma pc_ok_reserve:
  assumes inv: "ring_inv r P T" and pc: "pc_ok r P T pc" and free: "slot_free r (length P)"
  shows "pc_ok (r\<lparr>r_head := h\<rparr>) (P @ [v]) T pc"
proof -
  have w: "want (r\<lparr>r_head := h\<rparr>) d = want r d" for d by (cases d) simp_all
  show ?thesis using pc by (cases pc) (auto simp: w nth_append)
qed

lemma inv_reserve:
  assumes inv: "mpmc_inv_at P T D r pcs" and t: "pcs t = PushCas args sz (r_head r)"
    and small: "length P + 1 + cap r < 2 ^ 63"
  shows "mpmc_inv_at (P @ [map args [0..<unat sz]]) T D (r\<lparr>r_head := r_head r + 1\<rparr>)
    (pcs(t := PushCopy args sz (r_head r) 0))" (is "mpmc_inv_at ?P T D ?r ?pcs")
proof -
  have ri: "ring_inv r P T" using inv by (simp add: mpmc_inv_at_def)
  have pos: "unat (r_head r) = length P" by (rule ring_position [OF ri])
  have "pc_ok r P T (pcs t)" using inv by (simp add: mpmc_inv_at_def)
  then have sz: "unat sz \<le> osz r" and free: "slot_free r (length P)" by (simp_all add: t pos)
  have wf: "ring_wf r" using ri by (simp add: ring_inv_def)
  have nfull: "\<not> slot_full r (length P)" using free_full [OF wf refl free] by blast
  have after: "length P < k + cap r" if "slot_free r k \<or> slot_full r k" for k
  proof (rule ccontr)
    assume "\<not> length P < k + cap r"
    then have k: "length P = k + cap r" using free_bounds [OF ri] full_bounds [OF ri] that by fastforce
    then show False
      using that free_free [OF wf _ free, of k] free_full [OF wf _ free, of k] wf_cap_pos [OF wf] by auto
  qed
  have "ring_inv ?r ?P T"
    using ri small nfull after free_bounds [OF ri free]
    by (auto simp: ring_inv_def slots_inv_def nth_append less_Suc_eq Suc_le_eq add.commute)
  moreover have "pc_ok ?r ?P T (?pcs u)" for u
  proof (cases "u = t")
    case True
    then show ?thesis using sz free pos by simp
  next
    case False
    then show ?thesis using inv pc_ok_reserve [OF ri _ free, of "pcs u"] by (simp add: mpmc_inv_at_def)
  qed
  moreover have "owners_inv ?r (length ?P) T ?pcs"
  proof -
    have "writes (pcs u) \<noteq> Some (length P)" for u
      using inv by (cases "pcs u") (auto simp: mpmc_inv_at_def dest!: spec [of _ u])
    then have "one_owner ((writes \<circ> pcs)(t := Some (length P))) {k. k < Suc (length P) \<and> slot_free r k}"
      by (intro one_owner_take [OF inv_parts(3) [OF inv]]) (auto simp: t less_Suc_eq)
    moreover have "one_owner ((reads \<circ> pcs)(t := None)) {k. k < T \<and> slot_full r k}"
      by (rule one_owner_keep [OF inv_parts(4) [OF inv]]) (simp_all add: t)
    ultimately show ?thesis unfolding owners_inv_def owner_upd by (simp add: pos)
  qed
  moreover have "delivered_inv ?r ?P T D ?pcs"
    using inv ri t by (auto simp: mpmc_inv_at_def delivered_inv_def nth_append ring_inv_def)
  ultimately show ?thesis by (simp add: mpmc_inv_at_def)
qed


lemma pc_ok_claim:
  assumes "pc_ok r P T pc"
  shows "pc_ok (r\<lparr>r_tail := h\<rparr>) P (Suc T) pc"
proof -
  have w: "want (r\<lparr>r_tail := h\<rparr>) d = want r d" for d by (cases d) simp_all
  show ?thesis using assms by (cases pc) (auto simp: w)
qed

lemma tickets_of_bound: "delivered_inv r P T D pcs \<Longrightarrow> l \<in> set (tickets_of t D) \<Longrightarrow> l < T"
  by (auto simp: delivered_inv_def tickets_of_def)

lemma inv_claim:
  assumes inv: "mpmc_inv_at P T D r pcs" and t: "pcs t = PopCas d (r_tail r)"
  shows "mpmc_inv_at P (Suc T) D (r\<lparr>r_tail := r_tail r + 1\<rparr>) (pcs(t := PopCopy d (r_tail r) []))"
    (is "mpmc_inv_at P _ D ?r ?pcs")
proof -
  note ri = inv_parts(1) [OF inv]
  have pos: "unat (r_tail r) = T" by (rule ring_position [OF ri])
  have d: "want r d \<le> osz r" and full: "slot_full r T"
    using inv_parts(2) [OF inv, of t] by (simp_all add: t pos)
  have wf: "ring_wf r" using ri by (simp add: ring_inv_def)
  have nfree: "\<not> slot_free r T" using free_full [OF wf refl _ full] by blast
  have after: "T < k + cap r" if "slot_full r k" for k
  proof (rule ccontr)
    assume "\<not> T < k + cap r"
    then have "T = k + cap r" using full_bounds [OF ri that] by simp
    then show False using full_full [OF wf _ that full] wf_cap_pos [OF wf] by simp
  qed
  have later: "Suc T \<le> k" if "slot_free r k" for k
    using free_bounds [OF ri that] nfree that by (cases "k = T") auto
  have "slots_inv ?r (length P) (Suc T)"
    using ri later Suc_leI [OF after] by (auto simp: ring_inv_def slots_inv_def)
  then have "ring_inv ?r P (Suc T)"
    using ri full_bounds [OF ri full] by (simp add: ring_inv_def add.commute)
  moreover have "pc_ok ?r P (Suc T) (?pcs u)" for u
  proof (cases "u = t")
    case True
    have "want ?r d = want r d" by (cases d) simp_all
    then show ?thesis using True d full pos by simp
  next
    case False
    then show ?thesis using pc_ok_claim [OF inv_parts(2) [OF inv, of u]] by simp
  qed
  moreover have "owners_inv ?r (length P) (Suc T) ?pcs"
  proof -
    have "reads (pcs u) \<noteq> Some T" for u
      using inv_parts(2) [OF inv, of u] by (cases "pcs u") auto
    then have "one_owner ((reads \<circ> pcs)(t := Some T)) {k. k < Suc T \<and> slot_full r k}"
      by (intro one_owner_take [OF inv_parts(4) [OF inv]]) (auto simp: t less_Suc_eq)
    moreover have "one_owner ((writes \<circ> pcs)(t := None)) {k. k < length P \<and> slot_free r k}"
      by (rule one_owner_keep [OF inv_parts(3) [OF inv]]) (simp_all add: t)
    ultimately show ?thesis unfolding owners_inv_def owner_upd by (simp add: pos)
  qed
  moreover have "delivered_inv ?r P (Suc T) D ?pcs"
    using inv_parts(5) [OF inv] full tickets_of_bound [OF inv_parts(5) [OF inv]]
    by (fastforce simp: delivered_inv_def less_Suc_eq pos)
  ultimately show ?thesis by (simp add: mpmc_inv_at_def)
qed

text \<open>One byte of a producer's copy.\<close>

lemma pc_ok_write:
  assumes wf: "ring_wf r" and i: "i < osz r" and free: "slot_free r k"
    and pc: "pc_ok r P T pc" and other: "writes pc \<noteq> Some k"
  shows "pc_ok (write_byte r (elem_addr r k + of_nat i) v) P T pc"
proof -
  let ?r = "write_byte r (elem_addr r k + of_nat i) v"
  have w: "want ?r d = want r d" for d by (cases d) simp_all
  have hold: "holds_bytes ?r l p = holds_bytes r l p" if "l mod cap r \<noteq> k mod cap r" for l p
    by (rule holds_bytes_write_other [OF wf i that])
  show ?thesis
  proof (cases pc)
    case (PushCopy args sz eh j)
    then have "unat eh mod cap r \<noteq> k mod cap r"
      using free_free [OF wf _ _ free, of "unat eh"] pc other by auto
    with PushCopy pc hold show ?thesis by simp
  next
    case (PopCopy d et buf)
    then have "unat et mod cap r \<noteq> k mod cap r"
      using free_full [OF wf _ free, of "unat et"] pc by auto
    with PopCopy pc hold show ?thesis by (simp add: w)
  qed (use pc in \<open>simp_all add: w\<close>)
qed

lemma inv_write:
  assumes inv: "mpmc_inv_at P T D r pcs" and t: "pcs t = PushCopy args sz eh i" and i: "i < unat sz"
  shows "mpmc_inv_at P T D (write_byte r (GET_BUFFER r (eh AND r_mask r) + of_nat i) (args i))
    (pcs(t := PushCopy args sz eh (Suc i)))" (is "mpmc_inv_at P T D ?r ?pcs")
proof -
  note ri = inv_parts(1) [OF inv]
  let ?k = "unat eh"
  have here: "unat sz \<le> osz r" "?k < length P" "P ! ?k = map args [0..<unat sz]"
    "slot_free r ?k" "holds_bytes r ?k (map args [0..<i])"
    using inv_parts(2) [OF inv, of t] by (simp_all add: t)
  have wf: "ring_wf r" using ri by (simp add: ring_inv_def)
  have io: "i < osz r" using here(1) i by simp
  have r: "?r = write_byte r (elem_addr r ?k + of_nat i) (args i)" by (simp add: elem_addr_def)
  have next_bytes: "holds_bytes ?r ?k (map args [0..<Suc i])"
    using holds_bytes_write_next [OF wf _ here(5), of "args i"] io unfolding r by simp
  have other: "holds_bytes ?r l p = holds_bytes r l p" if "slot_full r l" for l p
    unfolding r using holds_bytes_write_other [OF wf io, of l ?k] free_full [OF wf _ here(4) that, of] by metis
  have "ring_inv ?r P T"
    using ri other by (simp add: ring_inv_def slots_inv_def)
  moreover have "pc_ok ?r P T (?pcs u)" for u
  proof (cases "u = t")
    case True
    then show ?thesis using here next_bytes i by (simp add: r)
  next
    case False
    have "(writes \<circ> pcs) t = Some ?k" by (simp add: t)
    then have "writes (pcs u) \<noteq> Some ?k"
      using inv_parts(3) [OF inv] False unfolding one_owner_def by (metis comp_apply)
    then show ?thesis
      unfolding r using pc_ok_write [OF wf io here(4) inv_parts(2) [OF inv, of u]] False by simp
  qed
  moreover have "owners_inv ?r (length P) T ?pcs"
    unfolding owners_inv_def owner_upd
    using one_owner_keep [OF inv_parts(3) [OF inv], of t "Some ?k"]
      one_owner_keep [OF inv_parts(4) [OF inv], of t None] by (simp add: t)
  moreover have "delivered_inv ?r P T D ?pcs"
    using inv_parts(5) [OF inv] t by (auto simp: delivered_inv_def)
  ultimately show ?thesis by (simp add: mpmc_inv_at_def)
qed


text \<open>The last access of a push: its object becomes visible.\<close>

lemma inv_publish:
  assumes inv: "mpmc_inv_at P T D r pcs" and t: "pcs t = PushCopy args sz eh i" and i: "\<not> i < unat sz"
  shows "mpmc_inv_at P T D (store_slot r (eh AND r_mask r) (eh + 1)) (pcs(t := MIdle))"
    (is "mpmc_inv_at P T D ?r ?pcs")
proof -
  note ri = inv_parts(1) [OF inv]
  let ?k = "unat eh"
  have here: "?k < length P" "slot_free r ?k" "holds_bytes r ?k (P ! ?k)"
    using inv_parts(2) [OF inv, of t] i by (auto simp: t)
  have wf: "ring_wf r" "slots_wf r" using ri by (simp_all add: ring_inv_def)
  have small: "?k + 1 < 2 ^ 64" using here(1) head_bound(1) [OF ri] by simp
  have r: "?r = store_slot r (of_nat ?k AND r_mask r) (of_nat (?k + 1))" by (simp add: add.commute)
  note slots = slots_publish [OF wf here(2) small, folded r]
  have mine: "T \<le> ?k" "length P \<le> ?k + cap r" using free_bounds [OF ri here(2)] by simp_all
  have own: "writes (pcs u) \<noteq> Some ?k" if "u \<noteq> t" for u
  proof -
    have "(writes \<circ> pcs) t = Some ?k" by (simp add: t)
    then show ?thesis using inv_parts(3) [OF inv] that unfolding one_owner_def by (metis comp_apply)
  qed
  have "slots_inv ?r (length P) T"
    using ri mine here(1) unfolding ring_inv_def slots_inv_def slots
    by (simp add: wf) blast
  then have "ring_inv ?r P T"
    using ri here(3) by (auto simp: ring_inv_def slots)
  moreover have "pc_ok ?r P T (?pcs u)" for u
    using inv_parts(2) [OF inv, of u] own [of u] here(1)
    by (cases "u = t"; cases "pcs u") (auto simp: slots)
  moreover have "one_owner ((writes \<circ> pcs)(t := None)) {l. l < length P \<and> slot_free ?r l}"
    by (rule one_owner_drop [OF inv_parts(3) [OF inv]]) (auto simp: t slots)
  moreover have "one_owner ((reads \<circ> pcs)(t := None)) {l. l < T \<and> slot_full ?r l}"
    by (rule one_owner_keep [OF inv_parts(4) [OF inv]]) (use mine in \<open>auto simp: t slots\<close>)
  ultimately have "ring_inv ?r P T" "\<And>u. pc_ok ?r P T (?pcs u)" "owners_inv ?r (length P) T ?pcs"
    by (simp_all only: owners_inv_def owner_upd writes.simps reads.simps simp_thms)
  moreover have "delivered_inv ?r P T D ?pcs"
    using inv_parts(5) [OF inv] mine(1) by (fastforce simp: delivered_inv_def slots)
  ultimately show ?thesis by (simp add: mpmc_inv_at_def)
qed

text \<open>One byte of a consumer's copy.\<close>

lemma inv_read:
  assumes inv: "mpmc_inv_at P T D r pcs" and t: "pcs t = PopCopy d et buf" and i: "length buf < want r d"
  shows "mpmc_inv_at P T D r (pcs(t := PopCopy d et
    (buf @ [bytes r (GET_BUFFER r (et AND r_mask r) + of_nat (length buf))])))"
proof (rule inv_local [OF inv])
  have here: "want r d \<le> osz r" "unat et < T" "slot_full r (unat et)" "holds_bytes r (unat et) buf"
    using inv_parts(2) [OF inv, of t] by (simp_all add: t)
  have "bytes r (GET_BUFFER r (et AND r_mask r) + of_nat (length buf)) = byte_at r (unat et) (length buf)"
    by (simp add: byte_at_def elem_addr_def)
  then show "pc_ok r P T (PopCopy d et
      (buf @ [bytes r (GET_BUFFER r (et AND r_mask r) + of_nat (length buf))]))"
    using here i holds_bytes_read [OF _ here(4)] by simp
qed (simp_all add: t)

text \<open>The last access of a pop: its slot becomes free for the ticket one lap later.\<close>

lemma tickets_of_append: "tickets_of u (D @ [(t, w, b)]) = tickets_of u D @ (if u = t then [unat w] else [])"
  by (simp add: tickets_of_def)

lemma delivered_append:
  assumes D: "delivered_inv r P T D pcs" and reads: "reads (pcs t) = Some (unat et)"
    and k: "slot_full r (unat et)" "unat et < T" and b: "agree (P ! unat et) buf"
    and r': "\<And>l. slot_full r' l \<longleftrightarrow> slot_full r l \<and> l \<noteq> unat et"
  shows "delivered_inv r' P T (D @ [(t, et, buf)]) (pcs(t := MIdle))"
  unfolding delivered_inv_def
proof (intro conjI)
  show "\<forall>(u, w, c) \<in> set (D @ [(t, et, buf)]). unat w < T \<and> agree (P ! unat w) c \<and> \<not> slot_full r' (unat w)"
    using D k b by (auto simp: delivered_inv_def r')
  have "et \<noteq> w" if "(u, w, c) \<in> set D" for u w c
    using D k(1) that by (fastforce simp: delivered_inv_def)
  then show "distinct (map (fst \<circ> snd) (D @ [(t, et, buf)]))"
    using D by (fastforce simp: delivered_inv_def)
  show "\<forall>l < T. slot_full r' l \<or> (\<exists>u c. (u, of_nat l, c) \<in> set (D @ [(t, et, buf)]))"
  proof (intro allI impI)
    fix l assume "l < T"
    then show "slot_full r' l \<or> (\<exists>u c. (u, of_nat l, c) \<in> set (D @ [(t, et, buf)]))"
      using D by (cases "l = unat et") (auto simp: delivered_inv_def r')
  qed
  show "\<forall>u. sorted_wrt (<) (tickets_of u (D @ [(t, et, buf)]))"
    using D reads by (auto simp: delivered_inv_def tickets_of_append sorted_wrt_append)
  show "\<forall>u l. reads ((pcs(t := MIdle)) u) = Some l \<longrightarrow> (\<forall>j \<in> set (tickets_of u (D @ [(t, et, buf)])). j < l)"
    using D by (auto simp: delivered_inv_def tickets_of_append)
qed

lemma inv_release:
  assumes inv: "mpmc_inv_at P T D r pcs" and t: "pcs t = PopCopy d et buf" and i: "\<not> length buf < want r d"
  shows "mpmc_inv_at P T (D @ [(t, et, buf)]) (store_slot r (et AND r_mask r) (et + r_objNum r))
    (pcs(t := MIdle))" (is "mpmc_inv_at P T _ ?r ?pcs")
proof -
  note ri = inv_parts(1) [OF inv]
  let ?k = "unat et"
  have here: "?k < T" "slot_full r ?k" "holds_bytes r ?k buf"
    using inv_parts(2) [OF inv, of t] i by (simp_all add: t)
  have wf: "ring_wf r" "slots_wf r" using ri by (simp_all add: ring_inv_def)
  have mine: "?k < length P" "length P \<le> ?k + cap r" "T \<le> ?k + cap r"
    using full_bounds [OF ri here(2)] by simp_all
  have small: "?k + cap r < 2 ^ 64" using ri mine(1) by (simp add: ring_inv_def)
  have r: "?r = store_slot r (of_nat ?k AND r_mask r) (of_nat (?k + cap r))" by (simp add: of_nat_cap)
  note slots = slots_release [OF wf here(2) small, folded r]
  have own: "reads (pcs u) \<noteq> Some ?k" if "u \<noteq> t" for u
  proof -
    have "(reads \<circ> pcs) t = Some ?k" by (simp add: t)
    then show ?thesis using inv_parts(4) [OF inv] that unfolding one_owner_def by (metis comp_apply)
  qed
  have "\<exists>l. l mod cap r = k mod cap r \<and> (slot_free ?r l \<or> slot_full ?r l)" for k
    using ri
  proof (rule slot_stateE [where k = k])
    fix l assume "l mod cap r = k mod cap r" "slot_full r l"
    then show ?thesis by (cases "l = ?k") (auto simp: slots intro: exI [of _ "?k + cap r"])
  qed (auto simp: slots)
  then have "slots_inv ?r (length P) T"
    using ri mine here(1) by (auto simp: ring_inv_def slots_inv_def slots)
  then have "ring_inv ?r P T"
    using ri by (auto simp: ring_inv_def slots)
  moreover have "pc_ok ?r P T (?pcs u)" for u
    using inv_parts(2) [OF inv, of u] own [of u] here(1)
    by (cases "u = t"; cases "pcs u") (auto simp: slots)
  moreover have "one_owner ((writes \<circ> pcs)(t := None)) {l. l < length P \<and> slot_free ?r l}"
    by (rule one_owner_keep [OF inv_parts(3) [OF inv]]) (use mine in \<open>auto simp: t slots\<close>)
  moreover have "one_owner ((reads \<circ> pcs)(t := None)) {l. l < T \<and> slot_full ?r l}"
    by (rule one_owner_drop [OF inv_parts(4) [OF inv]]) (auto simp: t slots)
  ultimately have "ring_inv ?r P T" "\<And>u. pc_ok ?r P T (?pcs u)" "owners_inv ?r (length P) T ?pcs"
    by (simp_all only: owners_inv_def owner_upd writes.simps reads.simps simp_thms)
  moreover have "agree (P ! ?k) buf"
  proof -
    have "holds_bytes r ?k (P ! ?k)" using ri mine(1) here(2) by (simp add: ring_inv_def)
    then show ?thesis using here(3) by (rule holds_bytes_agree)
  qed
  then have "delivered_inv ?r P T (D @ [(t, et, buf)]) ?pcs"
    using delivered_append [OF inv_parts(5) [OF inv] _ here(2,1) _ slots(1)] by (simp add: t)
  ultimately show ?thesis by (simp add: mpmc_inv_at_def)
qed


section \<open>Every schedule\<close>

definition mpmc_inv :: "nat \<Rightarrow> mpmc_event list \<Rightarrow> mpmc_sys \<Rightarrow> bool" where
  "mpmc_inv N h s \<longleftrightarrow> cap (m_ring s) = N \<and>
     mpmc_inv_at (reserved h) (claims h) (delivered h) (m_ring s) (m_pcs s) \<and> Undefined \<notin> set h"

text \<open>Fewer pushes than bring a position near the sign bit.\<close>

definition below_sign :: "nat \<Rightarrow> mpmc_event list \<Rightarrow> bool" where
  "below_sign N h \<longleftrightarrow> length (reserved h) + N < 2 ^ 63"

lemma seq_equal_free:
  assumes inv: "ring_inv r P T" and w: "unat w \<le> length P"
    and d: "intptr_diff (load_slot r (w AND r_mask r)) w = Some dif" "\<not> 0 < dif" "\<not> dif < 0"
  shows "slot_free r (unat w)"
  using inv_intptr_diff(1) [OF inv w] d by (simp add: slot_free_def del: of_nat_unat)

lemma seq_equal_full:
  assumes inv: "ring_inv r P T" and w: "unat w \<le> T"
    and d: "intptr_diff (load_slot r (w AND r_mask r)) (w + 1) = Some dif" "\<not> 0 < dif" "\<not> dif < 0"
  shows "slot_full r (unat w)"
proof -
  have "unat w \<le> length P" using inv w by (auto simp: ring_inv_def)
  from inv_intptr_diff(2) [OF inv this w] d show ?thesis
    by (simp add: slot_full_def del: of_nat_unat)
qed

text \<open>A thread's access, by the place it is at.\<close>

text \<open>The steps of a push, the steps of a pop, and all of them.\<close>

fun is_push :: "mpmc_pc \<Rightarrow> bool" where
  "is_push (PushHead _ _) = True" | "is_push (PushSeq _ _ _) = True" | "is_push (PushCas _ _ _) = True"
| "is_push (PushCopy _ _ _ _) = True" | "is_push _ = False"

fun is_pop :: "mpmc_pc \<Rightarrow> bool" where
  "is_pop (PopTail _) = True" | "is_pop (PopSeq _ _) = True" | "is_pop (PopCas _ _) = True"
| "is_pop (PopCopy _ _ _) = True" | "is_pop _ = False"

lemma inv_push_step:
  assumes inv: "mpmc_inv_at P T D r pcs" and step: "mpmc_pc_step t r (pcs t) = (r', pc', e)"
    and small: "length (P @ reserved e) + cap r < 2 ^ 63"
    and at: "is_push (pcs t)"
  shows "mpmc_inv_at (P @ reserved e) (T + claims e) (D @ delivered e) r' (pcs(t := pc')) \<and>
    Undefined \<notin> set e"
proof (cases "pcs t")
  case (PushHead args sz)
  have "mpmc_inv_at P T D r (pcs(t := PushSeq args sz (r_head r)))"
    using inv_parts(2) [OF inv, of t] ring_position(1) [OF inv_parts(1) [OF inv]] PushHead
    by (intro inv_local [OF inv]) simp_all
  then show ?thesis using step PushHead by auto
next
  case (PushSeq args sz eh)
  have le: "unat sz \<le> osz r" "unat eh \<le> length P" using inv_parts(2) [OF inv, of t] PushSeq by simp_all
  note ri = inv_parts(1) [OF inv]
  obtain dif where dif: "intptr_diff (load_slot r (eh AND r_mask r)) eh = Some dif"
    using inv_intptr_diff(1) [OF ri le(2)] by blast
  have "mpmc_inv_at P T D r (pcs(t := MIdle))"
    by (rule inv_local [OF inv]) (simp_all add: PushSeq)
  moreover have "mpmc_inv_at P T D r (pcs(t := PushCas args sz eh))" if "\<not> 0 < dif" "\<not> dif < 0"
    using le seq_equal_free [OF ri le(2) dif that]
    by (intro inv_local [OF inv]) (auto simp: PushSeq)
  ultimately show ?thesis using step PushSeq dif by (auto split: if_splits)
next
  case (PushCas args sz eh)
  show ?thesis
  proof (cases "r_head r = eh")
    case True
    then have "pcs t = PushCas args sz (r_head r)" using PushCas by simp
    from inv_reserve [OF inv this] show ?thesis
      using step PushCas small True by (auto simp: cas_head_def)
  next
    case False
    have "mpmc_inv_at P T D r (pcs(t := MIdle))"
      by (rule inv_local [OF inv]) (simp_all add: PushCas)
    then show ?thesis using step PushCas False by (auto simp: cas_head_def)
  qed
next
  case (PushCopy args sz eh i)
  show ?thesis
  proof (cases "i < unat sz")
    case True
    then show ?thesis using inv_write [OF inv PushCopy True] step PushCopy by (auto simp: Let_def)
  next
    case False
    then show ?thesis using inv_publish [OF inv PushCopy False] step PushCopy by (auto simp: Let_def)
  qed
qed (use at in simp_all)

lemma inv_pop_step:
  assumes inv: "mpmc_inv_at P T D r pcs" and step: "mpmc_pc_step t r (pcs t) = (r', pc', e)"
    and at: "is_pop (pcs t)"
  shows "mpmc_inv_at (P @ reserved e) (T + claims e) (D @ delivered e) r' (pcs(t := pc')) \<and>
    Undefined \<notin> set e"
proof (cases "pcs t")
  case (PopTail d)
  have "mpmc_inv_at P T D r (pcs(t := PopSeq d (r_tail r)))"
    using inv_parts(2) [OF inv, of t] ring_position(2) [OF inv_parts(1) [OF inv]] PopTail
    by (intro inv_local [OF inv]) simp_all
  then show ?thesis using step PopTail by auto
next
  case (PopSeq d et)
  have le: "want r d \<le> osz r" "unat et \<le> T" using inv_parts(2) [OF inv, of t] PopSeq by simp_all
  note ri = inv_parts(1) [OF inv]
  have "unat et \<le> length P" using ri le(2) by (auto simp: ring_inv_def)
  then obtain dif where dif: "intptr_diff (load_slot r (et AND r_mask r)) (et + 1) = Some dif"
    using inv_intptr_diff(2) [OF ri _ le(2)] by blast
  have "mpmc_inv_at P T D r (pcs(t := MIdle))"
    by (rule inv_local [OF inv]) (simp_all add: PopSeq)
  moreover have "mpmc_inv_at P T D r (pcs(t := PopCas d et))" if "\<not> 0 < dif" "\<not> dif < 0"
    using le seq_equal_full [OF ri le(2) dif that]
    by (intro inv_local [OF inv]) (auto simp: PopSeq)
  ultimately show ?thesis using step PopSeq dif by (auto split: if_splits)
next
  case (PopCas d et)
  show ?thesis
  proof (cases "r_tail r = et")
    case True
    then have "pcs t = PopCas d (r_tail r)" using PopCas by simp
    from inv_claim [OF inv this] show ?thesis
      using step PopCas True by (auto simp: cas_tail_def)
  next
    case False
    have "mpmc_inv_at P T D r (pcs(t := MIdle))"
      by (rule inv_local [OF inv]) (simp_all add: PopCas)
    then show ?thesis using step PopCas False by (auto simp: cas_tail_def)
  qed
next
  case (PopCopy d et buf)
  show ?thesis
  proof (cases "length buf < want r d")
    case True
    then show ?thesis using inv_read [OF inv PopCopy True] step PopCopy by (auto simp: Let_def)
  next
    case False
    then show ?thesis using inv_release [OF inv PopCopy False] step PopCopy by (auto simp: Let_def)
  qed
qed (use at in simp_all)

lemma inv_pc_step:
  assumes inv: "mpmc_inv_at P T D r pcs" and step: "mpmc_pc_step t r (pcs t) = (r', pc', e)"
    and small: "length (P @ reserved e) + cap r < 2 ^ 63"
  shows "mpmc_inv_at (P @ reserved e) (T + claims e) (D @ delivered e) r' (pcs(t := pc')) \<and>
    Undefined \<notin> set e"
proof (cases "pcs t")
  case MIdle
  then show ?thesis using step inv by (auto simp: fun_upd_idem)
qed (use inv_push_step [OF inv step small] inv_pop_step [OF inv step] in simp_all)

lemma mpmc_pc_step_geom: "mpmc_pc_step t r pc = (r', pc', e) \<Longrightarrow> geom r' = geom r"
  by (cases pc)
    (auto simp: Let_def cas_head_def cas_tail_def split: if_splits option.splits)

lemma mpmc_inv_step:
  assumes inv: "mpmc_inv N h s" and step: "mpmc_step s a = (s', e)" and guard: "below_sign N (h @ e)"
  shows "mpmc_inv N (h @ e) s'"
proof -
  have at: "mpmc_inv_at (reserved h) (claims h) (delivered h) (m_ring s) (m_pcs s)"
    and cap: "cap (m_ring s) = N" and ok: "Undefined \<notin> set h"
    using inv by (simp_all add: mpmc_inv_def)
  have idle: "m_pcs s t = MIdle" if "m_idle (m_pcs s t)" for t
    using that by (cases "m_pcs s t") simp_all
  have push: "mpmc_inv_at (reserved h) (claims h) (delivered h) (m_ring s)
      ((m_pcs s)(t := PushHead args sz))"
    if "m_idle (m_pcs s t)" "unat sz \<le> osz (m_ring s)" for t args sz
    by (rule inv_local [OF at]) (simp_all add: that idle)
  have pop: "mpmc_inv_at (reserved h) (claims h) (delivered h) (m_ring s) ((m_pcs s)(t := PopTail d))"
    if "m_idle (m_pcs s t)" "want (m_ring s) d \<le> osz (m_ring s)" for t d
    by (rule inv_local [OF at]) (simp_all add: that idle)
  show ?thesis
  proof (cases "(s, a)" rule: mpmc_step.cases)
    case (1 _ t args sz)
    then show ?thesis
      using inv step push [of t sz args]
      by (auto simp: mpmc_inv_def osz_def unat_less_iff split: if_splits)
  next
    case (2 _ t sz)
    then show ?thesis
      using inv step pop [of t "ToBuf sz"]
      by (auto simp: mpmc_inv_def osz_def unat_less_iff split: if_splits)
  next
    case (3 _ t cb)
    then show ?thesis
      using inv step pop [of t "ToCb cb"]
      by (auto simp: mpmc_inv_def split: if_splits)
  next
    case (4 _ t)
    then obtain r pc where pc: "mpmc_pc_step t (m_ring s) (m_pcs s t) = (r, pc, e)"
      and s': "s' = s\<lparr>m_ring := r, m_pcs := (m_pcs s)(t := pc)\<rparr>"
      using step by (auto simp: Let_def split: prod.splits)
    have "length (reserved h @ reserved e) + cap (m_ring s) < 2 ^ 63"
      using guard by (simp add: below_sign_def cap)
    from inv_pc_step [OF at pc this] geom_eqD(6) [OF mpmc_pc_step_geom [OF pc]] show ?thesis
      by (simp add: mpmc_inv_def s' cap ok)
  qed
qed

interpretation mpmc_conc: history_system mpmc_step "mpmc_inv N" "below_sign N" for N
  by unfold_locales (auto intro: mpmc_inv_step simp: below_sign_def)

lemma mpmc_inv_start:
  assumes at: "mpmc_at r 0 0" and small: "cap r < 2 ^ 63"
  shows "mpmc_inv (cap r) [] (mpmc_start r)"
proof -
  have wf: "ring_wf r" "slots_wf r" using at by (simp_all add: mpmc_at_def)
  have seq: "seq_at r k = of_nat (k mod cap r)" for k
  proof -
    have "seq_at r k = seq_at r (k mod cap r)" by (rule seq_at_mod [OF wf(1)]) simp
    then show ?thesis using at wf_cap_pos [OF wf(1)] by (simp add: mpmc_at_def)
  qed
  have small_mod: "k mod cap r < 2 ^ 64" for k
    using mod_less_divisor [OF wf_cap_pos [OF wf(1)], of k] small by simp
  have val: "unat (seq_at r k) = k mod cap r" for k
    unfolding seq by (rule unat_of_nat64 [OF small_mod])
  have free: "slot_free r k \<longleftrightarrow> k < cap r" for k
    using wf_cap_pos [OF wf(1)] mod_less_divisor [OF wf_cap_pos [OF wf(1)], of k]
    by (auto simp: slot_free_def val) 
  have full: "\<not> slot_full r k" for k
  proof -
    have "k mod cap r \<le> k" by simp
    then have "k mod cap r \<noteq> k + 1" by linarith
    then show ?thesis by (simp only: slot_full_def val not_False_eq_True)
  qed
  have "ring_inv r [] 0"
    using at small wf wf_cap_pos [OF wf(1)]
    by (auto simp: ring_inv_def slots_inv_def free full mpmc_at_def intro: exI [of _ "_ mod cap r"])
  then show ?thesis
    by (simp add: mpmc_inv_def mpmc_inv_at_def mpmc_start_def owners_inv_def one_owner_def
        delivered_inv_def tickets_of_def)
qed

lemma mpmc_fresh_inv:
  assumes "good_capacity n" "layout_fits n sz" "unat n < 2 ^ 63"
    and "r = init_ring r0 (get_total_size n sz MPMC_SLOT) n m fd MPMC_SLOT"
    and run: "exec mpmc_step (mpmc_start r) as = (s, h)" and guard: "below_sign (unat n) h"
  shows "mpmc_inv (unat n) h s"
proof -
  have u: "slot_mode MPMC_SLOT" "MPMC_SLOT = MPMC_SLOT \<or> MPMC_SLOT = MPSC_SLOT"
    by (simp_all add: slot_mode_def)
  have "mpmc_at r 0 0"
    unfolding assms(4) using init_ring_wf [OF assms(1,2) u(1)] init_slot_ring_wf [OF assms(2) u(2)]
      seq_at_init_ring [OF assms(1,2) u(2)]
    by (simp add: mpmc_at_def)
  moreover have "cap r = unat n" by (simp add: assms(4))
  ultimately have "mpmc_inv (unat n) [] (mpmc_start r)" using mpmc_inv_start [of r] assms(3) by simp
  from mpmc_conc.inv_run [OF this run guard] show ?thesis .
qed


section \<open>When every operation has returned\<close>

lemma quiescent_at:
  assumes inv: "mpmc_inv_at P T D r pcs" and idle: "\<And>t. pcs t = MIdle"
  shows "mpmc_at r T (length P)"
proof -
  note ri = inv_parts(1) [OF inv]
  have wf: "ring_wf r" "slots_wf r" and order: "T \<le> length P" "length P \<le> T + cap r"
    using ri by (simp_all add: ring_inv_def)
  have no_free: "length P \<le> l" if "slot_free r l" for l
    using no_owner [OF inv_parts(3) [OF inv]] that by (force simp: idle simp flip: not_less)
  have no_full: "T \<le> l" if "slot_full r l" for l
    using no_owner [OF inv_parts(4) [OF inv]] that by (force simp: idle simp flip: not_less)
  have same: "l = k" if "l mod cap r = k mod cap r" "T \<le> l" "l < T + cap r" "T \<le> k" "k < T + cap r" for k l
    using mod_less_distinct [of k l "cap r"] mod_less_distinct [of l k "cap r"] that
    by (cases l k rule: linorder_cases) auto
  have seq: "seq_at r k = of_nat (if k < length P then k + 1 else k)" if k: "T \<le> k" "k < T + cap r" for k
    using ri
  proof (rule slot_stateE [where k = k])
    fix l assume l: "l mod cap r = k mod cap r" "slot_free r l"
    then have "l = k" using same k free_bounds [OF ri l(2)] by simp
    moreover have "seq_at r l = of_nat l" by (rule slot_freeD [OF l(2)])
    ultimately show ?thesis using no_free [OF l(2)] by simp
  next
    fix l assume l: "l mod cap r = k mod cap r" "slot_full r l"
    have b: "l < length P" using full_bounds [OF ri l(2)] by simp
    then have "l = k" using same l(1) k no_full [OF l(2)] order by simp
    moreover have "seq_at r l = of_nat (l + 1)" by (rule slot_fullD [OF l(2)])
    ultimately show ?thesis using b by simp
  qed
  show ?thesis
    using ri wf order seq by (auto simp: mpmc_at_def ring_inv_def)
qed

lemma quiescent_queue:
  assumes inv: "mpmc_inv_at P T D r pcs" and idle: "\<And>t. pcs t = MIdle"
  shows "list_all2 agree (drop T P) (ring_queue r)"
proof -
  note ri = inv_parts(1) [OF inv]
  note at = quiescent_at [OF assms]
  have cnt: "count r = length P - T" by (rule mpmc_at_count [OF at])
  have tail: "r_tail r = of_nat T" using at by (simp add: mpmc_at_def)
  show ?thesis
  proof (rule list_all2_all_nthI)
    fix i assume i: "i < length (drop T P)"
    then have k: "T + i < length P" by simp
    have "seq_at r (T + i) = of_nat (T + i + 1)" using at k by (simp add: mpmc_at_def)
    moreover have "T + i + 1 < 2 ^ 64" using k head_bound(1) [OF ri] by simp
    ultimately have "slot_full r (T + i)" unfolding slot_full_def by (simp only: unat_of_nat64)
    then have "holds_bytes r (T + i) (P ! (T + i))" using ri k by (simp add: ring_inv_def)
    moreover have "ring_queue r ! i = map (byte_at r (T + i)) [0..<osz r]"
      using i elem_of_nat [of r "T + i"] by (simp add: ring_queue_def cnt tail)
    ultimately show "agree (drop T P ! i) (ring_queue r ! i)"
      using i by (simp add: agree_def holds_bytes_def)
  qed (simp add: cnt)
qed

lemma quiescent_delivered:
  assumes inv: "mpmc_inv_at P T D r pcs" and idle: "\<And>t. pcs t = MIdle"
  shows "(\<lambda>x. unat (fst (snd x))) ` set D = {0..<T}"
proof -
  have D: "delivered_inv r P T D pcs" by (rule inv_parts(5) [OF inv])
  have "\<exists>t b. (t, of_nat k, b) \<in> set D" if "k < T" for k
    using D no_owner [OF inv_parts(4) [OF inv]] that by (auto simp: delivered_inv_def idle)
  moreover have "unat (of_nat k :: size_t) = k" if "k < T" for k
    using head_bound(2) [OF inv_parts(1) [OF inv]] that by (intro unat_of_nat64) simp
  ultimately have "{0..<T} \<subseteq> (\<lambda>x. unat (fst (snd x))) ` set D" by force
  then show ?thesis using D by (auto simp: delivered_inv_def)
qed

section \<open>Properties\<close>

text \<open>C4: Any number of threads pushing, popping and popping with callbacks on a fresh MPMC ring,
  under every schedule of their accesses with fewer than \<open>2 ^ 63 - capacity\<close> pushes: there is
  no undefined behaviour; never more than the capacity is between the two positions; every
  object handed out is, under its ticket, the one pushed with that ticket, on all the bytes
  both calls transferred; no ticket is handed out twice; and each thread receives its objects
  in ticket order.\<close>

theorem mpmc_concurrent_safety:
  assumes "good_capacity n" "layout_fits n sz" "unat n < 2 ^ 63"
    and "r = init_ring r0 (get_total_size n sz MPMC_SLOT) n m fd MPMC_SLOT"
    and "exec mpmc_step (mpmc_start r) as = (s, h)" "length (reserved h) + unat n < 2 ^ 63"
  shows "Undefined \<notin> set h \<and>
    claims h \<le> length (reserved h) \<and> length (reserved h) \<le> claims h + unat n \<and>
    (\<forall>(t, w, b) \<in> set (delivered h). unat w < claims h \<and> agree (reserved h ! unat w) b) \<and>
    distinct (map (fst \<circ> snd) (delivered h)) \<and>
    (\<forall>t. sorted_wrt (<) (tickets_of t (delivered h)))"
proof -
  have "mpmc_inv (unat n) h s"
    by (rule mpmc_fresh_inv [OF assms(1-5)]) (use assms(6) in \<open>simp add: below_sign_def\<close>)
  then show ?thesis
    by (auto simp: mpmc_inv_def mpmc_inv_at_def ring_inv_def delivered_inv_def)
qed

theorem mpmc_concurrent_safety_witness:
  "(let h = snd (exec mpmc_step (mpmc_start (make_ring 2 8 MPMC_SLOT))
      [MPush 0 (\<lambda>i. 5) 1, MPush 1 (\<lambda>i. 6) 1, MStep 0, MStep 1, MStep 1, MStep 1, MStep 0,
       MStep 0, MStep 1, MStep 1])
    in Undefined \<notin> set h \<and> reserved h = [[6]])"
proof -
  let ?as = "[MPush 0 (\<lambda>i. 5) 1, MPush 1 (\<lambda>i. 6) 1, MStep 0, MStep 1, MStep 1, MStep 1, MStep 0,
       MStep 0, MStep 1, MStep 1]"
  let ?x = "exec mpmc_step (mpmc_start (make_ring 2 8 MPMC_SLOT)) ?as"
  have cap: "good_capacity 2" "layout_fits 2 8" "unat (2::size_t) < 2 ^ 63"
    by (simp_all add: good_capacity_def layout_fits_def align_nat_def)
  have res: "reserved (snd ?x) = [[6]]" by code_simp
  then have few: "length (reserved (snd ?x)) + unat (2::size_t) < 2 ^ 63" by (simp only: res) simp
  from mpmc_concurrent_safety [OF cap make_ring_def surjective_pairing few]
  show ?thesis using res by (simp only: Let_def simp_thms)
qed

text \<open>The slot a thread is copying into or out of.\<close>

fun touches :: "mpmc_pc \<Rightarrow> size_t option" where
  "touches (PushCopy args sz eh i) = Some eh"
| "touches (PopCopy d et buf) = Some et"
| "touches _ = None"

lemma touches_cases:
  "pc_ok r P T pc \<Longrightarrow> touches pc = Some w \<Longrightarrow>
   writes pc = Some (unat w) \<and> slot_free r (unat w) \<or> reads pc = Some (unat w) \<and> slot_full r (unat w)"
  by (cases pc) auto

lemma touches_slot:
  assumes inv: "mpmc_inv_at P T D r pcs" and ne: "t \<noteq> t'"
    and w: "touches (pcs t) = Some w" "touches (pcs t') = Some w'"
  shows "w AND r_mask r \<noteq> w' AND r_mask r"
proof
  assume eq: "w AND r_mask r = w' AND r_mask r"
  have wf: "ring_wf r" using inv_parts(1) [OF inv] by (simp add: ring_inv_def)
  have same: "unat w mod cap r = unat w' mod cap r"
    using arg_cong [OF eq, of unat] by (simp only: unat_index [OF wf])
  have apart: "writes (pcs t) = Some k \<Longrightarrow> writes (pcs t') \<noteq> Some k"
    "reads (pcs t) = Some k \<Longrightarrow> reads (pcs t') \<noteq> Some k" for k
    using inv_parts(3,4) [OF inv] ne unfolding one_owner_def by (metis comp_apply)+
  show False
    using touches_cases [OF inv_parts(2) [OF inv] w(1)] touches_cases [OF inv_parts(2) [OF inv] w(2)]
      apart free_free [OF wf same] full_full [OF wf same] free_full [OF wf same]
      free_full [OF wf same [symmetric]]
    by metis
qed

text \<open>C26: Two threads that are inside their copies, producers or consumers, are on different
  slots, under every schedule: the sequence numbers and the compare-and-exchange give every
  slot at most one user at a time.\<close>

theorem mpmc_slot_exclusive:
  assumes "good_capacity n" "layout_fits n sz" "unat n < 2 ^ 63"
    and "r = init_ring r0 (get_total_size n sz MPMC_SLOT) n m fd MPMC_SLOT"
    and "exec mpmc_step (mpmc_start r) as = (s, h)" "length (reserved h) + unat n < 2 ^ 63"
    and "t \<noteq> t'" "touches (m_pcs s t) = Some w" "touches (m_pcs s t') = Some w'"
  shows "w AND r_mask (m_ring s) \<noteq> w' AND r_mask (m_ring s)"
proof -
  have "mpmc_inv (unat n) h s"
    by (rule mpmc_fresh_inv [OF assms(1-5)]) (use assms(6) in \<open>simp add: below_sign_def\<close>)
  then show ?thesis
    using touches_slot [OF _ assms(7-9)] by (auto simp: mpmc_inv_def)
qed

theorem mpmc_slot_exclusive_witness: "(0::size_t) AND 1 \<noteq> 1 AND 1"
proof -
  let ?as = "[MPush 0 (\<lambda>i. 5) 1, MStep 0, MStep 0, MStep 0, MPush 1 (\<lambda>i. 6) 1, MStep 1, MStep 1, MStep 1]"
  let ?x = "exec mpmc_step (mpmc_start (make_ring 2 8 MPMC_SLOT)) ?as"
  have cap: "good_capacity 2" "layout_fits 2 8" "unat (2::size_t) < 2 ^ 63"
    by (simp_all add: good_capacity_def layout_fits_def align_nat_def)
  have res: "length (reserved (snd ?x)) = 2" by code_simp
  then have few: "length (reserved (snd ?x)) + unat (2::size_t) < 2 ^ 63" by (simp only: res) simp
  have "touches (m_pcs (fst ?x) 0) = Some 0" "touches (m_pcs (fst ?x) 1) = Some 1"
    "r_mask (m_ring (fst ?x)) = 1" by code_simp+
  then show ?thesis
    using mpmc_slot_exclusive [OF cap make_ring_def surjective_pairing few, of 0 1 0 1]
    by simp
qed


text \<open>C17: When every operation has returned, nothing is in flight: exactly the tickets taken by
  pops have been delivered, the ring is a well-formed sequential MPMC ring again, and the queue
  it holds is the list of pushed objects that no pop took, in ticket order.\<close>

theorem mpmc_quiescent:
  assumes "good_capacity n" "layout_fits n sz" "unat n < 2 ^ 63"
    and "r = init_ring r0 (get_total_size n sz MPMC_SLOT) n m fd MPMC_SLOT"
    and "exec mpmc_step (mpmc_start r) as = (s, h)" "length (reserved h) + unat n < 2 ^ 63"
    and "\<And>t. m_pcs s t = MIdle"
  shows "(\<lambda>x. unat (fst (snd x))) ` set (delivered h) = {0..<claims h} \<and> mpmc_ok (m_ring s) \<and>
    list_all2 agree (drop (claims h) (reserved h)) (ring_queue (m_ring s))"
proof -
  have "mpmc_inv (unat n) h s"
    by (rule mpmc_fresh_inv [OF assms(1-5)]) (use assms(6) in \<open>simp add: below_sign_def\<close>)
  then have inv: "mpmc_inv_at (reserved h) (claims h) (delivered h) (m_ring s) (m_pcs s)"
    by (simp add: mpmc_inv_def)
  have "mpmc_ok (m_ring s)"
    by (rule mpmc_okI [OF quiescent_at [OF inv assms(7)]]) (use assms(6) in simp)
  then show ?thesis
    using quiescent_delivered [OF inv assms(7)] quiescent_queue [OF inv assms(7)] by simp
qed

theorem mpmc_quiescent_witness:
  "(let s = fst (exec mpmc_step (mpmc_start (make_ring 2 8 MPMC_SLOT))
      (MPush 0 (\<lambda>i. 5) 1 # replicate 5 (MStep 0)))
    in mpmc_ok (m_ring s))"
proof -
  let ?x = "exec mpmc_step (mpmc_start (make_ring 2 8 MPMC_SLOT)) (MPush 0 (\<lambda>i. 5) 1 # replicate 5 (MStep 0))"
  have cap: "good_capacity 2" "layout_fits 2 8" "unat (2::size_t) < 2 ^ 63"
    by (simp_all add: good_capacity_def layout_fits_def align_nat_def)
  have res: "length (reserved (snd ?x)) = 1" by code_simp
  then have few: "length (reserved (snd ?x)) + unat (2::size_t) < 2 ^ 63" by (simp only: res) simp
  have "m_idle (m_pcs (fst ?x) 0)" by code_simp
  then have zero: "m_pcs (fst ?x) 0 = MIdle" by (cases "m_pcs (fst ?x) 0") simp_all
  have pc0: "m_pcs s' t = m_pcs s t" if "mpmc_step s a = (s', e)" "t \<noteq> 0"
    "a = MStep 0 \<or> (\<exists>args sz. a = MPush 0 args sz)" for s s' a e t
    using that by (auto simp: Let_def split: if_splits prod.splits)
  have others: "m_pcs s' t = m_pcs s t"
    if "exec mpmc_step s as = (s', e)" "t \<noteq> 0" "\<forall>a \<in> set as. a = MStep 0 \<or> (\<exists>args sz. a = MPush 0 args sz)"
    for s s' as e t
    using that
  proof (induction as arbitrary: s e)
    case (Cons a as)
    obtain u e1 e2 where "mpmc_step s a = (u, e1)" "exec mpmc_step u as = (s', e2)"
      using Cons.prems(1) by (auto simp: Let_def split: prod.splits)
    then show ?case using Cons.IH [of u e2] Cons.prems pc0 [of s a u e1 t] by auto
  qed simp
  have "m_pcs (fst ?x) t = MIdle" for t
  proof (cases "t = 0")
    case False
    have "m_pcs (fst ?x) t = m_pcs (mpmc_start (make_ring 2 8 MPMC_SLOT)) t"
      by (rule others [OF surjective_pairing False]) (auto simp: in_set_replicate)
    then show ?thesis by (simp only: mpmc_start_def mpmc_sys.simps)
  qed (simp only: zero)
  with mpmc_quiescent [OF cap make_ring_def surjective_pairing few]
  show ?thesis by (simp only: Let_def simp_thms)
qed

lemma full_meaning:
  assumes inv: "mpmc_inv_at P T D r pcs" and w: "unat eh \<le> length P"
    and lt: "unat (seq_at r (unat eh)) < unat eh"
  shows "unat eh = length P \<and>
    (length P = T + cap r \<or> (\<exists>u. reads (pcs u) = Some (length P - cap r)))"
proof -
  note ri = inv_parts(1) [OF inv]
  have wf: "ring_wf r" using ri by (simp add: ring_inv_def)
  have lap: "l + cap r \<le> k" if "l < k" "l mod cap r = k mod cap r" for k l
    using mod_less_distinct [OF that(1), of "cap r"] that(2) by force
  from ri show ?thesis
  proof (rule slot_stateE [where k = "unat eh"])
    fix l assume l: "l mod cap r = unat eh mod cap r" "slot_free r l"
    then have "l < unat eh" using lt seq_at_mod [OF wf l(1)] by (simp add: slot_free_def)
    with lap [OF this l(1)] free_bounds [OF ri l(2)] w ri show ?thesis by (simp add: ring_inv_def)
  next
    fix l assume l: "l mod cap r = unat eh mod cap r" "slot_full r l"
    then have "l < unat eh" using lt seq_at_mod [OF wf l(1)] by (simp add: slot_full_def)
    with lap [OF this l(1)] full_bounds [OF ri l(2)] w
    have eq: "unat eh = length P" "l = length P - cap r" "length P = l + cap r" by auto
    have "\<exists>u. reads (pcs u) = Some l" if "l < T"
      using inv_parts(4) [OF inv] l(2) that unfolding one_owner_def by fastforce
    moreover have "length P = T + cap r" if "\<not> l < T"
      using that eq(3) ri by (auto simp: ring_inv_def)
    ultimately show ?thesis unfolding eq(2) using eq(1) by blast
  qed
qed

lemma empty_meaning:
  assumes inv: "mpmc_inv_at P T D r pcs" and w: "unat et \<le> T"
    and lt: "unat (seq_at r (unat et)) < unat et + 1"
  shows "unat et = T \<and> (length P = T \<or> (\<exists>u. writes (pcs u) = Some T))"
proof -
  note ri = inv_parts(1) [OF inv]
  have wf: "ring_wf r" and le: "T \<le> length P" using ri by (simp_all add: ring_inv_def)
  have lap: "l + cap r \<le> k" if "l < k" "l mod cap r = k mod cap r" for k l
    using mod_less_distinct [OF that(1), of "cap r"] that(2) by force
  from ri show ?thesis
  proof (rule slot_stateE [where k = "unat et"])
    fix l assume l: "l mod cap r = unat et mod cap r" "slot_free r l"
    then have "l \<le> unat et" using lt seq_at_mod [OF wf l(1)] by (simp add: slot_free_def)
    with free_bounds [OF ri l(2)] w have "l = T" "unat et = T" by simp_all
    moreover have "\<exists>u. writes (pcs u) = Some T" if "T < length P"
      using inv_parts(3) [OF inv] l(2) that \<open>l = T\<close> unfolding one_owner_def by fastforce
    ultimately show ?thesis using le by (cases "T < length P") auto
  next
    fix l assume l: "l mod cap r = unat et mod cap r" "slot_full r l"
    then have "l < unat et" using lt seq_at_mod [OF wf l(1)] by (simp add: slot_full_def)
    with lap [OF this l(1)] full_bounds [OF ri l(2)] w le have "length P = l + cap r" "T = length P"
      by simp_all
    then show ?thesis using \<open>l < unat et\<close> lap [OF _ l(1)] w by simp
  qed
qed

lemma ahead_meaning:
  assumes inv: "mpmc_inv_at P T D r pcs"
  shows "unat w \<le> length P \<Longrightarrow> unat w < unat (seq_at r (unat w)) \<Longrightarrow> unat w < length P"
    and "unat w \<le> T \<Longrightarrow> unat w + 1 < unat (seq_at r (unat w)) \<Longrightarrow> unat w < T"
proof -
  note ri = inv_parts(1) [OF inv]
  have wf: "ring_wf r" and le: "T \<le> length P" "length P \<le> T + cap r" using ri by (simp_all add: ring_inv_def)
  have lap: "l + cap r \<le> k" if "l < k" "l mod cap r = k mod cap r" for k l
    using mod_less_distinct [OF that(1), of "cap r"] that(2) by force
  show "unat w < length P" if w: "unat w \<le> length P" "unat w < unat (seq_at r (unat w))"
    using ri
  proof (rule slot_stateE [where k = "unat w"])
    fix l assume l: "l mod cap r = unat w mod cap r" "slot_free r l"
    then have "unat w < l" using w(2) seq_at_mod [OF wf l(1)] by (simp add: slot_free_def)
    with lap [OF this l(1) [symmetric]] free_bounds [OF ri l(2)] le show ?thesis by simp
  next
    fix l assume l: "l mod cap r = unat w mod cap r" "slot_full r l"
    then have "unat w \<le> l" using w(2) seq_at_mod [OF wf l(1)] by (simp add: slot_full_def)
    with full_bounds [OF ri l(2)] show ?thesis by simp
  qed
  show "unat w < T" if w: "unat w \<le> T" "unat w + 1 < unat (seq_at r (unat w))"
    using ri
  proof (rule slot_stateE [where k = "unat w"])
    fix l assume l: "l mod cap r = unat w mod cap r" "slot_free r l"
    then have "unat w < l" using w(2) seq_at_mod [OF wf l(1)] by (simp add: slot_free_def)
    with lap [OF this l(1) [symmetric]] free_bounds [OF ri l(2)] show ?thesis by simp
  next
    fix l assume l: "l mod cap r = unat w mod cap r" "slot_full r l"
    then have "unat w < l" using w(2) seq_at_mod [OF wf l(1)] by (simp add: slot_full_def)
    with lap [OF this l(1) [symmetric]] full_bounds [OF ri l(2)] le w(1) show ?thesis by simp
  qed
qed

lemma push_codes:
  assumes inv: "mpmc_inv_at P T D r pcs" and step: "mpmc_pc_step t r (pcs t) = (r', pc', e)"
  shows "pcs t = PushSeq args z eh \<Longrightarrow> Ret t RINGBUF_FULL \<in> set e \<Longrightarrow>
      unat eh = length P \<and> (length P = T + cap r \<or> (\<exists>u. reads (pcs u) = Some (length P - cap r)))"
    and "pcs t = PushSeq args z eh \<or> pcs t = PushCas args z eh \<Longrightarrow>
      Ret t RINGBUF_CONTENTION \<in> set e \<Longrightarrow> unat eh < length P"
proof -
  note ri = inv_parts(1) [OF inv] and pc = inv_parts(2) [OF inv, of t]
  note codes = RINGBUF_FULL_def RINGBUF_CONTENTION_def
  have le: "unat eh \<le> length P" if "pcs t = PushSeq args z eh" using pc that by simp
  have push: "if unat (seq_at r (unat eh)) < unat eh then e = [Ret t RINGBUF_FULL]
      else if unat eh < unat (seq_at r (unat eh)) then e = [Ret t RINGBUF_CONTENTION] else e = []"
    if at: "pcs t = PushSeq args z eh"
    using step at inv_intptr_diff(1) [OF ri le [OF at]] by (auto simp del: of_nat_unat)
  show "unat eh = length P \<and> (length P = T + cap r \<or> (\<exists>u. reads (pcs u) = Some (length P - cap r)))"
    if at: "pcs t = PushSeq args z eh" and "Ret t RINGBUF_FULL \<in> set e"
    using push [OF at] that(2) by (intro full_meaning [OF inv le [OF at]]) (auto simp: codes split: if_splits)
  show "unat eh < length P"
    if at: "pcs t = PushSeq args z eh \<or> pcs t = PushCas args z eh" and ret: "Ret t RINGBUF_CONTENTION \<in> set e"
    using at
  proof
    assume at: "pcs t = PushSeq args z eh"
    show ?thesis
      using push [OF at] ret by (intro ahead_meaning(1) [OF inv le [OF at]]) (auto simp: codes split: if_splits)
  next
    assume at: "pcs t = PushCas args z eh"
    then have "r_head r \<noteq> eh" using step ret by (auto simp: cas_head_def)
    then have "unat eh \<noteq> length P" using ring_position(1) [OF ri] by (metis word_unat_eq_iff)
    then show ?thesis using pc at by simp
  qed
qed

lemma pop_codes:
  assumes inv: "mpmc_inv_at P T D r pcs" and step: "mpmc_pc_step t r (pcs t) = (r', pc', e)"
  shows "pcs t = PopSeq d et \<Longrightarrow> Ret t RINGBUF_EMPTY \<in> set e \<Longrightarrow>
      unat et = T \<and> (length P = T \<or> (\<exists>u. writes (pcs u) = Some T))"
    and "pcs t = PopSeq d et \<or> pcs t = PopCas d et \<Longrightarrow>
      Ret t RINGBUF_CONTENTION \<in> set e \<Longrightarrow> unat et < T"
proof -
  note ri = inv_parts(1) [OF inv] and pc = inv_parts(2) [OF inv, of t]
  note codes = RINGBUF_EMPTY_def RINGBUF_CONTENTION_def
  have order: "T \<le> length P" using ri by (simp add: ring_inv_def)
  have le: "unat et \<le> T" if "pcs t = PopSeq d et" using pc that by simp
  have pop: "if unat (seq_at r (unat et)) < unat et + 1 then e = [Ret t RINGBUF_EMPTY]
      else if unat et + 1 < unat (seq_at r (unat et)) then e = [Ret t RINGBUF_CONTENTION] else e = []"
    if at: "pcs t = PopSeq d et"
    using step at inv_intptr_diff(2) [OF ri order_trans [OF le [OF at] order] le [OF at]]
    by (auto simp del: of_nat_unat)
  show "unat et = T \<and> (length P = T \<or> (\<exists>u. writes (pcs u) = Some T))"
    if at: "pcs t = PopSeq d et" and "Ret t RINGBUF_EMPTY \<in> set e"
    using pop [OF at] that(2) by (intro empty_meaning [OF inv le [OF at]]) (auto simp: codes split: if_splits)
  show "unat et < T"
    if at: "pcs t = PopSeq d et \<or> pcs t = PopCas d et" and ret: "Ret t RINGBUF_CONTENTION \<in> set e"
    using at
  proof
    assume at: "pcs t = PopSeq d et"
    show ?thesis
      using pop [OF at] ret by (intro ahead_meaning(2) [OF inv le [OF at]]) (auto simp: codes split: if_splits)
  next
    assume at: "pcs t = PopCas d et"
    then have "r_tail r \<noteq> et" using step ret by (auto simp: cas_tail_def)
    then have "unat et \<noteq> T" using ring_position(2) [OF ri] by (metis word_unat_eq_iff)
    then show ?thesis using pc at by simp
  qed
qed

text \<open>C28: What the failure codes say at the access that decides them. \<^verbatim>\<open>RINGBUF_FULL\<close>: no push
  has passed since the head was read, and the ring holds as many objects as its capacity or a
  consumer is still reading the slot needed. \<^verbatim>\<open>RINGBUF_EMPTY\<close>: no pop has passed, and the ring
  holds nothing or a producer is still writing the object needed. \<^verbatim>\<open>RINGBUF_CONTENTION\<close>:
  another thread has obtained the ticket since the position was read.\<close>

theorem mpmc_status_meaning:
  assumes "good_capacity n" "layout_fits n sz" "unat n < 2 ^ 63"
    and "r = init_ring r0 (get_total_size n sz MPMC_SLOT) n m fd MPMC_SLOT"
    and "exec mpmc_step (mpmc_start r) as = (s, h)" "length (reserved h) + unat n < 2 ^ 63"
    and "mpmc_step s (MStep t) = (s', e)"
  shows "(\<forall>args z eh. m_pcs s t = PushSeq args z eh \<longrightarrow> Ret t RINGBUF_FULL \<in> set e \<longrightarrow>
      unat eh = length (reserved h) \<and> (length (reserved h) = claims h + unat n \<or>
        (\<exists>u. reads (m_pcs s u) = Some (length (reserved h) - unat n)))) \<and>
    (\<forall>d et. m_pcs s t = PopSeq d et \<longrightarrow> Ret t RINGBUF_EMPTY \<in> set e \<longrightarrow>
      unat et = claims h \<and> (length (reserved h) = claims h \<or>
        (\<exists>u. writes (m_pcs s u) = Some (claims h)))) \<and>
    (\<forall>args z eh. m_pcs s t = PushSeq args z eh \<or> m_pcs s t = PushCas args z eh \<longrightarrow>
      Ret t RINGBUF_CONTENTION \<in> set e \<longrightarrow> unat eh < length (reserved h)) \<and>
    (\<forall>d et. m_pcs s t = PopSeq d et \<or> m_pcs s t = PopCas d et \<longrightarrow>
      Ret t RINGBUF_CONTENTION \<in> set e \<longrightarrow> unat et < claims h)"
proof -
  let ?r = "m_ring s" and ?P = "reserved h" and ?T = "claims h"
  have "mpmc_inv (unat n) h s"
    by (rule mpmc_fresh_inv [OF assms(1-5)]) (use assms(6) in \<open>simp add: below_sign_def\<close>)
  then have inv: "mpmc_inv_at ?P ?T (delivered h) ?r (m_pcs s)" and cap: "cap ?r = unat n"
    by (simp_all add: mpmc_inv_def)
  obtain r' pc' where step: "mpmc_pc_step t ?r (m_pcs s t) = (r', pc', e)"
    using assms(7) by (auto simp: Let_def split: prod.splits)
  show ?thesis
    using push_codes [OF inv step, unfolded cap] pop_codes [OF inv step] by blast
qed

theorem mpmc_status_meaning_witness:
  "(let x = exec mpmc_step (mpmc_start (make_ring 2 8 MPMC_SLOT))
      [MPop 1 (ToBuf 1), MPush 0 (\<lambda>i. 5) 1, MStep 0, MStep 0, MStep 0, MStep 1]
    in length (reserved (snd x)) = 1 \<and> (\<exists>u. writes (m_pcs (fst x) u) = Some 0))"
proof -
  let ?as = "[MPop 1 (ToBuf 1), MPush 0 (\<lambda>i. 5) 1, MStep 0, MStep 0, MStep 0, MStep 1]"
  let ?x = "exec mpmc_step (mpmc_start (make_ring 2 8 MPMC_SLOT)) ?as"
  have cap: "good_capacity 2" "layout_fits 2 8" "unat (2::size_t) < 2 ^ 63"
    by (simp_all add: good_capacity_def layout_fits_def align_nat_def)
  have res: "length (reserved (snd ?x)) = 1" "claims (snd ?x) = 0" by code_simp+
  then have few: "length (reserved (snd ?x)) + unat (2::size_t) < 2 ^ 63" by (simp only: res) simp
  have "case m_pcs (fst ?x) 1 of PopSeq d et \<Rightarrow> et = 0 | _ \<Rightarrow> False"
    and e: "snd (mpmc_step (fst ?x) (MStep 1)) = [Ret 1 RINGBUF_EMPTY]" by code_simp+
  then obtain d where pc: "m_pcs (fst ?x) 1 = PopSeq d 0" by (auto split: mpmc_pc.splits)
  have ret: "Ret 1 RINGBUF_EMPTY \<in> set (snd (mpmc_step (fst ?x) (MStep 1)))"
    by (simp only: e list.set) simp
  note meaning = mpmc_status_meaning [OF cap make_ring_def surjective_pairing few surjective_pairing]
  have "claims (snd ?x) = unat (0::size_t) \<and> (length (reserved (snd ?x)) = claims (snd ?x) \<or>
      (\<exists>u. writes (m_pcs (fst ?x) u) = Some (claims (snd ?x))))"
    using meaning [THEN conjunct2, THEN conjunct1, rule_format, OF pc ret] by (metis (no_types))
  then show ?thesis by (simp only: Let_def res) simp
qed


section \<open>Bounded steps\<close>

fun mpmc_pc_work :: "ring \<Rightarrow> mpmc_pc \<Rightarrow> nat" where
  "mpmc_pc_work r MIdle = 0"
| "mpmc_pc_work r (PushHead args sz) = unat sz + 4"
| "mpmc_pc_work r (PushSeq args sz eh) = unat sz + 3"
| "mpmc_pc_work r (PushCas args sz eh) = unat sz + 2"
| "mpmc_pc_work r (PushCopy args sz eh i) = unat sz - i + 1"
| "mpmc_pc_work r (PopTail d) = want r d + 4"
| "mpmc_pc_work r (PopSeq d et) = want r d + 3"
| "mpmc_pc_work r (PopCas d et) = want r d + 2"
| "mpmc_pc_work r (PopCopy d et buf) = want r d - length buf + 1"

fun mpmc_own :: "nat \<Rightarrow> mpmc_action \<Rightarrow> bool" where
  "mpmc_own t (MStep u) = (u = t)"
| "mpmc_own t a = False"

definition mpmc_returned :: "nat \<Rightarrow> mpmc_event list \<Rightarrow> bool" where
  "mpmc_returned t e \<longleftrightarrow> (\<exists>rc. Ret t rc \<in> set e) \<or> Undefined \<in> set e"

lemma work_geom:
  assumes "geom r' = geom r"
  shows "mpmc_pc_work r' pc = mpmc_pc_work r pc"
  by (cases pc) (simp_all add: want_geom [OF assms])

lemma mpmc_pc_progress:
  "\<not> m_idle pc \<Longrightarrow> mpmc_pc_step t r pc = (r', pc', e) \<Longrightarrow>
   mpmc_returned t e \<or> (\<not> m_idle pc' \<and> mpmc_pc_work r pc' < mpmc_pc_work r pc)"
  by (cases pc)
    (auto simp: mpmc_returned_def Let_def split: if_splits option.splits prod.splits)

lemma mpmc_other_step:
  assumes "\<not> m_idle (m_pcs s t)" "\<not> mpmc_own t a" "mpmc_step s a = (s', e)"
  shows "m_pcs s' t = m_pcs s t" "geom (m_ring s') = geom (m_ring s)"
  using assms
  by (cases "(s, a)" rule: mpmc_step.cases;
      auto simp: Let_def split: if_splits prod.splits dest: mpmc_pc_step_geom)+

interpretation mpmc_ops: bounded_operations mpmc_step "\<lambda>t s. \<not> m_idle (m_pcs s t)"
  "\<lambda>t s. mpmc_pc_work (m_ring s) (m_pcs s t)" mpmc_own mpmc_returned
proof (unfold_locales, goal_cases)
  case (1 t s a s' e)
  then have a: "a = MStep t" by (cases a) simp_all
  then obtain r pc where pc: "mpmc_pc_step t (m_ring s) (m_pcs s t) = (r, pc, e)"
    and s': "s' = s\<lparr>m_ring := r, m_pcs := (m_pcs s)(t := pc)\<rparr>"
    using 1(3) by (auto simp: Let_def split: prod.splits)
  then show ?case
    using mpmc_pc_progress [OF 1(1) pc] work_geom [OF mpmc_pc_step_geom [OF pc]] by simp
next
  case (2 t s a s' e)
  from mpmc_other_step(1) [OF 2] 2(1) work_geom [OF mpmc_other_step(2) [OF 2]] show ?case by simp
next
  case (3 t s)
  then show ?case by (cases "m_pcs s t") simp_all
qed (auto simp: mpmc_returned_def)

text \<open>C8: Every operation is wait-free: whatever the other threads do, and however many there
  are, a push of \<open>size\<close> bytes has returned, if only with an error, once its own thread has made
  \<open>size + 4\<close> accesses, and so has a pop; there are no retry loops to starve in.\<close>

theorem mpmc_wait_free:
  assumes "good_capacity n" "layout_fits n sz" "unat n < 2 ^ 63"
    and "r = init_ring r0 (get_total_size n sz MPMC_SLOT) n m fd MPMC_SLOT"
    and "exec mpmc_step (mpmc_start r) as = (s, h)" "m_pcs s t = MIdle"
    and "exec mpmc_step s (call # bs) = (s', e)" "length (reserved (h @ e)) + unat n < 2 ^ 63"
    and "call = MPush t args z \<and> k = unat z \<or> call = MPop t d \<and> k = want (m_ring s) d"
    and "k + 4 \<le> length (filter (mpmc_own t) bs)"
  shows "\<exists>rc. Ret t rc \<in> set e"
proof -
  have guard: "below_sign (unat n) (h @ e)" "below_sign (unat n) h"
    using assms(8) by (simp_all add: below_sign_def)
  have "mpmc_inv (unat n) h s" by (rule mpmc_fresh_inv [OF assms(1-5) guard(2)])
  from mpmc_conc.inv_exec [OF this assms(7) guard(1)] have ok: "Undefined \<notin> set e"
    by (simp add: mpmc_inv_def)
  obtain u e1 e2 where first: "mpmc_step s call = (u, e1)" and rest: "exec mpmc_step u bs = (s', e2)"
    and e: "e = e1 @ e2"
    using assms(7) by (auto simp: Let_def split: prod.splits)
  have "(\<exists>rc. Ret t rc \<in> set e1) \<or>
      (\<not> m_idle (m_pcs u t) \<and> mpmc_pc_work (m_ring u) (m_pcs u t) \<le> k + 4)"
    using first assms(6,9) by (cases d) (auto split: if_splits)
  then show ?thesis
  proof
    assume "\<not> m_idle (m_pcs u t) \<and> mpmc_pc_work (m_ring u) (m_pcs u t) \<le> k + 4"
    then have "mpmc_returned t e2"
      using mpmc_ops.returns_within_work [OF _ rest, of t] assms(10) by simp
    then show ?thesis using ok e by (auto simp: mpmc_returned_def)
  qed (auto simp: e)
qed

theorem mpmc_wait_free_witness:
  "(let e = snd (exec mpmc_step (mpmc_start (make_ring 2 8 MPMC_SLOT))
      (MPop 0 (ToBuf 1) # replicate 5 (MStep 0)))
    in \<exists>rc. Ret 0 rc \<in> set e)"
proof -
  let ?s = "mpmc_start (make_ring 2 8 MPMC_SLOT)"
  let ?x = "exec mpmc_step ?s (MPop 0 (ToBuf 1) # replicate 5 (MStep 0))"
  have cap: "good_capacity 2" "layout_fits 2 8" "unat (2::size_t) < 2 ^ 63"
    by (simp_all add: good_capacity_def layout_fits_def align_nat_def)
  have run: "exec mpmc_step ?s [] = (?s, [])" by simp
  have idle: "m_pcs ?s 0 = MIdle" by (simp add: mpmc_start_def)
  have res: "length (reserved ([] @ snd ?x)) = 0" by code_simp
  then have few: "length (reserved ([] @ snd ?x)) + unat (2::size_t) < 2 ^ 63" by (simp only: res) simp
  have "want (m_ring ?s) (ToBuf 1) + 4 \<le> length (filter (mpmc_own 0) (replicate 5 (MStep 0)))"
    by simp
  from mpmc_wait_free [OF cap make_ring_def run idle surjective_pairing few
      disjI2 [OF conjI [OF refl refl]] this]
  show ?thesis by (simp only: Let_def simp_thms)
qed


section \<open>An operation run alone\<close>

lemma mpmc_idle_steps: "m_pcs s t = MIdle \<Longrightarrow> exec mpmc_step s (replicate n (MStep t)) = (s, [])"
  by (induction n) (simp_all add: fun_upd_idem)

lemma mpmc_then_idle:
  assumes "exec mpmc_step s (replicate m (MStep t)) = (s', e)" "m \<le> n" "m_pcs s' t = MIdle"
  shows "exec mpmc_step s (replicate n (MStep t)) = (s', e)"
proof -
  have "replicate n (MStep t) = replicate m (MStep t) @ replicate (n - m) (MStep t)"
    using assms(2) by (simp flip: replicate_add)
  then show ?thesis using assms(1,3) by (simp add: exec_append mpmc_idle_steps)
qed

lemma mpmc_quiet_step:
  assumes "mpmc_pc_step t (m_ring s) (m_pcs s t) = (r, pc, [])"
  shows "exec mpmc_step s (replicate (Suc n) (MStep t)) =
    exec mpmc_step (s\<lparr>m_ring := r, m_pcs := (m_pcs s)(t := pc)\<rparr>) (replicate n (MStep t))"
  using assms by simp

lemma mpmc_push_copy_alone:
  assumes "m_pcs s t = PushCopy args sz eh i" "i \<le> unat sz" "m_ring s = memcpy_in r a args i"
    and "a = GET_BUFFER r (eh AND r_mask r)"
  shows "exec mpmc_step s (replicate (unat sz - i + 1) (MStep t)) =
    (s\<lparr>m_ring := store_slot (memcpy_in r a args (unat sz)) (eh AND r_mask r) (eh + 1),
       m_pcs := (m_pcs s)(t := MIdle)\<rparr>, [Ret t (ssize_of eh)])"
  using assms(1-3)
proof (induction "unat sz - i" arbitrary: i s)
  case 0
  then show ?case by (simp add: fun_upd_def)
next
  case (Suc d)
  let ?s = "s\<lparr>m_ring := memcpy_in r a args (Suc i), m_pcs := (m_pcs s)(t := PushCopy args sz eh (Suc i))\<rparr>"
  have "mpmc_pc_step t (m_ring s) (m_pcs s t) =
      (memcpy_in r a args (Suc i), PushCopy args sz eh (Suc i), [])"
    using Suc.prems Suc.hyps(2) assms(4) by (simp add: Let_def)
  from mpmc_quiet_step [OF this, of "unat sz - Suc i + 1"]
  have "exec mpmc_step s (replicate (unat sz - i + 1) (MStep t)) =
      exec mpmc_step ?s (replicate (unat sz - Suc i + 1) (MStep t))"
    using Suc.hyps(2) by (simp add: Suc_diff_Suc del: replicate_Suc exec.simps)
  also have "\<dots> = (?s\<lparr>m_ring := store_slot (memcpy_in r a args (unat sz)) (eh AND r_mask r) (eh + 1),
       m_pcs := (m_pcs ?s)(t := MIdle)\<rparr>, [Ret t (ssize_of eh)])"
    by (rule Suc.hyps(1)) (use Suc.prems Suc.hyps(2) in simp_all)
  finally show ?case by simp
qed

lemma mpmc_pop_copy_alone:
  assumes "m_pcs s t = PopCopy d et (memcpy_out (m_ring s) a i)" "i \<le> want (m_ring s) d"
    and "a = GET_BUFFER (m_ring s) (et AND r_mask (m_ring s))"
  shows "exec mpmc_step s (replicate (want (m_ring s) d - i + 1) (MStep t)) =
    (s\<lparr>m_ring := store_slot (m_ring s) (et AND r_mask (m_ring s)) (et + r_objNum (m_ring s)),
       m_pcs := (m_pcs s)(t := MIdle)\<rparr>,
     [Deliver t et (memcpy_out (m_ring s) a (want (m_ring s) d)),
      Ret t (answer d et (memcpy_out (m_ring s) a (want (m_ring s) d)))])"
  using assms
proof (induction "want (m_ring s) d - i" arbitrary: i s)
  case 0
  then show ?case by (simp add: fun_upd_def)
next
  case (Suc n)
  let ?r = "m_ring s"
  let ?s = "s\<lparr>m_ring := ?r, m_pcs := (m_pcs s)(t := PopCopy d et (memcpy_out ?r a (Suc i)))\<rparr>"
  have "mpmc_pc_step t ?r (m_pcs s t) = (?r, PopCopy d et (memcpy_out ?r a (Suc i)), [])"
    using Suc.prems Suc.hyps(2) by (simp add: memcpy_out_def Let_def)
  from mpmc_quiet_step [OF this, of "want ?r d - Suc i + 1"]
  have "exec mpmc_step s (replicate (want ?r d - i + 1) (MStep t)) =
      exec mpmc_step ?s (replicate (want ?r d - Suc i + 1) (MStep t))"
    using Suc.hyps(2) by (simp add: Suc_diff_Suc del: replicate_Suc exec.simps)
  also have "\<dots> = (?s\<lparr>m_ring := store_slot (m_ring ?s) (et AND r_mask (m_ring ?s)) (et + r_objNum (m_ring ?s)),
       m_pcs := (m_pcs ?s)(t := MIdle)\<rparr>,
     [Deliver t et (memcpy_out (m_ring ?s) a (want (m_ring ?s) d)),
      Ret t (answer d et (memcpy_out (m_ring ?s) a (want (m_ring ?s) d)))])"
    using Suc.hyps(1) [of ?s "Suc i"] Suc.prems Suc.hyps(2)
    by (simp del: replicate_Suc exec.simps mpmc_step.simps)
  finally show ?case by simp
qed


text \<open>
  The three operations, run alone. \<open>Undefined\<close> never arises here since the sequential
  operation has a result.
\<close>

lemma mpmc_push_alone:
  assumes pc: "m_pcs s t = MIdle" and push: "Push_MpmcRingBuf (m_ring s) args sz = Some (rc, r')"
  shows "\<exists>e. exec mpmc_step s (MPush t args sz # replicate (unat sz + 4) (MStep t)) =
    (s\<lparr>m_ring := r'\<rparr>, e @ [Ret t rc])"
proof (cases "r_objSize (m_ring s) < sz")
  case True
  then show ?thesis using pc push by (simp add: Push_MpmcRingBuf_def mpmc_idle_steps)
next
  case False
  let ?r = "m_ring s" and ?u = "\<lambda>pc. (m_pcs s)(t := pc)"
  let ?h = "r_head ?r"
  let ?i = "?h AND r_mask ?r"
  obtain dif where dif: "intptr_diff (load_slot ?r ?i) ?h = Some dif"
    using push False by (auto simp: Push_MpmcRingBuf_def Let_def split: option.splits)
  have idle: "s\<lparr>m_ring := q, m_pcs := ?u MIdle\<rparr> = s\<lparr>m_ring := q\<rparr>" for q
    using pc by (simp add: fun_upd_idem)
  let ?n = "unat sz"
  have call: "exec mpmc_step s (MPush t args sz # replicate (?n + 4) (MStep t)) =
      exec mpmc_step (s\<lparr>m_ring := ?r, m_pcs := ?u (PushHead args sz)\<rparr>) (replicate (?n + 4) (MStep t))"
    using False pc by (simp del: replicate_Suc)
  also have "\<dots> = exec mpmc_step (s\<lparr>m_ring := ?r, m_pcs := ?u (PushSeq args sz ?h)\<rparr>) (replicate (?n + 3) (MStep t))"
    using mpmc_quiet_step [of t "s\<lparr>m_ring := ?r, m_pcs := ?u (PushHead args sz)\<rparr>" ?r "PushSeq args sz ?h" "?n + 3"]
    by (simp add: eval_nat_numeral del: replicate_Suc exec.simps)
  finally have seq: "exec mpmc_step s (MPush t args sz # replicate (?n + 4) (MStep t)) =
      exec mpmc_step (s\<lparr>m_ring := ?r, m_pcs := ?u (PushSeq args sz ?h)\<rparr>) (replicate (?n + 3) (MStep t))" .
  show ?thesis
  proof (cases "dif = 0")
    case nz: False
    let ?rc = "if 0 < dif then RINGBUF_CONTENTION else RINGBUF_FULL"
    have "exec mpmc_step (s\<lparr>m_ring := ?r, m_pcs := ?u (PushSeq args sz ?h)\<rparr>) (replicate 1 (MStep t)) =
        (s\<lparr>m_ring := ?r\<rparr>, [Ret t ?rc])"
      using dif nz pc by (simp add: fun_upd_idem)
    then have "exec mpmc_step (s\<lparr>m_ring := ?r, m_pcs := ?u (PushSeq args sz ?h)\<rparr>) (replicate (?n + 3) (MStep t)) =
        (s\<lparr>m_ring := ?r\<rparr>, [Ret t ?rc])"
      by (rule mpmc_then_idle) (simp_all add: pc)
    moreover have "rc = ?rc" "r' = ?r"
      using push False dif nz by (auto simp: Push_MpmcRingBuf_def Let_def split: if_splits)
    ultimately show ?thesis using seq by simp
  next
    case z: True
    let ?r1 = "?r\<lparr>r_head := ?h + 1\<rparr>" and ?v = "[Reserve (map args [0..<?n])]"
    let ?s2 = "s\<lparr>m_ring := ?r, m_pcs := ?u (PushCas args sz ?h)\<rparr>"
    let ?s3 = "s\<lparr>m_ring := ?r1, m_pcs := ?u (PushCopy args sz ?h 0)\<rparr>"
    let ?r' = "store_slot (memcpy_in ?r1 (GET_BUFFER ?r1 ?i) args ?n) ?i (?h + 1)"
    have "exec mpmc_step (s\<lparr>m_ring := ?r, m_pcs := ?u (PushSeq args sz ?h)\<rparr>) (replicate (?n + 3) (MStep t)) =
        exec mpmc_step ?s2 (replicate (?n + 2) (MStep t))"
      using mpmc_quiet_step [of t "s\<lparr>m_ring := ?r, m_pcs := ?u (PushSeq args sz ?h)\<rparr>" ?r
          "PushCas args sz ?h" "?n + 2"] dif z
      by (simp add: eval_nat_numeral del: replicate_Suc exec.simps)
    moreover have "mpmc_step ?s2 (MStep t) = (?s3, ?v)" by (simp add: cas_head_def)
    then have "exec mpmc_step ?s2 (replicate (?n + 2) (MStep t)) =
        (let (s', e) = exec mpmc_step ?s3 (replicate (?n + 1) (MStep t)) in (s', ?v @ e))"
      by (simp add: eval_nat_numeral del: mpmc_step.simps)
    moreover have "exec mpmc_step ?s3 (replicate (?n + 1) (MStep t)) =
        (s\<lparr>m_ring := ?r'\<rparr>, [Ret t (ssize_of ?h)])"
      using mpmc_push_copy_alone [of ?s3 t args sz ?h 0 ?r1 "GET_BUFFER ?r1 ?i"] idle
      by (simp del: replicate_Suc exec.simps mpmc_step.simps)
    moreover have "rc = ssize_of ?h" "r' = ?r'"
      using push False dif z by (simp_all add: Push_MpmcRingBuf_def Let_def cas_head_def)
    ultimately show ?thesis using seq by (simp del: exec.simps replicate_Suc)
  qed
qed


text \<open>What a pop for destination \<open>d\<close> does in the sequential model, past the size check.\<close>

definition pop_to :: "ring \<Rightarrow> dest \<Rightarrow> (int \<times> byte list option \<times> ring) option" where
  "pop_to r d =
     (let idx = r_tail r AND r_mask r in
      case intptr_diff (load_slot r idx) (r_tail r + 1) of
        None \<Rightarrow> None
      | Some dif \<Rightarrow>
          if 0 < dif then Some (RINGBUF_CONTENTION, None, r)
          else if dif < 0 then Some (RINGBUF_EMPTY, None, r)
          else let buf = memcpy_out r (GET_BUFFER r idx) (want r d)
               in Some (answer d (r_tail r) buf, Some buf,
                    store_slot (r\<lparr>r_tail := r_tail r + 1\<rparr>) idx (r_tail r + r_objNum r)))"

lemma memcpy_out_tail [simp]: "memcpy_out (r\<lparr>r_tail := q\<rparr>) a n = memcpy_out r a n"
  by (simp add: memcpy_out_def)

lemma Pop_Mpmc_pop_to: "\<not> r_objSize r < sz \<Longrightarrow> Pop_MpmcRingBuf r sz = pop_to r (ToBuf sz)"
  by (simp add: Pop_MpmcRingBuf_def pop_to_def Let_def cas_tail_def split: option.split)

lemma Pop_w_cb_Mpmc_pop_to:
  "Pop_w_cb_MpmcRingBuf r (\<lambda>b _. (cb b, ())) () =
     map_option (\<lambda>(rc, buf, r'). (rc, (), r')) (pop_to r (ToCb cb))"
  by (simp add: Pop_w_cb_MpmcRingBuf_def pop_to_def Let_def cas_tail_def osz_def split: option.split)

lemma mpmc_pop_alone:
  assumes pc: "m_pcs s t = MIdle" and pop: "pop_to (m_ring s) d = Some (rc, buf, r')"
  shows "exec mpmc_step (s\<lparr>m_pcs := (m_pcs s)(t := PopTail d)\<rparr>) (replicate (want (m_ring s) d + 4) (MStep t)) =
    (s\<lparr>m_ring := r'\<rparr>,
     (case buf of None \<Rightarrow> [] | Some b \<Rightarrow> [Claim, Deliver t (r_tail (m_ring s)) b]) @ [Ret t rc])"
proof -
  let ?r = "m_ring s" and ?u = "\<lambda>pc. (m_pcs s)(t := pc)"
  let ?q = "r_tail ?r" and ?n = "want (m_ring s) d"
  let ?i = "?q AND r_mask ?r"
  obtain dif where dif: "intptr_diff (load_slot ?r ?i) (?q + 1) = Some dif"
    using pop by (auto simp: pop_to_def Let_def split: option.splits)
  have idle: "s\<lparr>m_ring := x, m_pcs := ?u MIdle\<rparr> = s\<lparr>m_ring := x\<rparr>" for x
    using pc by (simp add: fun_upd_idem)
  let ?s1 = "s\<lparr>m_ring := ?r, m_pcs := ?u (PopSeq d ?q)\<rparr>"
  have seq: "exec mpmc_step (s\<lparr>m_pcs := ?u (PopTail d)\<rparr>) (replicate (?n + 4) (MStep t)) =
      exec mpmc_step ?s1 (replicate (?n + 3) (MStep t))"
    using mpmc_quiet_step [of t "s\<lparr>m_pcs := ?u (PopTail d)\<rparr>" ?r "PopSeq d ?q" "?n + 3"]
    by (simp add: eval_nat_numeral del: replicate_Suc exec.simps)
  show ?thesis
  proof (cases "dif = 0")
    case nz: False
    let ?rc = "if 0 < dif then RINGBUF_CONTENTION else RINGBUF_EMPTY"
    have "exec mpmc_step ?s1 (replicate 1 (MStep t)) = (s\<lparr>m_ring := ?r\<rparr>, [Ret t ?rc])"
      using dif nz pc by (simp add: fun_upd_idem)
    then have "exec mpmc_step ?s1 (replicate (?n + 3) (MStep t)) = (s\<lparr>m_ring := ?r\<rparr>, [Ret t ?rc])"
      by (rule mpmc_then_idle) (simp_all add: pc)
    moreover have "rc = ?rc" "r' = ?r" "buf = None"
      using pop dif nz by (auto simp: pop_to_def Let_def split: if_splits)
    ultimately show ?thesis using seq by (simp del: exec.simps replicate_Suc)
  next
    case z: True
    let ?r1 = "?r\<lparr>r_tail := ?q + 1\<rparr>"
    let ?s2 = "s\<lparr>m_ring := ?r, m_pcs := ?u (PopCas d ?q)\<rparr>"
    let ?s3 = "s\<lparr>m_ring := ?r1, m_pcs := ?u (PopCopy d ?q [])\<rparr>"
    let ?r' = "store_slot ?r1 ?i (?q + r_objNum ?r)"
    let ?b = "memcpy_out ?r (GET_BUFFER ?r ?i) ?n"
    have want: "want ?r1 d = ?n" by (cases d) simp_all
    have "exec mpmc_step ?s1 (replicate (?n + 3) (MStep t)) =
        exec mpmc_step ?s2 (replicate (?n + 2) (MStep t))"
      using mpmc_quiet_step [of t ?s1 ?r "PopCas d ?q" "?n + 2"] dif z
      by (simp add: eval_nat_numeral del: replicate_Suc exec.simps)
    moreover have "mpmc_step ?s2 (MStep t) = (?s3, [Claim])" by (simp add: cas_tail_def)
    then have "exec mpmc_step ?s2 (replicate (?n + 2) (MStep t)) =
        (let (s', e) = exec mpmc_step ?s3 (replicate (?n + 1) (MStep t)) in (s', [Claim] @ e))"
      by (simp add: eval_nat_numeral del: mpmc_step.simps)
    moreover have "exec mpmc_step ?s3 (replicate (?n + 1) (MStep t)) =
        (s\<lparr>m_ring := ?r'\<rparr>, [Deliver t ?q ?b, Ret t (answer d ?q ?b)])"
    proof -
      have "exec mpmc_step ?s3 (replicate (want (m_ring ?s3) d - 0 + 1) (MStep t)) =
        (?s3\<lparr>m_ring := store_slot (m_ring ?s3) (?q AND r_mask (m_ring ?s3)) (?q + r_objNum (m_ring ?s3)),
           m_pcs := (m_pcs ?s3)(t := MIdle)\<rparr>,
         [Deliver t ?q (memcpy_out (m_ring ?s3) (GET_BUFFER ?r ?i) (want (m_ring ?s3) d)),
          Ret t (answer d ?q (memcpy_out (m_ring ?s3) (GET_BUFFER ?r ?i) (want (m_ring ?s3) d)))])"
        by (rule mpmc_pop_copy_alone) (simp_all add: memcpy_out_0)
      then show ?thesis using idle by (simp add: want del: replicate_Suc exec.simps mpmc_step.simps)
    qed
    moreover have "rc = answer d ?q ?b" "r' = ?r'" "buf = Some ?b"
      using pop dif z by (simp_all add: pop_to_def Let_def)
    ultimately show ?thesis using seq by (simp del: exec.simps replicate_Suc)
  qed
qed

text \<open>C31: The interleaving model is the sequential one cut into its accesses: an operation whose
  thread runs undisturbed leaves exactly the ring, and returns exactly the code, of
  \<^verbatim>\<open>Push_MpmcRingBuf\<close>, \<^verbatim>\<open>Pop_MpmcRingBuf\<close> or \<^verbatim>\<open>Pop_w_cb_MpmcRingBuf\<close>.\<close>

theorem mpmc_steps_implement:
  assumes "m_pcs s t = MIdle"
    and "Push_MpmcRingBuf (m_ring s) args sz = Some (prc, pr)"
    and "Pop_MpmcRingBuf (m_ring s) sz = Some (crc, buf, cr)"
    and "Pop_w_cb_MpmcRingBuf (m_ring s) (\<lambda>b _. (cb b, ())) () = Some (wrc, u, wr)"
  shows "(\<exists>e. exec mpmc_step s (MPush t args sz # replicate (unat sz + 4) (MStep t)) =
      (s\<lparr>m_ring := pr\<rparr>, e @ [Ret t prc])) \<and>
    (\<exists>e. exec mpmc_step s (MPop t (ToBuf sz) # replicate (unat sz + 4) (MStep t)) =
      (s\<lparr>m_ring := cr\<rparr>, e @ [Ret t crc]) \<and>
      (\<forall>b. buf = Some b \<longrightarrow> Deliver t (r_tail (m_ring s)) b \<in> set e)) \<and>
    (\<exists>e. exec mpmc_step s (MPop t (ToCb cb) # replicate (osz (m_ring s) + 4) (MStep t)) =
      (s\<lparr>m_ring := wr\<rparr>, e @ [Ret t wrc]))"
proof (intro conjI)
  show "\<exists>e. exec mpmc_step s (MPush t args sz # replicate (unat sz + 4) (MStep t)) =
      (s\<lparr>m_ring := pr\<rparr>, e @ [Ret t prc])"
    by (rule mpmc_push_alone [OF assms(1,2)])
  show "\<exists>e. exec mpmc_step s (MPop t (ToBuf sz) # replicate (unat sz + 4) (MStep t)) =
      (s\<lparr>m_ring := cr\<rparr>, e @ [Ret t crc]) \<and>
      (\<forall>b. buf = Some b \<longrightarrow> Deliver t (r_tail (m_ring s)) b \<in> set e)"
  proof (cases "r_objSize (m_ring s) < sz")
    case True
    then show ?thesis using assms(1,3) by (simp add: Pop_MpmcRingBuf_def mpmc_idle_steps)
  next
    case False
    note alone = mpmc_pop_alone [OF assms(1), of "ToBuf sz" crc buf cr]
    show ?thesis
      using alone assms(1,3) False
      by (cases buf) (simp_all add: Pop_Mpmc_pop_to del: replicate_Suc)
  qed
  obtain wbuf where "pop_to (m_ring s) (ToCb cb) = Some (wrc, wbuf, wr)"
    using assms(4) [unfolded Pop_w_cb_Mpmc_pop_to] by auto
  from mpmc_pop_alone [OF assms(1) this] assms(1)
  show "\<exists>e. exec mpmc_step s (MPop t (ToCb cb) # replicate (osz (m_ring s) + 4) (MStep t)) =
      (s\<lparr>m_ring := wr\<rparr>, e @ [Ret t wrc])"
    by (simp del: replicate_Suc)
qed


theorem mpmc_steps_implement_witness:
  "\<exists>s' e. exec mpmc_step (mpmc_start (make_ring 2 8 MPMC_SLOT)) (MPop 0 (ToBuf 1) # replicate 5 (MStep 0)) =
     (s', e @ [Ret 0 RINGBUF_EMPTY])"
proof -
  let ?r = "make_ring 2 8 MPMC_SLOT"
  have r: "m_ring (mpmc_start ?r) = ?r" and idle: "m_pcs (mpmc_start ?r) 0 = MIdle"
    by (simp_all add: mpmc_start_def)
  have "Push_MpmcRingBuf ?r (\<lambda>i. 0) 1 \<noteq> None" by code_simp
  then obtain prc pr where push: "Push_MpmcRingBuf ?r (\<lambda>i. 0) 1 = Some (prc, pr)" by auto
  have "map_option fst (Pop_MpmcRingBuf ?r 1) = Some RINGBUF_EMPTY" by code_simp
  then obtain buf cr where pop: "Pop_MpmcRingBuf ?r 1 = Some (RINGBUF_EMPTY, buf, cr)" by auto
  have "Pop_w_cb_MpmcRingBuf ?r (\<lambda>b _. (0, ())) () \<noteq> None" by code_simp
  then obtain wrc u wr where cb: "Pop_w_cb_MpmcRingBuf ?r (\<lambda>b _. (0, ())) () = Some (wrc, u, wr)"
    by auto
  from mpmc_steps_implement [of "mpmc_start ?r" 0 "\<lambda>i. 0" 1 prc pr RINGBUF_EMPTY buf cr "\<lambda>_. 0" wrc u wr]
  show ?thesis using idle push pop cb by (simp add: r del: exec.simps replicate_Suc) metis
qed

end
