(* ===== verification/RB_Mpmc_Lin.thy ===== *)
theory RB_Mpmc_Lin
  imports RB_Mpmc_Conc
begin

text \<open>
  The successful operations of the MPMC ring are those of one bounded queue. A pop takes its place
  in the queue's order when it obtains its ticket, before it has read a byte, so the object it will
  hand out is looked up in the rest of the history.
\<close>

section \<open>Histories as queue histories\<close>

text \<open>What the pop with ticket \<open>k\<close> handed out; a pop still copying counts with the object pushed.\<close>

definition received :: "mpmc_event list \<Rightarrow> nat \<Rightarrow> byte list" where
  "received h k =
     (case filter (\<lambda>(t, w, b). unat w = k) (delivered h) of
        [] \<Rightarrow> reserved h ! k
      | (t, w, b) # _ \<Rightarrow> b)"

text \<open>\<open>k\<close> is the number of tickets already taken by pops.\<close>

fun mpmc_queue :: "(nat \<Rightarrow> byte list) \<Rightarrow> nat \<Rightarrow> mpmc_event list \<Rightarrow> queue_event list" where
  "mpmc_queue D k [] = []"
| "mpmc_queue D k (Reserve v # es) = Enqueue v # mpmc_queue D k es"
| "mpmc_queue D k (Claim # es) = Dequeue (D k) # mpmc_queue D (Suc k) es"
| "mpmc_queue D k (_ # es) = mpmc_queue D k es"

lemma mpmc_queue_append: "mpmc_queue D k (h @ e) = mpmc_queue D k h @ mpmc_queue D (k + claims h) e"
  by (induction D k h rule: mpmc_queue.induct) simp_all

lemma mpmc_queue_sides [simp]:
  "enqueued (mpmc_queue D k h) = reserved h" "dequeued (mpmc_queue D k h) = map D [k..<k + claims h]"
  by (induction D k h rule: mpmc_queue.induct) (simp_all add: upt_rec)

lemma mpmc_queue_no_refusal [simp]:
  "Refuse_full \<notin> set (mpmc_queue D k h)" "Refuse_empty \<notin> set (mpmc_queue D k h)"
  by (induction D k h rule: mpmc_queue.induct) simp_all

lemma mpmc_pc_one_event: "mpmc_pc_step t r pc = (r', pc', e) \<Longrightarrow> length (mpmc_queue D k e) \<le> 1"
  by (cases pc) (auto simp: Let_def cas_head_def cas_tail_def split: if_splits option.splits)

lemma mpmc_one_event:
  assumes "mpmc_step s a = (s', e)"
  shows "length (mpmc_queue D k e) \<le> 1"
proof (cases a)
  case (MPop t d)
  then show ?thesis using assms by (cases d) (auto split: if_splits)
next
  case (MStep t)
  then obtain r' pc' where "mpmc_pc_step t (m_ring s) (m_pcs s t) = (r', pc', e)"
    using assms by (auto simp: Let_def split: prod.splits)
  then show ?thesis by (rule mpmc_pc_one_event)
qed (use assms in \<open>auto split: if_splits\<close>)

section \<open>They replay\<close>

definition agrees_with :: "(nat \<Rightarrow> byte list) \<Rightarrow> mpmc_event list \<Rightarrow> bool" where
  "agrees_with D h \<longleftrightarrow> (\<forall>k < claims h. agree (reserved h ! k) (D k))"

lemma mpmc_counts:
  assumes "mpmc_inv N h s" "agrees_with D h"
  shows "fifo_counts N (mpmc_queue D 0 h)"
proof -
  have "claims h \<le> length (reserved h)" "length (reserved h) \<le> claims h + N"
    using assms(1) by (auto simp: mpmc_inv_def mpmc_inv_at_def ring_inv_def)
  then show ?thesis using assms(2) by (auto simp: fifo_counts_def agrees_with_def list_all2_conv_all_nth)
qed

lemma agrees_prefix:
  assumes "agrees_with D (h @ e)" "mpmc_inv N h s"
  shows "agrees_with D h"
proof -
  have "claims h \<le> length (reserved h)"
    using assms(2) by (auto simp: mpmc_inv_def mpmc_inv_at_def ring_inv_def)
  then have same: "reserved (h @ e) ! k = reserved h ! k" if "k < claims h" for k using that by (simp add: nth_append)
  have "agree (reserved (h @ e) ! k) (D k)" if "k < claims h" for k
    using assms(1) that unfolding agrees_with_def by simp
  then show ?thesis using same unfolding agrees_with_def by metis
qed

lemma mpmc_explained:
  assumes "mpmc_inv N [] s0" "exec mpmc_step s0 as = (s, h)" "below_sign N h" "agrees_with D h"
  shows "explained N (mpmc_queue D 0 h)"
  using assms(2-4)
proof (induction as arbitrary: s h rule: rev_induct)
  case Nil
  then show ?case by simp
next
  case (snoc a as)
  obtain u h1 e where first: "exec mpmc_step s0 as = (u, h1)" and step: "mpmc_step u a = (s, e)"
    and h: "h = h1 @ e"
    using snoc.prems(1) by (auto simp: exec_append Let_def split: prod.splits)
  have guard: "below_sign N h1" using snoc.prems(2) by (simp add: h below_sign_def)
  note inv1 = mpmc_conc.inv_run [OF assms(1) first guard]
  note inv = mpmc_conc.inv_run [OF assms(1) snoc.prems(1,2)]
  have agr: "agrees_with D h1" using agrees_prefix [OF _ inv1] snoc.prems(3) h by blast
  have "explained N (mpmc_queue D 0 h1 @ mpmc_queue D (claims h1) e)"
    using mpmc_counts [OF inv snoc.prems(3)] mpmc_one_event [OF step]
    by (intro explained_step [OF snoc.IH [OF first guard agr] mpmc_counts [OF inv1 agr]])
      (simp_all add: h mpmc_queue_append)
  then show ?case by (simp add: h mpmc_queue_append)
qed

lemma received_agrees:
  assumes "mpmc_inv N h s"
  shows "agrees_with (received h) h"
  unfolding agrees_with_def
proof (intro allI impI)
  fix k assume "k < claims h"
  have ok: "agree (reserved h ! unat w) b" if "(t, w, b) \<in> set (delivered h)" for t w b
    using assms that by (auto simp: mpmc_inv_def mpmc_inv_at_def delivered_inv_def)
  show "agree (reserved h ! k) (received h k)"
  proof (cases "filter (\<lambda>(t, w, b). unat w = k) (delivered h)")
    case Nil
    then show ?thesis by (simp add: received_def agree_same_length)
  next
    case (Cons x xs)
    then have "x \<in> set (delivered h)" "(\<lambda>(t, w, b). unat w = k) x"
      by (metis filter_eq_ConsD in_set_conv_decomp)+
    then show ?thesis using ok Cons by (auto simp: received_def split: prod.splits)
  qed
qed

text \<open>A delivered object is what its ticket's pop received.\<close>

lemma received_delivered:
  assumes "distinct (map (fst \<circ> snd) (delivered h))" "(t, w, b) \<in> set (delivered h)"
  shows "received h (unat w) = b"
proof (cases "filter (\<lambda>(t, w', b). unat w' = unat w) (delivered h)")
  case Nil
  then show ?thesis using assms(2) by (auto simp: filter_empty_conv)
next
  case (Cons x xs)
  obtain t' w' b' where x: "x = (t', w', b')" by (cases x)
  have "x \<in> set (delivered h)" "unat w' = unat w"
    using arg_cong [OF Cons, of set] x by (auto simp: set_eq_iff)
  moreover have "inj_on (fst \<circ> snd) (set (delivered h))" using assms(1) by (simp add: distinct_map)
  moreover from calculation have "x = (t, w, b)"
    using assms(2) x by (intro inj_onD [of "fst \<circ> snd" "set (delivered h)" x]) (simp_all add: word_unat_eq_iff)
  ultimately show ?thesis using Cons x by (simp add: received_def)
qed

section \<open>Properties\<close>

text \<open>C3: The successful operations on an MPMC ring are linearizable. Under every schedule of any
  number of threads, below the sign bit, the pushes and pops so far are those of one bounded queue
  used by a single thread, each at the instant at which it obtained its ticket, that is, inside its
  call: the object each pop has handed out, or will hand out when it is still copying, is the one
  at the front of the queue at that instant, on all the bytes both calls moved.\<close>

theorem mpmc_linearizable:
  assumes "good_capacity n" "layout_fits n sz" "unat n < 2 ^ 63"
    and "r = init_ring r0 (get_total_size n sz MPMC_SLOT) n m fd MPMC_SLOT"
    and "exec mpmc_step (mpmc_start r) as = (s, h)" "length (reserved h) + unat n < 2 ^ 63"
  shows "queue_run (unat n) [] (mpmc_queue (received h) 0 h) = Some (drop (claims h) (reserved h)) \<and>
    (\<forall>(t, w, b) \<in> set (delivered h). unat w < claims h \<and> received h (unat w) = b)"
proof -
  have guard: "below_sign (unat n) h" using assms(6) by (simp add: below_sign_def)
  have start: "mpmc_inv (unat n) [] (mpmc_start r)"
    by (rule mpmc_fresh_inv [OF assms(1-4), of "[]"]) (use assms(6) in \<open>simp_all add: below_sign_def\<close>)
  have inv: "mpmc_inv (unat n) h s" by (rule mpmc_fresh_inv [OF assms(1-5) guard])
  then have once: "distinct (map (fst \<circ> snd) (delivered h))" "\<forall>(t, w, b) \<in> set (delivered h). unat w < claims h"
    by (auto simp: mpmc_inv_def mpmc_inv_at_def delivered_inv_def)
  show ?thesis
    using mpmc_explained [OF start assms(5) guard received_agrees [OF inv]] once received_delivered [OF once(1)]
    by (auto simp: explained_def)
qed

theorem mpmc_linearizable_witness:
  "(let h = snd (exec mpmc_step (mpmc_start (make_ring 2 8 MPMC_SLOT))
      ([MPush 0 (\<lambda>i. 5) 1, MPush 1 (\<lambda>i. 6) 1] @ replicate 5 (MStep 1) @ replicate 4 (MStep 0) @
       [MPop 2 (ToBuf 1)] @ replicate 3 (MStep 2)))
    in mpmc_queue (received h) 0 h = [Enqueue [6], Enqueue [5], Dequeue [6]] \<and>
       queue_run 2 [] (mpmc_queue (received h) 0 h) = Some [[5]])"
proof -
  let ?x = "exec mpmc_step (mpmc_start (make_ring 2 8 MPMC_SLOT))
      ([MPush 0 (\<lambda>i. 5) 1, MPush 1 (\<lambda>i. 6) 1] @ replicate 5 (MStep 1) @ replicate 4 (MStep 0) @
       [MPop 2 (ToBuf 1)] @ replicate 3 (MStep 2))"
  have cap: "good_capacity 2" "layout_fits 2 8" "unat (2::size_t) < 2 ^ 63"
    by (simp_all add: good_capacity_def layout_fits_def align_nat_def)
  have h: "reserved (snd ?x) = [[6], [5]]" "drop (claims (snd ?x)) (reserved (snd ?x)) = [[5]]"
    "mpmc_queue (received (snd ?x)) 0 (snd ?x) = [Enqueue [6], Enqueue [5], Dequeue [6]]"
    "unat (2 :: size_t) = 2"
    by code_simp+
  then have few: "length (reserved (snd ?x)) + unat (2::size_t) < 2 ^ 63" by (simp only: h) simp
  have "queue_run (unat (2::size_t)) [] (mpmc_queue (received (snd ?x)) 0 (snd ?x)) =
      Some (drop (claims (snd ?x)) (reserved (snd ?x)))"
    using mpmc_linearizable [OF cap make_ring_def surjective_pairing few] by blast
  then show ?thesis unfolding Let_def h(2,4) by (simp only: h(3) simp_thms)
qed

end
