(* ===== verification/RB_Alloc.thy ===== *)
theory RB_Alloc
  imports RB_Ring
begin

text \<open>
  Making and releasing rings: \<^verbatim>\<open>get_buf_malloc\<close>, \<^verbatim>\<open>get_buf_shm\<close>, \<^verbatim>\<open>get_buf\<close>,
  \<^verbatim>\<open>del_buf\<close>, \<^verbatim>\<open>get_block_buf\<close>, \<^verbatim>\<open>del_block_buf\<close> and the \<open>Get\<close> and \<open>Del\<close>
  entry points of \<^verbatim>\<open>RingBuf_common.c\<close> and of the four variants. The operating system is a
  parameter \<open>E\<close>: what each call answers, the \<open>errno\<close> a failing call leaves, the size of a
  file, and the memory a successful allocation or mapping gives. The calls made are recorded in
  order. \<open>None\<close> as a whole result is undefined behaviour, of which there is one source, the
  conversion of an out-of-range \<open>double\<close> when rounding to huge pages.
\<close>

section \<open>The operating system\<close>

datatype os_call =
  Malloc size_t | Free | Open string | Memfd_create | Ftruncate int size_t | Fstat int
| Mmap size_t c_int int | Munmap size_t | Close int
| Mutex_init bool | Cond_init nat bool | Mutex_destroy | Cond_destroy nat

record env =
  ret_of :: "os_call \<Rightarrow> int"
  errno_of :: "os_call \<Rightarrow> int"
  st_size :: "int \<Rightarrow> size_t"
  memory :: "os_call \<Rightarrow> ring option"
  mutex_size :: nat
  cond_size :: nat

text \<open>The thread's \<open>errno\<close> and the calls made so far.\<close>

record os =
  os_errno :: int
  os_calls :: "os_call list"

definition os_do :: "env \<Rightarrow> os_call \<Rightarrow> os \<Rightarrow> int \<times> os" where
  "os_do E c s =
     (ret_of E c,
      s\<lparr>os_errno := (if ret_of E c < 0 then errno_of E c else os_errno s), os_calls := os_calls s @ [c]\<rparr>)"

definition set_errno :: "int \<Rightarrow> os \<Rightarrow> os" where
  "set_errno e s = s\<lparr>os_errno := e\<rparr>"

text \<open>Constants of the Linux headers on x86-64.\<close>

definition ENOMEM :: int where "ENOMEM = 12"
definition MAP_SHARED :: c_int where "MAP_SHARED = 1"
definition MAP_PRIVATE :: c_int where "MAP_PRIVATE = 2"
definition MAP_HUGETLB :: c_int where "MAP_HUGETLB = push_bit 18 1"

lemmas mmap_flags = MAP_SHARED_def MAP_PRIVATE_def MAP_HUGETLB_def

section \<open>Rounding to huge pages\<close>

text \<open>
  \<open>(double) n\<close> as a natural number: 53 significant bits, rounded to the nearest, ties to even.
\<close>

fun bit_length :: "nat \<Rightarrow> nat" where
  "bit_length n = (if n = 0 then 0 else Suc (bit_length (n div 2)))"

declare bit_length.simps [simp del]

definition round_even :: "nat \<Rightarrow> nat \<Rightarrow> nat" where
  "round_even n u =
     (let q = n div u; rest = n mod u
      in if 2 * rest > u \<or> (2 * rest = u \<and> odd q) then (q + 1) * u else q * u)"

definition double_of :: "nat \<Rightarrow> nat" where
  "double_of n = (let b = bit_length n in if b \<le> 53 then n else round_even n (2 ^ (b - 53)))"

text \<open>
  \<open>ceil((double)totalSz / HUGEPAGE_SIZE) * HUGEPAGE_SIZE\<close>, converted back: the quotient by a
  power of two, its ceiling and the product are exact doubles.
\<close>

definition hugepage_round :: "size_t \<Rightarrow> size_t option" where
  "hugepage_round totalSz =
     (let x = align_nat (unat HUGEPAGE_SIZE) (double_of (unat totalSz))
      in if x < 2 ^ 64 then Some (of_nat x) else None)"

section \<open>Obtaining the memory\<close>

definition get_buf_malloc :: "env \<Rightarrow> size_t \<Rightarrow> int \<Rightarrow> os \<Rightarrow> ring option \<times> int \<times> os" where
  "get_buf_malloc E totalSz fd s =
     (let p = memory E (Malloc totalSz);
          s = s\<lparr>os_calls := os_calls s @ [Malloc totalSz]\<rparr>
      in if p = None then (None, fd, set_errno ENOMEM s) else (p, - 9999, s))"

text \<open>
  The middle part of \<^verbatim>\<open>get_buf_shm\<close>: a new object gets its size, the size of an existing one is
  checked. The result is whether that failed, which makes \<^verbatim>\<open>get_buf_shm\<close> return.
\<close>

definition size_shm :: "env \<Rightarrow> size_t \<Rightarrow> int \<Rightarrow> c_int \<Rightarrow> bool \<Rightarrow> os \<Rightarrow> bool \<times> os" where
  "size_shm E totalSz fd prot needNew s =
     (if needNew
      then let (rc, s) = os_do E (Ftruncate fd totalSz) s in (rc < 0, s)
      else if prot AND MAP_EXISTS \<noteq> 0
      then let (rc, s) = os_do E (Fstat fd) s
           in if rc = - 1 then (True, s)
              else if st_size E fd = 0 then (True, set_errno RINGBUF_MAPPING_NOT_EXISTS s)
              else if st_size E fd \<noteq> totalSz then (True, set_errno RINGBUF_MAPPING_SIZE_ERROR s)
              else (False, s)
      else (False, s))"

definition get_buf_shm ::
    "env \<Rightarrow> size_t \<Rightarrow> int \<Rightarrow> c_int \<Rightarrow> c_int \<Rightarrow> string option \<Rightarrow> bool \<Rightarrow> os \<Rightarrow>
     (ring option \<times> int \<times> os) option" where
  "get_buf_shm E totalSz fd prot flag shmPath needNew s =
     (if \<not> needNew \<and> shmPath = None then Some (None, fd, set_errno RINGBUF_INVALID_PARAM s)
      else
        case (if MAP_HUGETLB AND flag \<noteq> 0 then hugepage_round totalSz else Some totalSz) of
          None \<Rightarrow> None
        | Some totalSz \<Rightarrow>
            let (fd, s) = (case shmPath of
                             Some path \<Rightarrow> os_do E (Open path) s
                           | None \<Rightarrow> os_do E Memfd_create s)
            in if fd < 0 then Some (None, fd, s)
               else
                 let (failed, s) = size_shm E totalSz fd prot needNew s
                 in if failed then Some (None, fd, s)
                    else
                      let flag = (if flag AND MAP_SHARED = 0 \<and> flag AND MAP_PRIVATE = 0
                                  then flag OR MAP_SHARED else flag);
                          c = Mmap totalSz flag fd;
                          s = s\<lparr>os_calls := os_calls s @ [c]\<rparr>
                      in case memory E c of
                           None \<Rightarrow>
                             Some (None, fd, snd (os_do E (Close fd) (set_errno (errno_of E c) s)))
                         | Some p \<Rightarrow> Some (Some p, fd, s))"

text \<open>
  The part \<^verbatim>\<open>get_buf\<close> and \<^verbatim>\<open>get_block_buf\<close> have in common: the mapping type is checked and
  the memory obtained. The result adds \<open>useMalloc\<close> and \<open>needNew\<close>.
\<close>

definition obtain_memory ::
    "env \<Rightarrow> size_t \<Rightarrow> c_int \<Rightarrow> c_int \<Rightarrow> string option \<Rightarrow> os \<Rightarrow>
     (ring option \<times> int \<times> bool \<times> bool \<times> os) option" where
  "obtain_memory E totalSz prot flag shmPath s =
     (let fd = - 1 in
      if prot AND (MAP_MALLOC OR MAP_SHM) = 0
      then Some (None, fd, False, True, set_errno RINGBUF_NO_MAPPING_TYPE s)
      else
        let useMalloc = (prot AND (MAP_MALLOC OR MAP_SHM) = 0 \<or> prot AND MAP_MALLOC \<noteq> 0);
            useSHM = (\<not> useMalloc);
            needNew = True
        in if useMalloc
           then let (p, fd, s) = get_buf_malloc E totalSz fd s in Some (p, fd, useMalloc, needNew, s)
           else
             let needNew = (prot AND MAP_EXISTS = 0)
             in case get_buf_shm E totalSz fd prot flag shmPath needNew s of
                  None \<Rightarrow> None
                | Some (p, fd, s) \<Rightarrow> Some (p, fd, useMalloc, needNew, s))"

definition get_buf ::
    "env \<Rightarrow> size_t \<Rightarrow> size_t \<Rightarrow> string option \<Rightarrow> c_int \<Rightarrow> c_int \<Rightarrow> c_int \<Rightarrow> os \<Rightarrow>
     (ring option \<times> os) option" where
  "get_buf E objNum objSize shmPath prot flag useSlot s =
     (if objNum < 2 \<or> objNum AND (objNum - 1) \<noteq> 0
      then Some (None, set_errno RINGBUF_CAPACITY_WRONG s)
      else if useSlot AND (MPSC_SLOT OR MPMC_SLOT OR NO_SLOT) = 0
      then Some (None, set_errno RINGBUF_USE_SLOT_NA s)
      else
        let info = get_total_size objNum objSize useSlot
        in case obtain_memory E (total_size info) prot flag shmPath s of
             None \<Rightarrow> None
           | Some (None, fd, useMalloc, needNew, s) \<Rightarrow> Some (None, s)
           | Some (Some p, fd, useMalloc, needNew, s) \<Rightarrow>
               if needNew then Some (Some (init_ring p info objNum useMalloc fd useSlot), s)
               else Some (Some p, s))"

definition del_buf :: "env \<Rightarrow> ring option \<Rightarrow> os \<Rightarrow> os" where
  "del_buf E r s =
     (case r of
        None \<Rightarrow> s
      | Some r \<Rightarrow>
          if r_mapType r = MAP_SHM
          then snd (os_do E (Munmap (r_totalSize r)) (snd (os_do E (Close (r_fd r)) s)))
          else if r_mapType r = MAP_MALLOC then s\<lparr>os_calls := os_calls s @ [Free]\<rparr>
          else s)"

section \<open>The blocking ring\<close>

text \<open>
  \<^verbatim>\<open>BRingBuf_t\<close> has the fields of \<^verbatim>\<open>RingBuf_t\<close> but the two offsets; its \<open>buffer\<close> member
  starts at the end of the structure, which is what \<open>r_buffer_offset\<close> says here. The results of
  the \<open>pthread\<close> initialisers are error numbers, and \<open>errno\<close> is left alone.
\<close>

definition init_block ::
    "env \<Rightarrow> ring \<Rightarrow> size_t \<Rightarrow> size_t \<Rightarrow> size_t \<Rightarrow> bool \<Rightarrow> int \<Rightarrow> ring" where
  "init_block E p aligned totalSize objNum useMalloc fd =
     p\<lparr>r_head := 0, r_tail := 0, r_objSize := aligned, r_objNum := objNum, r_mask := objNum - 1,
       r_totalSize := totalSize, r_mapType := (if useMalloc then MAP_MALLOC else MAP_SHM),
       r_fd := fd, r_buffer_offset := of_nat (sizeof_BRingBuf (mutex_size E) (cond_size E))\<rparr>"

text \<open>
  The initialisation of the mutex and the two condition variables (0 is \<open>writeable\<close>, 1 is
  \<open>readable\<close>), shared between processes for shared memory: whether it succeeded.
\<close>

definition init_sync :: "env \<Rightarrow> bool \<Rightarrow> os \<Rightarrow> bool \<times> os" where
  "init_sync E shared s =
     (let (rc, s) = os_do E (Mutex_init shared) s
      in if rc \<noteq> 0 then (False, s)
         else
           let (rc, s) = os_do E (Cond_init 0 shared) s
           in if rc \<noteq> 0 then (False, snd (os_do E Mutex_destroy s))
              else
                let (rc, s) = os_do E (Cond_init 1 shared) s
                in if rc \<noteq> 0
                   then (False, snd (os_do E (Cond_destroy 0) (snd (os_do E Mutex_destroy s))))
                   else (True, s))"

definition get_block_buf ::
    "env \<Rightarrow> size_t \<Rightarrow> size_t \<Rightarrow> string option \<Rightarrow> c_int \<Rightarrow> c_int \<Rightarrow> os \<Rightarrow> (ring option \<times> os) option" where
  "get_block_buf E objNum objSize shmPath prot flag s =
     (if objNum < 2 \<or> objNum AND (objNum - 1) \<noteq> 0
      then Some (None, set_errno RINGBUF_CAPACITY_WRONG s)
      else
        let aligned = get_aligned_offset objSize CACHE_LINE_SIZE;
            totalSize = of_nat (sizeof_BRingBuf (mutex_size E) (cond_size E)) + aligned * objNum
        in case obtain_memory E totalSize prot flag shmPath s of
             None \<Rightarrow> None
           | Some (None, fd, useMalloc, needNew, s) \<Rightarrow> Some (None, s)
           | Some (Some p, fd, useMalloc, needNew, s) \<Rightarrow>
               if \<not> needNew then Some (Some p, s)
               else
                 let (success, s) = init_sync E (\<not> useMalloc) s
                 in if \<not> success then Some (None, s)
                    else Some (Some (init_block E p aligned totalSize objNum useMalloc fd), s))"

definition del_block_buf :: "env \<Rightarrow> ring option \<Rightarrow> os \<Rightarrow> os" where
  "del_block_buf E r s =
     (case r of
        None \<Rightarrow> s
      | Some r \<Rightarrow>
          let s = snd (os_do E Mutex_destroy s);
              s = snd (os_do E (Cond_destroy 0) s);
              s = snd (os_do E (Cond_destroy 1) s)
          in if r_mapType r = MAP_SHM
             then snd (os_do E (Munmap (r_totalSize r)) (snd (os_do E (Close (r_fd r)) s)))
             else if r_mapType r = MAP_MALLOC then s\<lparr>os_calls := os_calls s @ [Free]\<rparr>
             else s)"

section \<open>The entry points\<close>

definition Get_SpscRingBuf where
  "Get_SpscRingBuf E objNum objSize shmPath prot flag s =
     get_buf E objNum objSize shmPath prot flag NO_SLOT s"

definition Get_MpscRingBuf where
  "Get_MpscRingBuf E objNum objSize shmPath prot flag s =
     get_buf E objNum objSize shmPath prot flag MPSC_SLOT s"

definition Get_MpmcRingBuf where
  "Get_MpmcRingBuf E objNum objSize shmPath prot flag s =
     get_buf E objNum objSize shmPath prot flag MPMC_SLOT s"

definition Get_BlockRingBuf where
  "Get_BlockRingBuf E objNum objSize shmPath prot flag s =
     get_block_buf E objNum objSize shmPath prot flag s"

definition Del_SpscRingBuf :: "env \<Rightarrow> ring option \<Rightarrow> os \<Rightarrow> os" where "Del_SpscRingBuf E p s = del_buf E p s"
definition Del_MpscRingBuf :: "env \<Rightarrow> ring option \<Rightarrow> os \<Rightarrow> os" where "Del_MpscRingBuf E p s = del_buf E p s"
definition Del_MpmcRingBuf :: "env \<Rightarrow> ring option \<Rightarrow> os \<Rightarrow> os" where "Del_MpmcRingBuf E p s = del_buf E p s"
definition Del_BlockRingBuf :: "env \<Rightarrow> ring option \<Rightarrow> os \<Rightarrow> os" where
  "Del_BlockRingBuf E p s = del_block_buf E p s"

text \<open>
  The variants that return the error: \<open>out\<close> says whether the caller's pointer is not null; the
  result is the code, what was stored through the pointer, and the state.
\<close>

definition with_code :: "(ring option \<times> os) option \<Rightarrow> (int \<times> ring option \<times> os) option" where
  "with_code x =
     (case x of
        None \<Rightarrow> None
      | Some (None, s) \<Rightarrow> Some (os_errno s, None, s)
      | Some (Some r, s) \<Rightarrow> Some (RINGBUF_SUCCESS, Some r, s))"

definition Get_SpscRingBuf_e where
  "Get_SpscRingBuf_e E out objNum objSize shmPath prot flag s =
     (if \<not> out then Some (RINGBUF_INVALID_PARAM, None, s)
      else with_code (get_buf E objNum objSize shmPath prot flag NO_SLOT s))"

definition Get_MpscRingBuf_e where
  "Get_MpscRingBuf_e E out objNum objSize shmPath prot flag s =
     (if \<not> out then Some (RINGBUF_INVALID_PARAM, None, s)
      else with_code (get_buf E objNum objSize shmPath prot flag MPSC_SLOT s))"

definition Get_MpmcRingBuf_e where
  "Get_MpmcRingBuf_e E out objNum objSize shmPath prot flag s =
     (if \<not> out then Some (RINGBUF_INVALID_PARAM, None, s)
      else with_code (get_buf E objNum objSize shmPath prot flag MPMC_SLOT s))"

definition Get_BlockRingBuf_e where
  "Get_BlockRingBuf_e E out objNum objSize shmPath prot flag s =
     (if \<not> out then Some (RINGBUF_INVALID_PARAM, None, s)
      else with_code (get_block_buf E objNum objSize shmPath prot flag s))"


section \<open>What is accepted, and what is asked for\<close>

lemma capacity_accepted_iff:
  "\<not> (n < 2 \<or> n AND (n - 1) \<noteq> 0) \<longleftrightarrow> good_capacity n"
  by (auto simp: good_capacity_def not_less)

lemma good_capacity_iff:
  "good_capacity n \<longleftrightarrow> (\<exists>p. 1 \<le> p \<and> p < 64 \<and> unat n = 2 ^ p)"
proof
  assume good: "good_capacity n"
  then have two: "2 \<le> unat n" by (simp add: good_capacity_def unat_le_iff)
  then have "n \<noteq> 0" by auto
  with good obtain p where p: "p < 64" "unat n = 2 ^ p"
    using word_and_pred_eq_0_iff by (auto simp: good_capacity_def)
  with two have "1 \<le> p" by (cases p) auto
  with p show "\<exists>p. 1 \<le> p \<and> p < 64 \<and> unat n = 2 ^ p" by blast
next
  assume "\<exists>p. 1 \<le> p \<and> p < 64 \<and> unat n = 2 ^ p"
  then obtain p where p: "1 \<le> p" "p < 64" "unat n = 2 ^ p" by blast
  have "2 \<le> unat n" using p(1,3) power_increasing [of 1 p "2::nat"] by simp
  moreover have "n \<noteq> 0" using calculation by auto
  ultimately show "good_capacity n"
    using p word_and_pred_eq_0_iff [of n] by (auto simp: good_capacity_def unat_le_iff)
qed

lemma get_buf_malloc_eq:
  "get_buf_malloc E n fd s =
    (case memory E (Malloc n) of
       None \<Rightarrow> (None, fd, s\<lparr>os_errno := ENOMEM, os_calls := os_calls s @ [Malloc n]\<rparr>)
     | Some p \<Rightarrow> (Some p, - 9999, s\<lparr>os_calls := os_calls s @ [Malloc n]\<rparr>))"
  by (simp add: get_buf_malloc_def Let_def set_errno_def split: option.split)

lemma obtain_memory_malloc:
  assumes "prot AND MAP_MALLOC \<noteq> 0"
  shows "obtain_memory E n prot flag path s =
    (case get_buf_malloc E n (- 1) s of (p, fd, s') \<Rightarrow> Some (p, fd, True, True, s'))"
proof -
  have "prot AND (MAP_MALLOC OR MAP_SHM) \<noteq> 0"
    using assms by (auto simp: bit_eq_iff bit_simps)
  then show ?thesis using assms by (simp add: obtain_memory_def Let_def)
qed

lemma obtain_memory_shm:
  assumes "prot AND MAP_MALLOC = 0" "prot AND MAP_SHM \<noteq> 0"
  shows "obtain_memory E n prot flag path s =
    (case get_buf_shm E n (- 1) prot flag path (prot AND MAP_EXISTS = 0) s of
       None \<Rightarrow> None
     | Some (p, fd, s') \<Rightarrow> Some (p, fd, False, prot AND MAP_EXISTS = 0, s'))"
proof -
  have "prot AND (MAP_MALLOC OR MAP_SHM) \<noteq> 0"
    using assms(2) by (auto simp: bit_eq_iff bit_simps)
  then show ?thesis using assms(1) by (simp add: obtain_memory_def Let_def)
qed

lemma get_buf_bad_capacity:
  "n < 2 \<or> n AND (n - 1) \<noteq> 0 \<Longrightarrow>
    get_buf E n sz path prot flag u s = Some (None, set_errno RINGBUF_CAPACITY_WRONG s)"
  unfolding get_buf_def by (simp only: if_P)

lemma get_buf_bad_slot_mode:
  "\<not> (n < 2 \<or> n AND (n - 1) \<noteq> 0) \<Longrightarrow> u AND (MPSC_SLOT OR MPMC_SLOT OR NO_SLOT) = 0 \<Longrightarrow>
    get_buf E n sz path prot flag u s = Some (None, set_errno RINGBUF_USE_SLOT_NA s)"
  unfolding get_buf_def by (simp only: if_P if_not_P if_False)

text \<open>A ring that \<^verbatim>\<open>get_buf\<close> returns is the memory obtained, initialised if it is new.\<close>

lemma get_buf_obtained:
  assumes "get_buf E n sz path prot flag u s = Some (Some r, s')"
  shows "\<exists>p fd useMalloc needNew.
    obtain_memory E (total_size (get_total_size n sz u)) prot flag path s =
      Some (Some p, fd, useMalloc, needNew, s') \<and>
    r = (if needNew then init_ring p (get_total_size n sz u) n useMalloc fd u else p)"
proof -
  let ?info = "get_total_size n sz u"
  have cap: "\<not> (n < 2 \<or> n AND (n - 1) \<noteq> 0)"
    using assms get_buf_bad_capacity by (metis not_None_eq option.inject prod.inject)
  have mode: "\<not> u AND (MPSC_SLOT OR MPMC_SLOT OR NO_SLOT) = 0"
    using assms get_buf_bad_slot_mode [OF cap] by (metis not_None_eq option.inject prod.inject)
  note eq = assms [unfolded get_buf_def Let_def if_not_P [OF cap] if_not_P [OF mode]]
  show ?thesis
  proof (cases "obtain_memory E (total_size ?info) prot flag path s")
    case None
    with eq show ?thesis by simp
  next
    case (Some x)
    obtain q fd m needNew s1 where x: "x = (q, fd, m, needNew, s1)" by (metis prod_cases5)
    from eq show ?thesis unfolding Some x by (cases q; cases needNew) auto
  qed
qed

lemma obtain_memory_shm_only:
  assumes "obtain_memory E k prot flag path s = Some (Some p, fd, useMalloc, needNew, s')"
    and "prot AND MAP_MALLOC = 0"
  shows "get_buf_shm E k (- 1) prot flag path (prot AND MAP_EXISTS = 0) s = Some (Some p, fd, s') \<and>
    \<not> useMalloc \<and> needNew = (prot AND MAP_EXISTS = 0)"
proof (cases "prot AND MAP_SHM = 0")
  case True
  with assms(2) have "prot AND (MAP_MALLOC OR MAP_SHM) = 0" by (simp add: bit.conj_disj_distrib)
  with assms(1) show ?thesis by (simp add: obtain_memory_def)
next
  case False
  show ?thesis
    using assms(1) unfolding obtain_memory_shm [OF assms(2) False]
    by (auto split: option.splits prod.splits)
qed

text \<open>A ring made anew is \<^verbatim>\<open>init_ring\<close> of the memory obtained.\<close>

lemma get_buf_new:
  assumes call: "get_buf E n sz path prot flag u s = Some (Some r, s')"
    and new: "prot AND MAP_MALLOC \<noteq> 0 \<or> prot AND MAP_EXISTS = 0"
  shows "good_capacity n \<and> (\<exists>p m fd. r = init_ring p (get_total_size n sz u) n m fd u)"
proof -
  have cap: "good_capacity n"
    using call by (auto simp: get_buf_def simp flip: capacity_accepted_iff split: if_splits)
  have "needNew" if "obtain_memory E k prot flag path s = Some (q, fd, m, needNew, s1)"
    for k q fd m needNew s1
    using that new
    by (auto simp: obtain_memory_def Let_def split: if_splits option.splits prod.splits)
  with get_buf_obtained [OF call] cap show ?thesis by metis
qed


section \<open>The layout and its size\<close>

text \<open>C15: The layout: when the size computation does not wrap, the header, the elements and the
  slots of a ring are disjoint parts of a block of exactly the size that was asked for. Every
  element is as large as the object size rounded up to cache lines, starts on a cache line and
  shares none with another element, a slot or the header; every slot has a line of its own.\<close>

theorem layout_regions:
  assumes "layout_fits n sz" "slot_mode u"
  shows "let info = get_total_size n sz u; A = unat (aligned_objSize info);
      start = (\<lambda>i. unat (buf_off_s info) + i * A);
      slot = (\<lambda>i. unat (slot_off_s info) + i * sizeof_Slot)
    in unat sz \<le> A \<and> A < unat sz + 64 \<and> sizeof_RingBuf \<le> start 0 \<and>
       (\<forall>i < unat n. 64 dvd start i \<and> start i + A = start (Suc i) \<and>
          start (Suc i) \<le> unat (total_size info)) \<and>
       (u \<noteq> NO_SLOT \<longrightarrow> slot 0 = start (unat n) \<and>
          (\<forall>i < unat n. 64 dvd slot i \<and> slot (Suc i) \<le> unat (total_size info))) \<and>
       unat (total_size info) =
         sizeof_RingBuf + unat n * A + (if u = NO_SLOT then 0 else unat n * sizeof_Slot)"
proof -
  let ?A = "align_nat 64 (unat sz)" and ?N = "unat n"
  have A: "64 dvd ?A" "unat sz \<le> ?A" "?A < unat sz + 64"
    by (simp_all add: align_nat_dvd align_nat_ge align_nat_less)
  have rows: "Suc i * ?A \<le> ?N * ?A" "Suc i * 64 \<le> ?N * 64" if "i < ?N" for i
    by (rule mult_le_mono1; use that in simp)+
  note rows = rows rows(1) [THEN trans_le_add1]
  show ?thesis
  proof (cases "u = NO_SLOT")
    case True
    note info = get_total_size_no_slots [OF assms(1)]
    show ?thesis
      using A rows(1) by (auto simp: True Let_def info mult.commute intro: dvd_add dvd_mult)
  next
    case False
    then have slots: "u AND (MPMC_SLOT OR MPSC_SLOT) \<noteq> 0"
      using assms(2) by (auto simp: slot_mode_def slot_flags)
    note info = get_total_size_slots [OF assms(1) slots]
    show ?thesis
      using A rows False
      by (auto simp: Let_def info mult.commute intro: dvd_add dvd_mult order_trans)
  qed
qed

theorem layout_regions_witness:
  "unat (total_size (get_total_size 4 100 MPMC_SLOT)) = 192 + 4 * 128 + 4 * 64"
proof -
  have "layout_fits 4 100" "slot_mode MPMC_SLOT"
    by (simp_all add: layout_fits_def align_nat_def slot_mode_def)
  from layout_regions [OF this] have "unat (total_size (get_total_size 4 100 MPMC_SLOT)) =
      192 + 4 * unat (aligned_objSize (get_total_size 4 100 MPMC_SLOT)) + 4 * 64"
    by (auto simp: Let_def slot_flags)
  moreover have "unat (aligned_objSize (get_total_size 4 100 MPMC_SLOT)) = 128" by code_simp
  ultimately show ?thesis by simp
qed


text \<open>The size computation is not checked for wrapping around. Whenever the product of the
  rounded object size and the capacity is a multiple of \<open>2 ^ 64\<close>, as for \<open>2 ^ 58\<close> objects of 64
  bytes, \<^verbatim>\<open>get_buf\<close> accepts the request, allocates the 192 bytes of the header alone, and returns
  a ring of the full capacity whose first element lies behind the end of the block.\<close>

lemma get_buf_size_wraps:
  assumes "good_capacity n" "get_aligned_offset sz CACHE_LINE_SIZE * n = 0"
    and "memory E (Malloc 192) = Some p"
  shows "\<exists>r. get_buf E n sz path MAP_MALLOC flag NO_SLOT s =
      Some (Some r, s\<lparr>os_calls := os_calls s @ [Malloc 192]\<rparr>) \<and>
    cap r = unat n \<and> unat (GET_BUFFER r 0) = 192"
proof -
  let ?info = "get_total_size n sz NO_SLOT"
  have info: "total_size ?info = 192" "buf_off_s ?info = 192"
    using assms(2) by (simp_all add: get_total_size_def Let_def slot_flags buffer_start)
  have ok: "\<not> (n < 2 \<or> n AND (n - 1) \<noteq> 0)" using assms(1) capacity_accepted_iff by blast
  have mal: "MAP_MALLOC AND MAP_MALLOC \<noteq> 0" by (simp add: map_flags)
  have slot: "NO_SLOT AND (MPSC_SLOT OR MPMC_SLOT OR NO_SLOT) \<noteq> 0" by (simp add: slot_flags)
  let ?r = "init_ring p ?info n True (- 9999) NO_SLOT"
  have "get_buf E n sz path MAP_MALLOC flag NO_SLOT s =
      Some (Some ?r, s\<lparr>os_calls := os_calls s @ [Malloc 192]\<rparr>)"
    using ok slot assms(3) by (simp add: get_buf_def obtain_memory_malloc [OF mal] get_buf_malloc_eq info Let_def)
  moreover have "unat (GET_BUFFER ?r 0) = 192" by (simp add: GET_BUFFER_def info)
  ultimately show ?thesis by (intro exI [of _ ?r]) simp
qed

text \<open>A small operating system for the examples: every call succeeds with 3 and gives a blank block.\<close>

definition plain_env :: env where
  "plain_env = \<lparr>ret_of = (\<lambda>_. 3), errno_of = (\<lambda>_. 5), st_size = (\<lambda>_. 448),
     memory = (\<lambda>_. Some blank_block), mutex_size = 40, cond_size = 48\<rparr>"

definition os_start :: os where
  "os_start = \<lparr>os_errno = 0, os_calls = []\<rparr>"

lemma get_buf_size_wraps_example:
  "\<exists>r. get_buf plain_env (2 ^ 58) 64 None MAP_MALLOC 0 NO_SLOT os_start =
      Some (Some r, os_start\<lparr>os_calls := [Malloc 192]\<rparr>) \<and> cap r = 2 ^ 58"
proof -
  have "good_capacity (2 ^ 58)" "get_aligned_offset 64 CACHE_LINE_SIZE * 2 ^ 58 = 0"
    by (simp_all add: good_capacity_def get_aligned_offset_def CACHE_LINE_SIZE_def)
  moreover have "memory plain_env (Malloc 192) = Some blank_block" by (simp add: plain_env_def)
  ultimately obtain r where "get_buf plain_env (2 ^ 58) 64 None MAP_MALLOC 0 NO_SLOT os_start =
      Some (Some r, os_start\<lparr>os_calls := os_calls os_start @ [Malloc 192]\<rparr>)" "cap r = unat (2 ^ 58 :: size_t)"
    using get_buf_size_wraps by blast
  then show ?thesis by (intro exI [of _ r]) (simp add: os_start_def)
qed

lemma bit_length_less: "n < 2 ^ k \<Longrightarrow> bit_length n \<le> k"
proof (induction k arbitrary: n)
  case 0
  then show ?case by (simp add: bit_length.simps)
next
  case (Suc k)
  have "n div 2 < 2 ^ k" using Suc.prems by (simp add: less_mult_imp_div_less mult.commute)
  then have "bit_length (n div 2) \<le> k" by (rule Suc.IH)
  then show ?case by (subst bit_length.simps) simp
qed

text \<open>Below \<open>2 ^ 53\<close> bytes the rounding to huge pages is exact.\<close>

lemma hugepage_round_exact:
  assumes "unat n < 2 ^ 53"
  shows "hugepage_round n = Some (of_nat (align_nat (2 ^ 21) (unat n)))"
proof -
  have "double_of (unat n) = unat n"
    using bit_length_less [OF assms] by (simp add: double_of_def Let_def)
  moreover have "align_nat (2 ^ 21) (unat n) < 2 ^ 64"
    using align_nat_less [of "2 ^ 21" "unat n"] assms by simp
  moreover have "unat HUGEPAGE_SIZE = 2 ^ 21" by (simp add: HUGEPAGE_SIZE_def)
  ultimately show ?thesis by (simp add: hugepage_round_def Let_def)
qed

text \<open>\<^verbatim>\<open>get_buf_shm\<close> in its three steps: the descriptor, the size, the mapping.\<close>

abbreviation shm_open_call :: "string option \<Rightarrow> os_call" where
  "shm_open_call path \<equiv> (case path of Some f \<Rightarrow> Open f | None \<Rightarrow> Memfd_create)"

abbreviation shm_bytes :: "size_t \<Rightarrow> c_int \<Rightarrow> size_t option" where
  "shm_bytes n flag \<equiv> (if MAP_HUGETLB AND flag \<noteq> 0 then hugepage_round n else Some n)"

lemma get_buf_shm_steps:
  assumes "needNew \<or> path \<noteq> None" "shm_bytes n flag = Some m"
    "os_do E (shm_open_call path) s = (fd, s1)"
  shows "get_buf_shm E n fd0 prot flag path needNew s =
    (if fd < 0 then Some (None, fd, s1)
     else case size_shm E m fd prot needNew s1 of (failed, s2) \<Rightarrow>
       if failed then Some (None, fd, s2)
       else let c = Mmap m (if flag AND MAP_SHARED = 0 \<and> flag AND MAP_PRIVATE = 0
                            then flag OR MAP_SHARED else flag) fd
            in case memory E c of
                 None \<Rightarrow> Some (None, fd, snd (os_do E (Close fd)
                   (set_errno (errno_of E c) (s2\<lparr>os_calls := os_calls s2 @ [c]\<rparr>))))
               | Some p \<Rightarrow> Some (Some p, fd, s2\<lparr>os_calls := os_calls s2 @ [c]\<rparr>))"
proof -
  have "(case path of Some f \<Rightarrow> os_do E (Open f) s | None \<Rightarrow> os_do E Memfd_create s) = (fd, s1)"
    using assms(3) by (cases path) simp_all
  then show ?thesis
    using assms(1) unfolding get_buf_shm_def assms(2) by (simp only: Let_def prod.case option.case split: prod.split) auto
qed

section \<open>Accounts with the operating system\<close>

text \<open>The calls \<^verbatim>\<open>get_buf_shm\<close> makes, in its four outcomes.\<close>

definition size_call :: "c_int \<Rightarrow> int \<Rightarrow> size_t \<Rightarrow> os_call" where
  "size_call prot fd m = (if prot AND MAP_EXISTS = 0 then Ftruncate fd m else Fstat fd)"

lemma size_shm_calls:
  "os_calls (snd (size_shm E m fd prot (prot AND MAP_EXISTS = 0) s)) = os_calls s @ [size_call prot fd m]"
  by (simp add: size_shm_def size_call_def os_do_def set_errno_def Let_def)

lemma get_buf_shm_calls:
  assumes call: "get_buf_shm E k fd0 prot flag path (prot AND MAP_EXISTS = 0) s = Some (q, fd, s')"
    and path: "prot AND MAP_EXISTS = 0 \<or> path \<noteq> None"
  obtains (not_opened) "fd < 0" "q = None" "os_calls s' = os_calls s @ [shm_open_call path]"
      "fd = ret_of E (shm_open_call path)"
  | (not_sized) m where "0 \<le> fd" "q = None" "fd = ret_of E (shm_open_call path)"
      "os_calls s' = os_calls s @ [shm_open_call path, size_call prot fd m]"
  | (not_mapped) m fl where "0 \<le> fd" "q = None" "fd = ret_of E (shm_open_call path)" "memory E (Mmap m fl fd) = None"
      "os_calls s' = os_calls s @ [shm_open_call path, size_call prot fd m, Mmap m fl fd, Close fd]"
  | (mapped) m fl p where "0 \<le> fd" "q = Some p" "fd = ret_of E (shm_open_call path)" "memory E (Mmap m fl fd) = Some p"
      "shm_bytes k flag = Some m"
      "os_calls s' = os_calls s @ [shm_open_call path, size_call prot fd m, Mmap m fl fd]"
proof -
  obtain m where m: "shm_bytes k flag = Some m"
  proof (cases "shm_bytes k flag")
    case None
    have "get_buf_shm E k fd0 prot flag path (prot AND MAP_EXISTS = 0) s = None"
      unfolding get_buf_shm_def None using path by (simp only: option.case) auto
    with call show thesis by simp
  qed (rule that)
  obtain fd1 s1 where open1: "os_do E (shm_open_call path) s = (fd1, s1)" by fastforce
  then have s1: "fd1 = ret_of E (shm_open_call path)" "os_calls s1 = os_calls s @ [shm_open_call path]"
    by (auto simp: os_do_def)
  obtain failed s2 where size2: "size_shm E m fd1 prot (prot AND MAP_EXISTS = 0) s1 = (failed, s2)" by fastforce
  have s2: "os_calls s2 = os_calls s @ [shm_open_call path, size_call prot fd1 m]"
    using size_shm_calls [of E m fd1 prot s1, unfolded size2 s1(2)] by simp
  obtain fl where fl: "fl = (if flag AND MAP_SHARED = 0 \<and> flag AND MAP_PRIVATE = 0
      then flag OR MAP_SHARED else flag)" by simp
  note eq = call [unfolded get_buf_shm_steps [OF path m open1] size2 fl [symmetric] Let_def prod.case]
  consider "fd1 < 0" | "0 \<le> fd1" "failed" | "0 \<le> fd1" "\<not> failed" "memory E (Mmap m fl fd1) = None"
    | p where "0 \<le> fd1" "\<not> failed" "memory E (Mmap m fl fd1) = Some p"
    by (metis linorder_not_less not_None_eq)
  then show thesis
  proof cases
    case 1
    with eq s1 show thesis by (intro not_opened) auto
  next
    case 2
    with eq s2 show thesis by (intro not_sized [of m]) (auto simp: s1)
  next
    case 3
    with eq s2 show thesis by (intro not_mapped [of m fl]) (auto simp: s1 os_do_def set_errno_def)
  next
    case (4 p)
    with eq s2 m show thesis by (intro mapped [of p m fl]) (auto simp: s1)
  qed
qed

lemma get_buf_shm_mapped:
  assumes "get_buf_shm E k fd0 prot flag path (prot AND MAP_EXISTS = 0) s = Some (Some p, fd, s')"
  shows "\<exists>m fl. last (os_calls s') = Mmap m fl fd \<and> memory E (Mmap m fl fd) = Some p"
proof -
  have "prot AND MAP_EXISTS = 0 \<or> path \<noteq> None"
    by (rule ccontr) (use assms in \<open>simp add: get_buf_shm_def\<close>)
  from assms this show ?thesis by (cases rule: get_buf_shm_calls) auto
qed

text \<open>
  Accounts of a log of calls: which calls gave memory and which returned it, and the descriptors
  that are open after it, when \<open>fds\<close> were open before.
\<close>

fun gives :: "env \<Rightarrow> os_call \<Rightarrow> bool" where
  "gives E (Malloc m) = (memory E (Malloc m) \<noteq> None)"
| "gives E (Mmap m fl fd) = (memory E (Mmap m fl fd) \<noteq> None)"
| "gives E _ = False"

fun is_release :: "os_call \<Rightarrow> bool" where
  "is_release Free = True" | "is_release (Munmap m) = True" | "is_release _ = False"

fun open_fds :: "env \<Rightarrow> int list \<Rightarrow> os_call list \<Rightarrow> int list" where
  "open_fds E fds [] = fds"
| "open_fds E fds (Open f # cs) =
     open_fds E (if 0 \<le> ret_of E (Open f) then ret_of E (Open f) # fds else fds) cs"
| "open_fds E fds (Memfd_create # cs) =
     open_fds E (if 0 \<le> ret_of E Memfd_create then ret_of E Memfd_create # fds else fds) cs"
| "open_fds E fds (Close fd # cs) = open_fds E (remove1 fd fds) cs"
| "open_fds E fds (_ # cs) = open_fds E fds cs"


lemma open_fds_open [simp]:
  "open_fds E fds (shm_open_call path # cs) =
    open_fds E (if 0 \<le> ret_of E (shm_open_call path) then ret_of E (shm_open_call path) # fds else fds) cs"
  by (cases path) simp_all

lemma account_simps [simp]:
  "\<not> gives E (shm_open_call path)" "\<not> gives E (size_call prot fd m)"
  "\<not> is_release (shm_open_call path)" "\<not> is_release (size_call prot fd m)"
  "open_fds E fds (size_call prot fd m # cs) = open_fds E fds cs"
  by (simp_all add: size_call_def split: option.split)

text \<open>What \<^verbatim>\<open>get_buf\<close> refuses by itself, in the order of its checks.\<close>

definition refusal :: "size_t \<Rightarrow> string option \<Rightarrow> c_int \<Rightarrow> c_int \<Rightarrow> int option" where
  "refusal n path prot u =
     (if unat n \<notin> (\<lambda>p. 2 ^ p) ` {1..<64} then Some RINGBUF_CAPACITY_WRONG
      else if u AND (MPSC_SLOT OR MPMC_SLOT OR NO_SLOT) = 0 then Some RINGBUF_USE_SLOT_NA
      else if prot AND (MAP_MALLOC OR MAP_SHM) = 0 then Some RINGBUF_NO_MAPPING_TYPE
      else if prot AND MAP_MALLOC = 0 \<and> prot AND MAP_EXISTS \<noteq> 0 \<and> path = None then Some RINGBUF_INVALID_PARAM
      else None)"

lemma good_capacity_powers: "unat n \<in> (\<lambda>p. 2 ^ p) ` {1..<64} \<longleftrightarrow> good_capacity n"
  unfolding good_capacity_iff by (auto simp: image_iff)

lemma get_buf_outcome:
  assumes call: "get_buf E n sz path prot flag u s = Some (q, s')"
  defines "info \<equiv> get_total_size n sz u"
  obtains (refused) e where "refusal n path prot u = Some e" "q = None" "s' = s\<lparr>os_errno := e\<rparr>"
  | (malloc) "refusal n path prot u = None" "prot AND MAP_MALLOC \<noteq> 0"
      "os_calls s' = os_calls s @ [Malloc (total_size info)]"
      "q = map_option (\<lambda>p. init_ring p info n True (- 9999) u) (memory E (Malloc (total_size info)))"
      "q = None \<longrightarrow> os_errno s' = ENOMEM"
  | (shm) p fd where "refusal n path prot u = None" "prot AND MAP_MALLOC = 0" "prot AND MAP_EXISTS = 0 \<or> path \<noteq> None"
      "get_buf_shm E (total_size info) (- 1) prot flag path (prot AND MAP_EXISTS = 0) s = Some (p, fd, s')"
      "q = (if prot AND MAP_EXISTS = 0 then map_option (\<lambda>p. init_ring p info n False fd u) p else p)"
proof (cases "good_capacity n \<and> u AND (MPSC_SLOT OR MPMC_SLOT OR NO_SLOT) \<noteq> 0")
  case False
  then have "\<exists>e. refusal n path prot u = Some e \<and> q = None \<and> s' = s\<lparr>os_errno := e\<rparr>"
    using call get_buf_bad_capacity [of n E sz path prot flag u s] get_buf_bad_slot_mode [of n u E sz path prot flag s]
      capacity_accepted_iff [of n]
    unfolding refusal_def good_capacity_powers by (auto simp: set_errno_def)
  then show thesis using refused by blast
next
  case True
  then have cap: "\<not> (n < 2 \<or> n AND (n - 1) \<noteq> 0)" and mode: "\<not> u AND (MPSC_SLOT OR MPMC_SLOT OR NO_SLOT) = 0"
    using capacity_accepted_iff by blast+
  note eq = call [unfolded get_buf_def if_not_P [OF cap] if_not_P [OF mode] Let_def, folded info_def]
  have checks: "refusal n path prot u =
      (if prot AND (MAP_MALLOC OR MAP_SHM) = 0 then Some RINGBUF_NO_MAPPING_TYPE
       else if prot AND MAP_MALLOC = 0 \<and> prot AND MAP_EXISTS \<noteq> 0 \<and> path = None then Some RINGBUF_INVALID_PARAM
       else None)"
    using True unfolding refusal_def good_capacity_powers by simp
  consider "prot AND (MAP_MALLOC OR MAP_SHM) = 0" | "prot AND MAP_MALLOC \<noteq> 0"
    | "prot AND (MAP_MALLOC OR MAP_SHM) \<noteq> 0" "prot AND MAP_MALLOC = 0" by blast
  then show thesis
  proof cases
    case 1
    with eq show thesis
      by (intro refused [of RINGBUF_NO_MAPPING_TYPE]) (auto simp: checks obtain_memory_def set_errno_def)
  next
    case 2
    then have some: "prot AND (MAP_MALLOC OR MAP_SHM) \<noteq> 0" by (auto simp: bit_eq_iff bit_simps)
    show thesis
      by (rule malloc) (use eq 2 some in \<open>auto simp: checks obtain_memory_malloc [OF 2] get_buf_malloc_eq split: option.splits\<close>)
  next
    case 3
    show thesis
    proof (cases "prot AND MAP_EXISTS \<noteq> 0 \<and> path = None")
      case True
      with eq 3 checks show thesis
        by (intro refused [of RINGBUF_INVALID_PARAM])
          (auto simp: obtain_memory_def get_buf_shm_def set_errno_def Let_def)
    next
      case False
      obtain p fd s1 where got: "get_buf_shm E (total_size info) (- 1) prot flag path (prot AND MAP_EXISTS = 0) s = Some (p, fd, s1)"
        using eq 3 by (auto simp: obtain_memory_def Let_def split: option.splits)
      show thesis
        by (rule shm [where p = p and fd = fd])
          (use eq 3 False got in \<open>auto simp: checks obtain_memory_def Let_def split: option.splits if_splits\<close>)
    qed
  qed
qed

lemma init_ring_release [simp]:
  "r_totalSize (init_ring p info n m fd u) = total_size info"
  "r_mapType (init_ring p info n m fd u) = (if m then MAP_MALLOC else MAP_SHM)"
  "r_fd (init_ring p info n m fd u) = fd"
proof -
  have "r_totalSize (init_slots f k q) = r_totalSize q" "r_mapType (init_slots f k q) = r_mapType q"
    "r_fd (init_slots f k q) = r_fd q" for f k q
    by (induction k) (simp_all add: store_slot_def)
  then show "r_totalSize (init_ring p info n m fd u) = total_size info"
    "r_mapType (init_ring p info n m fd u) = (if m then MAP_MALLOC else MAP_SHM)"
    "r_fd (init_ring p info n m fd u) = fd"
    by (simp_all add: init_ring_def Let_def)
qed

lemma del_buf_calls:
  "r_mapType r = MAP_SHM \<Longrightarrow> os_calls (del_buf E (Some r) t) = os_calls t @ [Close (r_fd r), Munmap (r_totalSize r)]"
  "r_mapType r = MAP_MALLOC \<Longrightarrow> os_calls (del_buf E (Some r) t) = os_calls t @ [Free]"
  by (simp_all add: del_buf_def os_do_def map_flags)


text \<open>
  An operating system for the examples: a file of \<open>z\<close> bytes with the descriptor \<open>k\<close>, which maps to the
  block \<open>p\<close>; it has no room if \<open>full\<close> holds.
\<close>

definition file_env :: "int \<Rightarrow> size_t \<Rightarrow> ring \<Rightarrow> bool \<Rightarrow> env" where
  "file_env k z p full = plain_env\<lparr>ret_of := (\<lambda>c. case c of Ftruncate fd m \<Rightarrow> if full then - 1 else 0 | _ \<Rightarrow> k),
     st_size := (\<lambda>_. z), memory := (\<lambda>_. Some p)\<rparr>"

lemma file_env_fields [simp]:
  "ret_of (file_env k z p full) (Open f) = k" "ret_of (file_env k z p full) (Fstat fd) = k"
  "ret_of (file_env k z p full) (Ftruncate fd n) = (if full then - 1 else 0)"
  "errno_of (file_env k z p full) c = 5" "st_size (file_env k z p full) fd = z"
  "memory (file_env k z p full) c = Some p"
  by (simp_all add: file_env_def plain_env_def)

lemma file_env_get:
  assumes "shm_bytes 448 flag = Some m" "prot AND MAP_MALLOC = 0" "prot AND MAP_SHM \<noteq> 0" "0 \<le> k" "m \<noteq> 0"
  defines "fl \<equiv> (if flag AND MAP_SHARED = 0 \<and> flag AND MAP_PRIVATE = 0 then flag OR MAP_SHARED else flag)"
    and "log \<equiv> (\<lambda>cs. os_start\<lparr>os_calls := cs\<rparr>)"
  shows "prot AND MAP_EXISTS = 0 \<Longrightarrow> get_buf (file_env k m p False) 4 8 (Some f) prot flag NO_SLOT os_start =
      Some (Some (init_ring p (get_total_size 4 8 NO_SLOT) 4 False k NO_SLOT), log [Open f, Ftruncate k m, Mmap m fl k])"
    and "prot AND MAP_EXISTS = 0 \<Longrightarrow> get_buf (file_env k m p True) 4 8 (Some f) prot flag NO_SLOT os_start =
      Some (None, (log [Open f, Ftruncate k m])\<lparr>os_errno := 5\<rparr>)"
    and "prot AND MAP_EXISTS \<noteq> 0 \<Longrightarrow> get_buf (file_env k m p False) 4 8 (Some f) prot flag NO_SLOT os_start =
      Some (Some p, log [Open f, Fstat k, Mmap m fl k])"
proof -
  have info: "total_size (get_total_size 4 8 NO_SLOT) = 448" by code_simp
  have cap: "\<not> (4 < (2::size_t) \<or> (4::size_t) AND (4 - 1) \<noteq> 0)" by simp
  have mode: "\<not> NO_SLOT AND (MPSC_SLOT OR MPMC_SLOT OR NO_SLOT) = 0" by (simp add: slot_flags)
  have opens: "os_do (file_env k m p full) (shm_open_call (Some f)) os_start = (k, log [Open f])" for full
    using assms(4) by (simp add: os_do_def os_start_def log_def)
  note step = get_buf_shm_steps [OF disjI2 assms(1) opens, unfolded size_shm_def]
  note eqs = get_buf_def obtain_memory_shm [OF assms(2,3)] info step os_do_def set_errno_def
    Let_def log_def fl_def
  have [simp]: "os_calls os_start = []" "os_errno os_start = 0" by (simp_all add: os_start_def)
  show "prot AND MAP_EXISTS = 0 \<Longrightarrow> get_buf (file_env k m p False) 4 8 (Some f) prot flag NO_SLOT os_start =
      Some (Some (init_ring p (get_total_size 4 8 NO_SLOT) 4 False k NO_SLOT), log [Open f, Ftruncate k m, Mmap m fl k])"
    using assms(4) cap mode by (simp add: eqs)
  show "prot AND MAP_EXISTS = 0 \<Longrightarrow> get_buf (file_env k m p True) 4 8 (Some f) prot flag NO_SLOT os_start =
      Some (None, (log [Open f, Ftruncate k m])\<lparr>os_errno := 5\<rparr>)"
    using assms(4) cap mode by (simp add: eqs)
  show "prot AND MAP_EXISTS \<noteq> 0 \<Longrightarrow> get_buf (file_env k m p False) 4 8 (Some f) prot flag NO_SLOT os_start =
      Some (Some p, log [Open f, Fstat k, Mmap m fl k])"
    using assms(4,5) cap mode by (simp add: eqs)
qed


text \<open>A ring in shared memory: the calls that made it, and which memory it is.\<close>

lemma get_buf_shm_ring:
  assumes call: "get_buf E n sz (Some f) prot flag u s = Some (Some r, s')" and mem: "prot AND MAP_MALLOC = 0"
  defines "fd \<equiv> ret_of E (Open f)" and "info \<equiv> get_total_size n sz u"
  obtains m fl p where "0 \<le> fd" "shm_bytes (total_size info) flag = Some m" "memory E (Mmap m fl fd) = Some p"
    "os_calls s' = os_calls s @ [Open f, size_call prot fd m, Mmap m fl fd]"
    "r = (if prot AND MAP_EXISTS = 0 then init_ring p info n False fd u else p)"
  using call
proof (cases rule: get_buf_outcome)
  case (shm p fd1)
  from shm(4,3) show thesis
  proof (cases rule: get_buf_shm_calls)
    case (mapped m fl p')
    then show thesis using shm that [of m fl p'] by (auto simp: fd_def info_def split: if_splits)
  qed (use shm in \<open>auto split: if_splits\<close>)
qed (use mem in auto)

text \<open>C38: Releasing shared memory does not match obtaining it. One process makes a ring on a file with
  \<^verbatim>\<open>MAP_SHM\<close>, another attaches to it with \<^verbatim>\<open>MAP_EXISTS\<close> while it is in use, and both delete it.
  The creator's last call maps the computed size rounded up to whole huge pages if it asked for
  \<^verbatim>\<open>MAP_HUGETLB\<close>; its \<^verbatim>\<open>del_buf\<close> unmaps the size before rounding. The second process opens the
  file itself, but \<^verbatim>\<open>del_buf\<close> there closes the number the creator stored in the shared header: unless
  the numbers are the same, its own descriptor stays open, and whatever it had open under the
  creator's number is closed.\<close>

theorem shm_release_mismatch:
  assumes create: "get_buf E n sz (Some f) prot flag u s = Some (Some r, s1)"
      "prot AND MAP_MALLOC = 0" "prot AND MAP_EXISTS = 0"
    and used: "r_fd r' = r_fd r" "r_totalSize r' = r_totalSize r" "r_mapType r' = r_mapType r"
    and attach: "get_buf E' n sz (Some f) prot' flag' u s2 = Some (Some q, s3)"
      "prot' AND MAP_MALLOC = 0" "prot' AND MAP_EXISTS \<noteq> 0"
      "\<forall>k fl fd. memory E' (Mmap k fl fd) \<in> {None, Some r'}"
    and small: "unat (total_size (get_total_size n sz u)) < 2 ^ 53"
  shows "let total = total_size (get_total_size n sz u); fd = ret_of E (Open f); fd' = ret_of E' (Open f) in
    (\<exists>m fl. last (os_calls s1) = Mmap m fl fd \<and>
       unat m = (if MAP_HUGETLB AND flag \<noteq> 0 then align_nat (2 ^ 21) (unat total) else unat total)) \<and>
    os_calls (del_buf E (Some r') s1) = os_calls s1 @ [Close fd, Munmap total] \<and>
    q = r' \<and>
    (\<exists>cs. os_calls (del_buf E' (Some q) s3) = os_calls s2 @ cs \<and>
       (\<forall>fds. open_fds E' fds cs = remove1 fd (fd' # fds)))"
proof -
  let ?total = "total_size (get_total_size n sz u)" and ?fd = "ret_of E (Open f)" and ?fd' = "ret_of E' (Open f)"
  obtain m fl p where new: "shm_bytes ?total flag = Some m"
    "os_calls s1 = os_calls s @ [Open f, size_call prot ?fd m, Mmap m fl ?fd]"
    "r = init_ring p (get_total_size n sz u) n False ?fd u"
    using get_buf_shm_ring [OF create(1,2)] create(3) by metis
  have head: "r_mapType r' = MAP_SHM" "r_fd r' = ?fd" "r_totalSize r' = ?total"
    using used by (simp_all add: new(3))
  obtain m' fl' p' where old: "0 \<le> ?fd'" "memory E' (Mmap m' fl' ?fd') = Some p'" "q = p'"
    "os_calls s3 = os_calls s2 @ [Open f, size_call prot' ?fd' m', Mmap m' fl' ?fd']"
    using get_buf_shm_ring [OF attach(1,2)] attach(3) by metis
  have q: "q = r'" using attach(4) old(2,3) by (metis insertE option.distinct(1) option.inject singletonD)
  have "align_nat (2 ^ 21) (unat ?total) < 2 ^ 64"
    using align_nat_less [of "2 ^ 21" "unat ?total"] small by simp
  then have "unat m = (if MAP_HUGETLB AND flag \<noteq> 0 then align_nat (2 ^ 21) (unat ?total) else unat ?total)"
    using new(1) hugepage_round_exact [OF small] by (auto simp: unat_of_nat64 simp del: unat_of_nat split: if_splits)
  then show ?thesis
    unfolding Let_def q del_buf_calls(1) [OF head(1)] old(4) head(2,3)
    by (auto simp: new(2) old(1) intro!: exI)
qed

theorem shm_release_mismatch_witness:
  "\<exists>r s1 s3.
    get_buf (file_env 3 (2 ^ 21) blank_block False) 4 8 (Some ''ring'') MAP_SHM MAP_HUGETLB NO_SLOT os_start =
      Some (Some r, s1) \<and>
    get_buf (file_env 5 (2 ^ 21) r False) 4 8 (Some ''ring'') (MAP_SHM OR MAP_EXISTS) MAP_HUGETLB NO_SLOT os_start =
      Some (Some r, s3) \<and>
    os_calls (del_buf (file_env 3 (2 ^ 21) blank_block False) (Some r) s1) =
      [Open ''ring'', Ftruncate 3 (2 ^ 21), Mmap (2 ^ 21) (MAP_HUGETLB OR MAP_SHARED) 3, Close 3, Munmap 448] \<and>
    os_calls (del_buf (file_env 5 (2 ^ 21) r False) (Some r) s3) =
      [Open ''ring'', Fstat 5, Mmap (2 ^ 21) (MAP_HUGETLB OR MAP_SHARED) 5, Close 3, Munmap 448] \<and>
    open_fds (file_env 5 (2 ^ 21) r False) [3]
      (os_calls (del_buf (file_env 5 (2 ^ 21) r False) (Some r) s3)) = [5]"
proof -
  let ?info = "get_total_size 4 8 NO_SLOT"
  let ?r = "init_ring blank_block ?info 4 False 3 NO_SLOT"
  let ?E = "file_env 3 (2 ^ 21) blank_block False" and ?E' = "file_env 5 (2 ^ 21) ?r False"
  have info: "total_size ?info = 448" by code_simp
  have prot: "MAP_SHM AND MAP_MALLOC = 0" "MAP_SHM AND MAP_SHM \<noteq> 0" "MAP_SHM AND MAP_EXISTS = 0"
    "(MAP_SHM OR MAP_EXISTS) AND MAP_MALLOC = 0" "(MAP_SHM OR MAP_EXISTS) AND MAP_SHM \<noteq> 0"
    "(MAP_SHM OR MAP_EXISTS) AND MAP_EXISTS \<noteq> 0"
    by (simp_all add: map_flags)
  have fl: "MAP_HUGETLB AND MAP_SHARED = 0 \<and> MAP_HUGETLB AND MAP_PRIVATE = 0" "MAP_HUGETLB AND MAP_HUGETLB \<noteq> 0"
    by (simp_all add: mmap_flags)
  have bytes: "shm_bytes 448 MAP_HUGETLB = Some (2 ^ 21)"
    using hugepage_round_exact [of 448] fl(2) by (simp add: align_nat_def)
  have two: "(2 :: size_t) ^ 21 \<noteq> 0" by simp
  note made = file_env_get(1) [OF bytes prot(1,2) _ two prot(3), of 3 blank_block "''ring''", unfolded if_P [OF fl(1)]]
  note attached = file_env_get(3) [OF bytes prot(4,5) _ two prot(6), of 5 ?r "''ring''", unfolded if_P [OF fl(1)]]
  have made1: "get_buf ?E 4 8 (Some ''ring'') MAP_SHM MAP_HUGETLB NO_SLOT os_start = Some (Some ?r,
      os_start\<lparr>os_calls := [Open ''ring'', Ftruncate 3 (2 ^ 21), Mmap (2 ^ 21) (MAP_HUGETLB OR MAP_SHARED) 3]\<rparr>)"
    by (rule made) simp
  have attached1: "get_buf ?E' 4 8 (Some ''ring'') (MAP_SHM OR MAP_EXISTS) MAP_HUGETLB NO_SLOT os_start = Some (Some ?r,
      os_start\<lparr>os_calls := [Open ''ring'', Fstat 5, Mmap (2 ^ 21) (MAP_HUGETLB OR MAP_SHARED) 5]\<rparr>)"
    by (rule attached) simp
  have mem: "\<forall>k fl fd. memory ?E' (Mmap k fl fd) \<in> {None, Some ?r}" by simp
  have small: "unat (total_size ?info) < 2 ^ 53" by (simp add: info)
  note both = shm_release_mismatch [OF made1 prot(1,3) refl refl refl attached1 prot(4,6) mem small]
  have calls: "os_calls (del_buf ?E' (Some ?r) (os_start\<lparr>os_calls := cs\<rparr>)) = cs @ [Close 3, Munmap 448]" for cs
    by (simp add: del_buf_calls info)
  let ?s1 = "os_start\<lparr>os_calls := [Open ''ring'', Ftruncate 3 (2 ^ 21), Mmap (2 ^ 21) (MAP_HUGETLB OR MAP_SHARED) 3]\<rparr>"
  let ?s3 = "os_start\<lparr>os_calls := [Open ''ring'', Fstat 5, Mmap (2 ^ 21) (MAP_HUGETLB OR MAP_SHARED) 5]\<rparr>"
  have "os_calls (del_buf ?E (Some ?r) ?s1) =
      [Open ''ring'', Ftruncate 3 (2 ^ 21), Mmap (2 ^ 21) (MAP_HUGETLB OR MAP_SHARED) 3, Close 3, Munmap 448]"
    using both by (simp add: Let_def info)
  moreover have "os_calls (del_buf ?E' (Some ?r) ?s3) =
      [Open ''ring'', Fstat 5, Mmap (2 ^ 21) (MAP_HUGETLB OR MAP_SHARED) 5, Close 3, Munmap 448]"
    by (simp only: calls append.simps)
  moreover have "open_fds ?E' [3] (os_calls (del_buf ?E' (Some ?r) ?s3)) = [5]"
    using both by (auto simp: Let_def os_start_def)
  ultimately show ?thesis using made1 attached1 by blast
qed

section \<open>Failures\<close>

text \<open>C16: Attaching to shared memory with \<^verbatim>\<open>MAP_EXISTS\<close>, after the file was opened. An empty
  file is \<^verbatim>\<open>RINGBUF_MAPPING_NOT_EXISTS\<close>, any size but the computed one is
  \<^verbatim>\<open>RINGBUF_MAPPING_SIZE_ERROR\<close>, and then the memory is mapped, shared unless the caller said
  otherwise, and returned as it is found. The calls made are exactly those listed: a mapping that
  fails closes the descriptor, while the two size errors leave it open.\<close>

theorem shm_attach:
  fixes E :: env and f :: string
  defines "fd \<equiv> ret_of E (Open f)"
  assumes "good_capacity n" "u AND (MPSC_SLOT OR MPMC_SLOT OR NO_SLOT) \<noteq> 0"
    and "prot AND MAP_MALLOC = 0" "prot AND MAP_SHM \<noteq> 0" "prot AND MAP_EXISTS \<noteq> 0" "MAP_HUGETLB AND flag = 0"
    and "0 \<le> fd" "0 \<le> ret_of E (Fstat fd)" "0 \<le> ret_of E (Close fd)"
  shows "get_buf E n sz (Some f) prot flag u s =
    (let m = total_size (get_total_size n sz u);
         c = Mmap m (if flag AND MAP_SHARED = 0 \<and> flag AND MAP_PRIVATE = 0 then flag OR MAP_SHARED else flag) fd;
         err = (\<lambda>e cs. Some (None, s\<lparr>os_errno := e, os_calls := os_calls s @ cs\<rparr>))
     in if st_size E fd = 0 then err RINGBUF_MAPPING_NOT_EXISTS [Open f, Fstat fd]
        else if st_size E fd \<noteq> m then err RINGBUF_MAPPING_SIZE_ERROR [Open f, Fstat fd]
        else case memory E c of
               None \<Rightarrow> err (errno_of E c) [Open f, Fstat fd, c, Close fd]
             | Some p \<Rightarrow> Some (Some p, s\<lparr>os_calls := os_calls s @ [Open f, Fstat fd, c]\<rparr>))"
proof -
  let ?m = "total_size (get_total_size n sz u)"
  have cap: "\<not> (n < 2 \<or> n AND (n - 1) \<noteq> 0)" using assms(2) capacity_accepted_iff by blast
  have exists: "(prot AND MAP_EXISTS = 0) = False" using assms(6) by simp
  have bytes: "shm_bytes ?m flag = Some ?m" using assms(7) by simp
  have opens: "os_do E (shm_open_call (Some f)) s = (fd, s\<lparr>os_calls := os_calls s @ [Open f]\<rparr>)"
    using assms(8) by (simp add: os_do_def fd_def)
  note shm = get_buf_shm_steps [OF disjI2 bytes opens, where needNew = False]
  show ?thesis
    unfolding get_buf_def if_not_P [OF cap] if_not_P [OF assms(3)]
    using assms(6,8-10)
    by (simp add: obtain_memory_shm [OF assms(4,5)] exists shm size_shm_def os_do_def set_errno_def Let_def
        split: option.split)
qed

theorem shm_attach_witness:
  "get_buf plain_env 4 8 (Some ''ring'') (MAP_SHM OR MAP_EXISTS) 0 NO_SLOT os_start =
     Some (Some blank_block, os_start\<lparr>os_calls := [Open ''ring'', Fstat 3, Mmap 448 MAP_SHARED 3]\<rparr>)"
proof -
  have info: "total_size (get_total_size 4 8 NO_SLOT) = 448" by code_simp
  have E: "ret_of plain_env c = 3" "st_size plain_env x = 448" "memory plain_env c = Some blank_block" for c x
    by (simp_all add: plain_env_def)
  have cap: "good_capacity 4" by (simp add: good_capacity_def)
  have slot: "NO_SLOT AND (MPSC_SLOT OR MPMC_SLOT OR NO_SLOT) \<noteq> 0" by (simp add: slot_flags)
  have prot: "(MAP_SHM OR MAP_EXISTS) AND MAP_MALLOC = 0" "(MAP_SHM OR MAP_EXISTS) AND MAP_SHM \<noteq> 0"
    "(MAP_SHM OR MAP_EXISTS) AND MAP_EXISTS \<noteq> 0" by (simp_all add: map_flags)
  show ?thesis
    by (subst shm_attach [OF cap slot prot]) (simp_all add: E info Let_def mmap_flags os_start_def)
qed

text \<open>What initialising the mutex and the condition variables does when one of the three fails.\<close>

lemma init_sync_errno:
  assumes "\<And>c. 0 \<le> ret_of E c"
  shows "os_errno (snd (init_sync E b s)) = os_errno s"
proof -
  have "\<not> ret_of E c < 0" for c using assms [of c] by simp
  then show ?thesis by (simp add: init_sync_def os_do_def Let_def)
qed

lemma init_sync_fails:
  "\<exists>c \<in> {Mutex_init b, Cond_init 0 b, Cond_init 1 b}. ret_of E c \<noteq> 0 \<Longrightarrow> \<not> fst (init_sync E b s)"
  by (auto simp: init_sync_def os_do_def Let_def)

lemma init_sync_frees_nothing:
  "set (os_calls (snd (init_sync E b s))) \<subseteq> set (os_calls s) \<union>
     {Mutex_init b, Cond_init 0 b, Cond_init 1 b, Mutex_destroy, Cond_destroy 0}"
  by (auto simp: init_sync_def os_do_def Let_def)

text \<open>C39: A blocking ring whose mutex or condition variables cannot be initialised is reported as
  made. The \<open>pthread\<close> initialisers return their error number and leave \<^verbatim>\<open>errno\<close> alone, which
  \<^verbatim>\<open>Get_BlockRingBuf_e\<close> then returns: with \<^verbatim>\<open>errno\<close> 0 before the call it answers
  \<^verbatim>\<open>RINGBUF_SUCCESS\<close> and a null ring. The block allocated is not freed.\<close>

theorem block_init_failure:
  assumes "good_capacity n"
    and "memory E (Malloc (of_nat (sizeof_BRingBuf (mutex_size E) (cond_size E)) +
          get_aligned_offset sz CACHE_LINE_SIZE * n)) = Some p"
    and "\<And>c. 0 \<le> ret_of E c"
    and "\<exists>c \<in> {Mutex_init False, Cond_init 0 False, Cond_init 1 False}. ret_of E c \<noteq> 0"
    and "os_errno s = 0" "Free \<notin> set (os_calls s)"
  shows "\<exists>s'. Get_BlockRingBuf_e E True n sz path MAP_MALLOC flag s = Some (RINGBUF_SUCCESS, None, s') \<and>
    Free \<notin> set (os_calls s')"
proof -
  let ?m = "of_nat (sizeof_BRingBuf (mutex_size E) (cond_size E)) + get_aligned_offset sz CACHE_LINE_SIZE * n"
  have cap: "\<not> (n < 2 \<or> n AND (n - 1) \<noteq> 0)" using assms(1) capacity_accepted_iff by blast
  have mal: "MAP_MALLOC AND MAP_MALLOC \<noteq> 0" by (simp add: map_flags)
  let ?s = "s\<lparr>os_calls := os_calls s @ [Malloc ?m]\<rparr>"
  obtain s' where sync: "init_sync E False ?s = (False, s')"
    using init_sync_fails [OF assms(4)] by (metis (full_types) prod.exhaust_sel)
  have "get_block_buf E n sz path MAP_MALLOC flag s = Some (None, s')"
    unfolding get_block_buf_def if_not_P [OF cap]
    by (simp add: obtain_memory_malloc [OF mal] get_buf_malloc_eq assms(2) sync Let_def)
  moreover have "os_errno s' = 0"
    using init_sync_errno [OF assms(3), of False ?s] assms(5) by (simp add: sync)
  moreover have "Free \<notin> set (os_calls s')"
    using init_sync_frees_nothing [of E False ?s] assms(6) by (auto simp: sync)
  ultimately show ?thesis
    by (simp add: Get_BlockRingBuf_e_def with_code_def RINGBUF_SUCCESS_def)
qed

theorem block_init_failure_witness:
  "\<exists>E s'. Get_BlockRingBuf_e E True 4 8 None MAP_MALLOC 0 os_start = Some (RINGBUF_SUCCESS, None, s') \<and>
     Free \<notin> set (os_calls s')"
proof -
  let ?E = "plain_env\<lparr>ret_of := (\<lambda>_. 11)\<rparr>"
  have "good_capacity 4" by (simp add: good_capacity_def)
  then have "\<exists>s'. Get_BlockRingBuf_e ?E True 4 8 None MAP_MALLOC 0 os_start = Some (RINGBUF_SUCCESS, None, s') \<and>
      Free \<notin> set (os_calls s')"
    by (rule block_init_failure) (auto simp add: plain_env_def os_start_def)
  then show ?thesis by blast
qed

end
