(* ===== verification/RB_Block.thy ===== *)
theory RB_Block
  imports RB_Alloc RB_Steps
begin

text \<open>
  The blocking ring of \<^verbatim>\<open>RingBuf_Block.c\<close>: any number of threads push and pop under a mutex and
  wait on two condition variables. The system is a step relation. A mutex is its holder; a wait
  releases the mutex and sleeps in one step, a signal wakes one of the threads asleep on the
  condition if there is one, sleepers may also wake without a signal, and a woken thread has
  to take the mutex again before it tests its condition once more.
\<close>

section \<open>The system\<close>

datatype cond = Writeable | Readable

datatype block_op = Push src size_t | Pop size_t

fun op_size :: "block_op \<Rightarrow> size_t" where
  "op_size (Push args sz) = sz"
| "op_size (Pop sz) = sz"

text \<open>The condition an operation waits on.\<close>

fun op_cond :: "block_op \<Rightarrow> cond" where
  "op_cond (Push args sz) = Writeable"
| "op_cond (Pop sz) = Readable"

text \<open>The condition of the loop around \<open>pthread_cond_wait\<close>.\<close>

fun must_wait :: "block_op \<Rightarrow> ring \<Rightarrow> bool" where
  "must_wait (Push args sz) r \<longleftrightarrow> r_objNum r \<le> r_head r - r_tail r"
| "must_wait (Pop sz) r \<longleftrightarrow> r_head r = r_tail r"

text \<open>
  Where a thread is: before \<open>pthread_mutex_lock\<close>, before the test of the loop, asleep, woken and
  waiting for the mutex, copying byte by byte, before \<open>pthread_cond_signal\<close> and before
  \<open>pthread_mutex_unlock\<close> with the value it will return.
\<close>

datatype block_pc =
    BIdle
  | BLock block_op
  | BTest block_op
  | BWait block_op
  | BRelock block_op
  | BCopyIn src size_t nat
  | BCopyOut size_t "byte list"
  | BSignal cond int
  | BUnlock int

fun copying :: "block_op \<Rightarrow> block_pc" where
  "copying (Push args sz) = BCopyIn args sz 0"
| "copying (Pop sz) = BCopyOut sz []"

record block_sys =
  b_ring :: ring
  b_mutex :: "nat option"
  b_pcs :: "nat \<Rightarrow> block_pc"

abbreviation goes :: "block_sys \<Rightarrow> nat \<Rightarrow> block_pc \<Rightarrow> block_sys" where
  "goes s t pc \<equiv> s\<lparr>b_pcs := (b_pcs s)(t := pc)\<rparr>"

text \<open>
  Events: an object went in or out, a thread's operation set \<^verbatim>\<open>errno\<close>, it returned. An object
  that is too large is refused at once, by a push with \<^verbatim>\<open>errno\<close> set.
\<close>

datatype block_event = BPut "byte list" | BTake "byte list" | BErrno nat int | BRet nat int

fun refusal :: "nat \<Rightarrow> block_op \<Rightarrow> block_event list" where
  "refusal t (Push args sz) = [BErrno t RINGBUF_PUSH_SIZE_TOO_LARGE, BRet t RINGBUF_PUSH_SIZE_TOO_LARGE]"
| "refusal t (Pop sz) = [BRet t RINGBUF_POP_SIZE_TOO_LARGE]"

inductive block_step :: "block_sys \<Rightarrow> block_event list \<Rightarrow> block_sys \<Rightarrow> bool" where
  refuse: "b_pcs s t = BIdle \<Longrightarrow> r_objSize (b_ring s) < op_size x \<Longrightarrow>
    block_step s (refusal t x) s"
| call: "b_pcs s t = BIdle \<Longrightarrow> \<not> r_objSize (b_ring s) < op_size x \<Longrightarrow>
    block_step s [] (goes s t (BLock x))"
| lock: "b_pcs s t = BLock x \<Longrightarrow> b_mutex s = None \<Longrightarrow>
    block_step s [] (goes (s\<lparr>b_mutex := Some t\<rparr>) t (BTest x))"
| cond_wait: "b_pcs s t = BTest x \<Longrightarrow> must_wait x (b_ring s) \<Longrightarrow>
    block_step s [] (goes (s\<lparr>b_mutex := None\<rparr>) t (BWait x))"
| wake_up: "b_pcs s t = BWait x \<Longrightarrow> block_step s [] (goes s t (BRelock x))"
| relock: "b_pcs s t = BRelock x \<Longrightarrow> b_mutex s = None \<Longrightarrow>
    block_step s [] (goes (s\<lparr>b_mutex := Some t\<rparr>) t (BTest x))"
| leave_loop: "b_pcs s t = BTest x \<Longrightarrow> \<not> must_wait x (b_ring s) \<Longrightarrow>
    block_step s [] (goes s t (copying x))"
| copy_in: "b_pcs s t = BCopyIn args sz i \<Longrightarrow> i < unat sz \<Longrightarrow> r = b_ring s \<Longrightarrow>
    block_step s [] (goes (s\<lparr>b_ring := write_byte r
      (GET_BUFFER r (r_head r AND r_mask r) + of_nat i) (args i)\<rparr>) t (BCopyIn args sz (Suc i)))"
| put: "b_pcs s t = BCopyIn args sz i \<Longrightarrow> \<not> i < unat sz \<Longrightarrow> r = b_ring s \<Longrightarrow> head = r_head r \<Longrightarrow>
    block_step s [BPut (map args [0..<unat sz])]
      (goes (s\<lparr>b_ring := r\<lparr>r_head := r_head r + 1\<rparr>\<rparr>) t (BSignal Readable (ssize_of head)))"
| copy_out: "b_pcs s t = BCopyOut sz buf \<Longrightarrow> length buf < unat sz \<Longrightarrow> r = b_ring s \<Longrightarrow>
    block_step s [] (goes s t (BCopyOut sz (buf @
      [bytes r (GET_BUFFER r (r_tail r AND r_mask r) + of_nat (length buf))])))"
| take: "b_pcs s t = BCopyOut sz buf \<Longrightarrow> \<not> length buf < unat sz \<Longrightarrow> r = b_ring s \<Longrightarrow> tail = r_tail r \<Longrightarrow>
    block_step s [BTake buf]
      (goes (s\<lparr>b_ring := r\<lparr>r_tail := r_tail r + 1\<rparr>\<rparr>) t (BSignal Writeable (ssize_of tail)))"
| signal_nobody: "b_pcs s t = BSignal c v \<Longrightarrow> (\<And>u x. b_pcs s u = BWait x \<Longrightarrow> op_cond x \<noteq> c) \<Longrightarrow>
    block_step s [] (goes s t (BUnlock v))"
| signal: "b_pcs s t = BSignal c v \<Longrightarrow> b_pcs s u = BWait x \<Longrightarrow> op_cond x = c \<Longrightarrow>
    block_step s [] (goes (goes s u (BRelock x)) t (BUnlock v))"
| unlock: "b_pcs s t = BUnlock v \<Longrightarrow>
    block_step s [BRet t v] (goes (s\<lparr>b_mutex := None\<rparr>) t BIdle)"

text \<open>Any number of steps by any threads, with the events, and the start on a ring.\<close>

inductive block_steps :: "block_sys \<Rightarrow> block_event list \<Rightarrow> block_sys \<Rightarrow> bool" for s where
  none: "block_steps s [] s"
| more: "block_steps s h s' \<Longrightarrow> block_step s' e s'' \<Longrightarrow> block_steps s (h @ e) s''"

definition block_start :: "ring \<Rightarrow> block_sys" where
  "block_start r = \<lparr>b_ring = r, b_mutex = None, b_pcs = (\<lambda>_. BIdle)\<rparr>"


fun puts :: "block_event list \<Rightarrow> byte list list" where
  "puts [] = []"
| "puts (BPut v # es) = v # puts es"
| "puts (_ # es) = puts es"

fun takes :: "block_event list \<Rightarrow> byte list list" where
  "takes [] = []"
| "takes (BTake v # es) = v # takes es"
| "takes (_ # es) = takes es"

lemma refusal_quiet [simp]: "puts (refusal t x) = []" "takes (refusal t x) = []"
  by (cases x; simp)+

lemma block_history_append [simp]:
  "puts (h @ e) = puts h @ puts e" "takes (h @ e) = takes h @ takes e"
proof -
  show "puts (h @ e) = puts h @ puts e" by (induction h rule: puts.induct) simp_all
  show "takes (h @ e) = takes h @ takes e" by (induction h rule: takes.induct) simp_all
qed

section \<open>The operations as functions\<close>

text \<open>
  \<^verbatim>\<open>Push_BlockRingBuf\<close> and \<^verbatim>\<open>Pop_BlockRingBuf\<close> for a caller nobody interferes with: the value
  returned, for a push the thread's \<^verbatim>\<open>errno\<close>, for a pop the object, and the ring; \<open>None\<close> is a
  call that would wait. The steps above
  are the same code cut at its synchronisation and at every byte copied, which
  \<open>block_steps_implement\<close> below confirms.
\<close>

definition Push_BlockRingBuf :: "ring \<Rightarrow> int \<Rightarrow> src \<Rightarrow> size_t \<Rightarrow> (int \<times> int \<times> ring) option" where
  "Push_BlockRingBuf r err args sz =
     (if r_objSize r < sz
      then let err = RINGBUF_PUSH_SIZE_TOO_LARGE in Some (err, err, r)
      else if r_objNum r \<le> r_head r - r_tail r then None
      else
        let r = memcpy_in r (GET_BUFFER r (r_head r AND r_mask r)) args (unat sz);
            head = r_head r;
            r = r\<lparr>r_head := r_head r + 1\<rparr>
        in Some (ssize_of head, err, r))"

definition Pop_BlockRingBuf :: "ring \<Rightarrow> size_t \<Rightarrow> (int \<times> byte list option \<times> ring) option" where
  "Pop_BlockRingBuf r sz =
     (if r_objSize r < sz then Some (RINGBUF_POP_SIZE_TOO_LARGE, None, r)
      else if r_head r = r_tail r then None
      else
        let buf = memcpy_out r (GET_BUFFER r (r_tail r AND r_mask r)) (unat sz);
            tail = r_tail r;
            r = r\<lparr>r_tail := r_tail r + 1\<rparr>
        in Some (ssize_of tail, Some buf, r))"

section \<open>The invariant\<close>

text \<open>The threads inside the critical section.\<close>

fun in_section :: "block_pc \<Rightarrow> bool" where
  "in_section (BTest x) = True"
| "in_section (BCopyIn args sz i) = True"
| "in_section (BCopyOut sz buf) = True"
| "in_section (BSignal c v) = True"
| "in_section (BUnlock v) = True"
| "in_section _ = False"

fun waits_on :: "cond \<Rightarrow> block_pc \<Rightarrow> bool" where
  "waits_on c (BWait x) \<longleftrightarrow> op_cond x = c"
| "waits_on c _ \<longleftrightarrow> False"

text \<open>
  The threads that will use up a free place (\<open>Writeable\<close>) or an object (\<open>Readable\<close>), and those
  about to signal that there is one.
\<close>

fun helps :: "cond \<Rightarrow> block_pc \<Rightarrow> bool" where
  "helps c (BTest x) \<longleftrightarrow> op_cond x = c"
| "helps c (BRelock x) \<longleftrightarrow> op_cond x = c"
| "helps c (BCopyIn args sz i) \<longleftrightarrow> c = Writeable"
| "helps c (BCopyOut sz buf) \<longleftrightarrow> c = Readable"
| "helps c (BSignal c' v) \<longleftrightarrow> c' = c"
| "helps c _ \<longleftrightarrow> False"

text \<open>
  No wake-up is lost: while a thread is asleep on a condition, every one of the \<open>n\<close> places or
  objects it could use is accounted for by a thread that is awake.
\<close>

definition wake_inv :: "(nat \<Rightarrow> block_pc) \<Rightarrow> cond \<Rightarrow> nat \<Rightarrow> bool" where
  "wake_inv pcs c n \<longleftrightarrow> (\<exists>t. waits_on c (pcs t)) \<longrightarrow> n \<le> card {t. helps c (pcs t)}"

fun room :: "ring \<Rightarrow> byte list list \<Rightarrow> byte list list \<Rightarrow> cond \<Rightarrow> nat" where
  "room r P Q Writeable = length Q + cap r - length P"
| "room r P Q Readable = length P - length Q"

definition block_ring_inv :: "ring \<Rightarrow> byte list list \<Rightarrow> byte list list \<Rightarrow> bool" where
  "block_ring_inv r P Q \<longleftrightarrow> ring_wf r \<and> r_head r = of_nat (length P) \<and> r_tail r = of_nat (length Q) \<and>
     length Q \<le> length P \<and> length P \<le> length Q + cap r \<and>
     (\<forall>k. length Q \<le> k \<and> k < length P \<longrightarrow> holds_bytes r k (P ! k)) \<and>
     list_all2 agree (take (length Q) P) Q"

fun block_pc_ok :: "ring \<Rightarrow> byte list list \<Rightarrow> byte list list \<Rightarrow> block_pc \<Rightarrow> bool" where
  "block_pc_ok r P Q (BLock x) \<longleftrightarrow> unat (op_size x) \<le> osz r"
| "block_pc_ok r P Q (BTest x) \<longleftrightarrow> unat (op_size x) \<le> osz r"
| "block_pc_ok r P Q (BWait x) \<longleftrightarrow> unat (op_size x) \<le> osz r"
| "block_pc_ok r P Q (BRelock x) \<longleftrightarrow> unat (op_size x) \<le> osz r"
| "block_pc_ok r P Q (BCopyIn args sz i) \<longleftrightarrow> unat sz \<le> osz r \<and> i \<le> unat sz \<and>
     length P < length Q + cap r \<and> holds_bytes r (length P) (map args [0..<i])"
| "block_pc_ok r P Q (BCopyOut sz buf) \<longleftrightarrow> unat sz \<le> osz r \<and> length buf \<le> unat sz \<and>
     length Q < length P \<and> holds_bytes r (length Q) buf"
| "block_pc_ok r P Q _ \<longleftrightarrow> True"

definition block_inv :: "byte list list \<Rightarrow> byte list list \<Rightarrow> block_sys \<Rightarrow> bool" where
  "block_inv P Q s \<longleftrightarrow> block_ring_inv (b_ring s) P Q \<and>
     (\<forall>t. in_section (b_pcs s t) \<longleftrightarrow> b_mutex s = Some t) \<and>
     (\<forall>t. block_pc_ok (b_ring s) P Q (b_pcs s t)) \<and>
     finite {t. b_pcs s t \<noteq> BIdle} \<and>
     (\<forall>c. wake_inv (b_pcs s) c (room (b_ring s) P Q c))"

section \<open>Every step preserves the invariant\<close>

lemma helps_finite: "finite {t. pcs t \<noteq> BIdle} \<Longrightarrow> finite {t. helps c (pcs t)}"
  by (erule rev_finite_subset) auto

lemma wake_upd:
  assumes "wake_inv pcs c n" "finite {t. pcs t \<noteq> BIdle}" "waits_on c q \<longrightarrow> waits_on c (pcs u)"
    and "n' + (if helps c (pcs u) then 1 else 0) \<le> n + (if helps c q then 1 else 0)"
  shows "wake_inv (pcs(u := q)) c n'"
proof (unfold wake_inv_def, rule impI)
  assume "\<exists>t. waits_on c ((pcs(u := q)) t)"
  then have "\<exists>t. waits_on c (pcs t)" using assms(3) by (auto split: if_splits)
  then have "n \<le> card {t. helps c (pcs t)}" using assms(1) by (simp add: wake_inv_def)
  moreover have "card {t. helps c ((pcs(u := q)) t)} + (if helps c (pcs u) then 1 else 0) =
      card {t. helps c (pcs t)} + (if helps c ((pcs(u := q)) u) then 1 else 0)"
    by (rule card_upd [OF helps_finite [OF assms(2)]]) simp
  ultimately show "n' \<le> card {t. helps c ((pcs(u := q)) t)}"
    using assms(4) by (simp split: if_splits)
qed

lemma wake_0: "wake_inv pcs c 0"
  by (simp add: wake_inv_def)

lemma finite_upd: "finite {t. pcs t \<noteq> BIdle} \<Longrightarrow> finite {t. (pcs(u := q)) t \<noteq> BIdle}"
  by (rule finite_subset [of _ "insert u {t. pcs t \<noteq> BIdle}"]) auto

lemma section_upd:
  "(\<forall>u. in_section (pcs u) \<longleftrightarrow> m = Some u) \<Longrightarrow> (in_section q \<longleftrightarrow> m' = Some t) \<Longrightarrow>
   (\<And>u. u \<noteq> t \<Longrightarrow> m' = Some u \<longleftrightarrow> m = Some u) \<Longrightarrow>
   \<forall>u. in_section ((pcs(t := q)) u) \<longleftrightarrow> m' = Some u"
  by auto

lemma block_parts:
  assumes "block_inv P Q s"
  shows "block_ring_inv (b_ring s) P Q" "in_section (b_pcs s t) \<longleftrightarrow> b_mutex s = Some t"
    "block_pc_ok (b_ring s) P Q (b_pcs s t)" "finite {t. b_pcs s t \<noteq> BIdle}"
    "wake_inv (b_pcs s) c (room (b_ring s) P Q c)"
  using assms by (simp_all add: block_inv_def)

text \<open>A step that leaves the ring alone.\<close>

lemma block_inv_moved:
  assumes inv: "block_inv P Q s"
    and mutex: "in_section q \<longleftrightarrow> m' = Some t" "\<And>u. u \<noteq> t \<Longrightarrow> m' = Some u \<longleftrightarrow> b_mutex s = Some u"
    and ok: "block_pc_ok (b_ring s) P Q q"
    and wake: "\<And>c. wake_inv ((b_pcs s)(t := q)) c (room (b_ring s) P Q c)"
  shows "block_inv P Q (goes (s\<lparr>b_mutex := m'\<rparr>) t q)"
proof -
  have "\<forall>u. in_section (((b_pcs s)(t := q)) u) \<longleftrightarrow> m' = Some u"
    by (rule section_upd [of _ "b_mutex s"]) (use inv mutex in \<open>simp_all add: block_inv_def\<close>)
  moreover note finite_upd [OF block_parts(4) [OF inv], of t q]
  ultimately show ?thesis using inv ok wake by (simp add: block_inv_def)
qed

lemma block_inv_local:
  assumes inv: "block_inv P Q s"
    and mutex: "in_section q \<longleftrightarrow> m' = Some t" "\<And>u. u \<noteq> t \<Longrightarrow> m' = Some u \<longleftrightarrow> b_mutex s = Some u"
    and ok: "block_pc_ok (b_ring s) P Q q"
    and wake: "\<And>c. room (b_ring s) P Q c = 0 \<or>
      (waits_on c q \<longrightarrow> waits_on c (b_pcs s t)) \<and> (helps c (b_pcs s t) \<longrightarrow> helps c q)"
  shows "block_inv P Q (goes (s\<lparr>b_mutex := m'\<rparr>) t q)"
proof (rule block_inv_moved [OF inv mutex ok])
  show "wake_inv ((b_pcs s)(t := q)) c (room (b_ring s) P Q c)" for c
    using wake [of c] wake_upd [OF block_parts(5) [OF inv] block_parts(4) [OF inv], of c q t "room (b_ring s) P Q c"]
      wake_0 [of "(b_pcs s)(t := q)" c]
    by auto
qed

text \<open>The same when the mutex changes no hands.\<close>

lemma block_inv_keep:
  assumes "block_inv P Q s" "in_section q = in_section (b_pcs s t)" "block_pc_ok (b_ring s) P Q q"
    and "\<And>c. room (b_ring s) P Q c = 0 \<or>
      (waits_on c q \<longrightarrow> waits_on c (b_pcs s t)) \<and> (helps c (b_pcs s t) \<longrightarrow> helps c q)"
  shows "block_inv P Q (goes s t q)"
  using block_inv_local [OF assms(1) _ _ assms(3,4), of "b_mutex s"] assms(2) block_parts(2) [OF assms(1), of t]
  by simp

lemma must_wait_room:
  assumes "block_ring_inv r P Q"
  shows "must_wait x r \<longleftrightarrow> room r P Q (op_cond x) = 0"
proof -
  have bounds: "length Q \<le> length P" "length P \<le> length Q + cap r" "ring_wf r"
    and pos: "r_head r = of_nat (length P)" "r_tail r = of_nat (length Q)"
    using assms by (simp_all add: block_ring_inv_def)
  have small: "length P - length Q < 2 ^ 64" using bounds wf_cap_le [OF bounds(3)] by simp
  have diff: "unat (r_head r - r_tail r) = length P - length Q"
    unfolding pos by (rule unat_ticket_diff [OF bounds(1) small])
  show ?thesis
  proof (cases x)
    case (Push args sz)
    have "r_objNum r \<le> r_head r - r_tail r \<longleftrightarrow> cap r \<le> length P - length Q"
      by (simp add: unat_le_iff diff cap_def)
    then show ?thesis using Push bounds by auto
  next
    case (Pop sz)
    have "r_head r = r_tail r \<longleftrightarrow> length P = length Q"
      using ticket_inject [OF _ bounds(1) small] pos by auto
    then show ?thesis using Pop bounds by auto
  qed
qed

lemma block_inv_copying:
  assumes inv: "block_inv P Q s" and t: "b_pcs s t = BTest x" and free: "\<not> must_wait x (b_ring s)"
  shows "block_inv P Q (goes s t (copying x))"
proof (rule block_inv_keep [OF inv])
  have "room (b_ring s) P Q (op_cond x) \<noteq> 0" using must_wait_room block_parts(1) [OF inv] free by blast
  moreover have "unat (op_size x) \<le> osz (b_ring s)" using block_parts(3) [OF inv, of t] t by simp
  ultimately show "block_pc_ok (b_ring s) P Q (copying x)" by (cases x) auto
  show "in_section (copying x) = in_section (b_pcs s t)" by (cases x) (simp_all add: t)
  show "room (b_ring s) P Q c = 0 \<or> (waits_on c (copying x) \<longrightarrow> waits_on c (b_pcs s t)) \<and>
      (helps c (b_pcs s t) \<longrightarrow> helps c (copying x))" for c
    by (cases x) (auto simp: t)
qed

lemma block_inv_signal:
  assumes inv: "block_inv P Q s" and t: "b_pcs s t = BSignal c v" and u: "b_pcs s u = BWait x" "op_cond x = c"
  shows "block_inv P Q (goes (goes s u (BRelock x)) t (BUnlock v))"
proof -
  let ?pcs = "(b_pcs s)(u := BRelock x)"
  have tu: "t \<noteq> u" using t u by auto
  have woken: "block_inv P Q (goes s u (BRelock x))"
    by (rule block_inv_keep [OF inv]) (use u block_parts(3) [OF inv, of u] in auto)
  have "wake_inv (?pcs(t := BUnlock v)) d (room (b_ring s) P Q d)" for d
  proof -
    have "wake_inv ?pcs d (room (b_ring s) P Q d + (if d = c then 1 else 0))"
      by (rule wake_upd [OF block_parts(5) [OF inv] block_parts(4) [OF inv]]) (use u in auto)
    then show ?thesis
      by (rule wake_upd [OF _ finite_upd [OF block_parts(4) [OF inv]]]) (use t tu in auto)
  qed
  moreover have "\<forall>w. in_section ((?pcs(t := BUnlock v)) w) \<longleftrightarrow> b_mutex s = Some w"
    by (rule section_upd [of _ "b_mutex s"]) (use woken t block_parts(2) [OF inv, of t] in \<open>simp_all add: block_inv_def\<close>)
  moreover note finite_upd [OF finite_upd [OF block_parts(4) [OF inv]], of u "BRelock x" t "BUnlock v"]
  moreover have "\<forall>w. block_pc_ok (b_ring s) P Q ((?pcs(t := BUnlock v)) w)"
    using woken by (simp add: block_inv_def)
  moreover have "block_ring_inv (b_ring s) P Q" by (rule block_parts [OF inv])
  ultimately show ?thesis by (simp add: block_inv_def del: fun_upd_apply)
qed

lemma block_inv_nobody:
  assumes inv: "block_inv P Q s" and t: "b_pcs s t = BSignal c v"
    and nobody: "\<And>u x. b_pcs s u = BWait x \<Longrightarrow> op_cond x \<noteq> c"
  shows "block_inv P Q (goes s t (BUnlock v))"
proof -
  have "wake_inv ((b_pcs s)(t := BUnlock v)) d (room (b_ring s) P Q d)" for d
  proof (cases "d = c")
    case True
    have "\<not> waits_on c (((b_pcs s)(t := BUnlock v)) u)" for u
      using nobody by (cases "b_pcs s u") (auto split: if_splits)
    then show ?thesis using True by (simp add: wake_inv_def)
  next
    case False
    then show ?thesis
      by (intro wake_upd [OF block_parts(5) [OF inv] block_parts(4) [OF inv]]) (use t in auto)
  qed
  moreover have "in_section (BUnlock v) \<longleftrightarrow> b_mutex s = Some t"
    using block_parts(2) [OF inv, of t] t by simp
  ultimately have "block_inv P Q (goes (s\<lparr>b_mutex := b_mutex s\<rparr>) t (BUnlock v))"
    by (intro block_inv_moved [OF inv]) (simp_all add: t)
  moreover have "s\<lparr>b_mutex := b_mutex s\<rparr> = s" by simp
  ultimately show ?thesis by (simp only:)
qed

text \<open>Within the section, a thread's ticket is the position it will move.\<close>

lemma section_alone:
  assumes "block_inv P Q s" "in_section (b_pcs s t)" "u \<noteq> t"
  shows "\<not> in_section (b_pcs s u)"
  using block_parts(2) [OF assms(1), of t] block_parts(2) [OF assms(1), of u] assms(2,3) by auto

lemma block_pc_ok_outside:
  "\<not> in_section pc \<Longrightarrow> osz r' = osz r \<Longrightarrow> block_pc_ok r' P' Q' pc = block_pc_ok r P Q pc"
  by (cases pc) auto

text \<open>A step of the thread in the section that changes the ring and moves a position or none.\<close>

lemma block_inv_ring:
  assumes inv: "block_inv P Q s" and t: "in_section (b_pcs s t)" and q: "in_section q"
    and ring: "block_ring_inv r P' Q'" "geom r = geom (b_ring s)" "block_pc_ok r P' Q' q"
    and wake: "\<And>c. \<not> waits_on c q"
      "\<And>c. room r P' Q' c + (if helps c (b_pcs s t) then 1 else 0) \<le>
        room (b_ring s) P Q c + (if helps c q then 1 else 0)"
  shows "block_inv P' Q' (goes (s\<lparr>b_ring := r\<rparr>) t q)"
proof -
  have "wake_inv ((b_pcs s)(t := q)) c (room r P' Q' c)" for c
    by (rule wake_upd [OF block_parts(5) [OF inv] block_parts(4) [OF inv] _ wake(2)]) (simp add: wake(1))
  moreover have "\<forall>u. in_section (((b_pcs s)(t := q)) u) \<longleftrightarrow> b_mutex s = Some u"
    by (rule section_upd [of _ "b_mutex s"])
      (use inv t q block_parts(2) [OF inv, of t] in \<open>simp_all add: block_inv_def\<close>)
  moreover have "block_pc_ok r P' Q' (((b_pcs s)(t := q)) u)" for u
    using ring(3) block_parts(3) [OF inv, of u] section_alone [OF inv t, of u]
      block_pc_ok_outside [OF _ geom_eqD(7) [OF ring(2)], of "b_pcs s u" P' Q' P Q]
    by (cases "u = t") auto
  moreover note finite_upd [OF block_parts(4) [OF inv], of t q] ring(1)
  ultimately show ?thesis by (simp add: block_inv_def)
qed

lemma block_elem_addr: "GET_BUFFER r (of_nat k AND r_mask r) = elem_addr r k"
  by (simp add: elem_addr_def)

lemma block_inv_copy_in:
  assumes inv: "block_inv P Q s" and t: "b_pcs s t = BCopyIn args sz i" "i < unat sz"
  shows "block_inv P Q (goes (s\<lparr>b_ring := write_byte (b_ring s)
    (GET_BUFFER (b_ring s) (r_head (b_ring s) AND r_mask (b_ring s)) + of_nat i) (args i)\<rparr>) t
    (BCopyIn args sz (Suc i)))"
proof -
  let ?old = "b_ring s" and ?H = "length P"
  let ?r = "write_byte ?old (GET_BUFFER ?old (r_head ?old AND r_mask ?old) + of_nat i) (args i)"
  note ri = block_parts(1) [OF inv]
  have wf: "ring_wf ?old" using ri by (simp add: block_ring_inv_def)
  have addr: "GET_BUFFER ?old (r_head ?old AND r_mask ?old) = elem_addr ?old ?H"
    using ri by (simp add: block_ring_inv_def block_elem_addr)
  have ok: "unat sz \<le> osz ?old" "?H < length Q + cap ?old" "holds_bytes ?old ?H (map args [0..<i])"
    using block_parts(3) [OF inv, of t] t by simp_all
  have "holds_bytes ?r ?H (map args [0..<i] @ [args i])"
    using holds_bytes_write_next [OF wf _ ok(3), of "args i"] t(2) ok(1) by (simp add: addr)
  moreover have "holds_bytes ?r k (P ! k)" if "length Q \<le> k" "k < ?H" for k
  proof -
    have "holds_bytes ?old k (P ! k)" using ri that by (simp add: block_ring_inv_def)
    moreover have "k mod cap ?old \<noteq> ?H mod cap ?old" using mod_less_distinct [of k ?H "cap ?old"] that ok(2) by simp
    ultimately show ?thesis using holds_bytes_write_other [OF wf, of i k ?H] t(2) ok(1) by (simp add: addr)
  qed
  ultimately have ring: "block_ring_inv ?r P Q" and pc: "block_pc_ok ?r P Q (BCopyIn args sz (Suc i))"
    using ri t(2) ok(1,2) by (auto simp: block_ring_inv_def)
  have "room ?r P Q c = room ?old P Q c" for c by (cases c) simp_all
  then show ?thesis
    by (intro block_inv_ring [OF inv _ _ ring _ pc]) (simp_all add: t)
qed

lemma block_inv_put:
  assumes inv: "block_inv P Q s" and t: "b_pcs s t = BCopyIn args sz i" "\<not> i < unat sz"
  shows "block_inv (P @ [map args [0..<unat sz]]) Q
    (goes (s\<lparr>b_ring := (b_ring s)\<lparr>r_head := r_head (b_ring s) + 1\<rparr>\<rparr>) t (BSignal Readable v))"
proof -
  note ri = block_parts(1) [OF inv]
  have "i = unat sz" "length P < length Q + cap (b_ring s)" "holds_bytes (b_ring s) (length P) (map args [0..<i])"
    using block_parts(3) [OF inv, of t] t by auto
  then have ok: "length P < length Q + cap (b_ring s)" "holds_bytes (b_ring s) (length P) (map args [0..<unat sz])"
    by blast+
  show ?thesis
  proof (rule block_inv_ring [OF inv])
    show "room ((b_ring s)\<lparr>r_head := r_head (b_ring s) + 1\<rparr>) (P @ [map args [0..<unat sz]]) Q c +
        (if helps c (b_pcs s t) then 1 else 0) \<le>
        room (b_ring s) P Q c + (if helps c (BSignal Readable v) then 1 else 0)" for c
      using ok(1) by (cases c) (simp_all add: t)
  qed (use ri t ok in \<open>auto simp: block_ring_inv_def nth_append add.commute less_Suc_eq\<close>)
qed

lemma block_inv_take:
  assumes inv: "block_inv P Q s" and t: "b_pcs s t = BCopyOut sz buf" "\<not> length buf < unat sz"
  shows "block_inv P (Q @ [buf])
    (goes (s\<lparr>b_ring := (b_ring s)\<lparr>r_tail := r_tail (b_ring s) + 1\<rparr>\<rparr>) t (BSignal Writeable v))"
proof -
  note ri = block_parts(1) [OF inv]
  have ok: "length Q < length P" "holds_bytes (b_ring s) (length Q) buf"
    using block_parts(3) [OF inv, of t] t by simp_all
  then have "agree (P ! length Q) buf"
    using ri holds_bytes_agree by (auto simp: block_ring_inv_def)
  then have "list_all2 agree (take (Suc (length Q)) P) (Q @ [buf])"
    using ri ok(1) by (simp add: block_ring_inv_def take_Suc_conv_app_nth list_all2_appendI)
  note list = this
  show ?thesis
  proof (rule block_inv_ring [OF inv])
    show "room ((b_ring s)\<lparr>r_tail := r_tail (b_ring s) + 1\<rparr>) P (Q @ [buf]) c +
        (if helps c (b_pcs s t) then 1 else 0) \<le>
        room (b_ring s) P Q c + (if helps c (BSignal Writeable v) then 1 else 0)" for c
      using ok(1) by (cases c) (simp_all add: t)
  qed (use ri t ok list in \<open>auto simp: block_ring_inv_def add.commute\<close>)
qed

lemma block_inv_copy_out:
  assumes inv: "block_inv P Q s" and t: "b_pcs s t = BCopyOut sz buf" "length buf < unat sz"
  shows "block_inv P Q (goes s t (BCopyOut sz (buf @ [bytes (b_ring s)
    (GET_BUFFER (b_ring s) (r_tail (b_ring s) AND r_mask (b_ring s)) + of_nat (length buf))])))"
proof -
  let ?r = "b_ring s"
  have addr: "bytes ?r (GET_BUFFER ?r (r_tail ?r AND r_mask ?r) + of_nat (length buf)) =
      byte_at ?r (length Q) (length buf)"
    using block_parts(1) [OF inv] by (simp add: block_ring_inv_def block_elem_addr byte_at_def)
  have ok: "unat sz \<le> osz ?r" "length Q < length P" "holds_bytes ?r (length Q) buf"
    using block_parts(3) [OF inv, of t] t by simp_all
  then have "holds_bytes ?r (length Q) (buf @ [byte_at ?r (length Q) (length buf)])"
    using t(2) by (intro holds_bytes_read) simp_all
  then show ?thesis unfolding addr by (intro block_inv_keep [OF inv]) (use t ok in auto)
qed

lemma block_inv_step:
  assumes "block_step s e s'" "block_inv P Q s"
  shows "block_inv (P @ puts e) (Q @ takes e) s'"
  using assms(1)
proof (cases rule: block_step.cases)
  case (call t x)
  then show ?thesis
    using assms(2) by (auto simp: unat_le_iff osz_def not_less intro!: block_inv_keep)
next
  case (lock t x)
  then show ?thesis
    using block_inv_local [OF assms(2), of "BTest x" "Some t" t] block_parts(3) [OF assms(2), of t] by auto
next
  case (cond_wait t x)
  then have "room (b_ring s) P Q (op_cond x) = 0"
    using must_wait_room [OF block_parts(1) [OF assms(2)]] by blast
  then show ?thesis
    using cond_wait block_inv_local [OF assms(2), of "BWait x" None t] block_parts(2,3) [OF assms(2), of t]
    by auto
next
  case (relock t x)
  then show ?thesis
    using block_inv_local [OF assms(2), of "BTest x" "Some t" t] block_parts(3) [OF assms(2), of t] by auto
next
  case (wake_up t x)
  then show ?thesis
    using block_inv_keep [OF assms(2), of "BRelock x" t] block_parts(3) [OF assms(2), of t] by auto
next
  case (leave_loop t x)
  then show ?thesis using block_inv_copying [OF assms(2)] by simp
next
  case (copy_in t args sz i r)
  then show ?thesis using block_inv_copy_in [OF assms(2)] by simp
next
  case (put t args sz i r head)
  then show ?thesis using block_inv_put [OF assms(2)] by simp
next
  case (copy_out t sz buf r)
  then show ?thesis using block_inv_copy_out [OF assms(2)] by simp
next
  case (take t sz buf r tail)
  then show ?thesis using block_inv_take [OF assms(2)] by simp
next
  case (signal_nobody t c v)
  then show ?thesis using block_inv_nobody [OF assms(2)] by simp
next
  case (signal t c v u x)
  then show ?thesis using block_inv_signal [OF assms(2)] by simp
next
  case (unlock t v)
  then show ?thesis
    using block_inv_local [OF assms(2), of BIdle None t] block_parts(2) [OF assms(2), of t] by auto
qed (use assms(2) in simp)

lemma block_inv_steps:
  "block_steps s h s' \<Longrightarrow> block_inv P Q s \<Longrightarrow> block_inv (P @ puts h) (Q @ takes h) s'"
proof (induction rule: block_steps.induct)
  case none
  then show ?case by simp
next
  case (more h s' e s'')
  then show ?case using block_inv_step [of s' e s'' "P @ puts h" "Q @ takes h"] by simp
qed

text \<open>A ring nobody has pushed to yet.\<close>

definition block_ok :: "ring \<Rightarrow> bool" where
  "block_ok r \<longleftrightarrow> ring_wf r \<and> r_head r = 0 \<and> r_tail r = 0"

lemma block_inv_start: "block_ok r \<Longrightarrow> block_inv [] [] (block_start r)"
  by (simp add: block_ok_def block_start_def block_inv_def block_ring_inv_def wake_inv_def)

lemma block_inv_run: "block_ok r \<Longrightarrow> block_steps (block_start r) h s \<Longrightarrow> block_inv (puts h) (takes h) s"
  using block_inv_steps [OF _ block_inv_start] by fastforce

lemma block_step_cap: "block_step s e s' \<Longrightarrow> cap (b_ring s') = cap (b_ring s)"
  by (erule block_step.cases) simp_all

lemma block_steps_cap: "block_steps s h s' \<Longrightarrow> cap (b_ring s') = cap (b_ring s)"
  by (induction rule: block_steps.induct) (simp_all add: block_step_cap)

text \<open>What \<^verbatim>\<open>get_block_buf\<close> initialises is such a ring, if the size computation does not wrap.\<close>

lemma init_block_ok:
  assumes "good_capacity n" "sizeof_BRingBuf (mutex_size E) (cond_size E) + unat n * unat A < 2 ^ 64"
  shows "block_ok (init_block E p A tot n m fd)"
proof -
  have "unat (of_nat (sizeof_BRingBuf (mutex_size E) (cond_size E)) :: size_t) =
      sizeof_BRingBuf (mutex_size E) (cond_size E)"
    using assms(2) by (intro unat_of_nat64) simp
  then show ?thesis
    using assms by (simp add: block_ok_def ring_wf_def init_block_def good_capacity_def cap_def osz_def)
qed

lemma get_block_buf_bad_capacity:
  "n < 2 \<or> n AND (n - 1) \<noteq> 0 \<Longrightarrow>
    get_block_buf E n sz path prot flag s = Some (None, set_errno RINGBUF_CAPACITY_WRONG s)"
  unfolding get_block_buf_def by (simp only: if_P)

lemma get_block_buf_new:
  assumes call: "get_block_buf E n sz path prot flag s = Some (Some r, s')"
    and new: "prot AND MAP_MALLOC \<noteq> 0 \<or> prot AND MAP_EXISTS = 0"
    and fits: "unat sz + 64 \<le> 2 ^ 64"
      "sizeof_BRingBuf (mutex_size E) (cond_size E) + unat n * align_nat 64 (unat sz) < 2 ^ 64"
  shows "block_ok r \<and> cap r = unat n \<and> osz r = align_nat 64 (unat sz)"
proof -
  let ?A = "get_aligned_offset sz CACHE_LINE_SIZE"
  let ?m = "of_nat (sizeof_BRingBuf (mutex_size E) (cond_size E)) + ?A * n"
  have A: "unat ?A = align_nat 64 (unat sz)" using fits(1) by (rule align_cache_line)
  have cap: "\<not> (n < 2 \<or> n AND (n - 1) \<noteq> 0)"
    using call get_block_buf_bad_capacity by (metis not_None_eq option.inject prod.inject)
  note eq = call [unfolded get_block_buf_def Let_def if_not_P [OF cap]]
  from eq obtain x where x: "obtain_memory E ?m prot flag path s = Some x"
    by (cases "obtain_memory E ?m prot flag path s") simp_all
  obtain q fd m b s1 where parts: "x = (q, fd, m, b, s1)" by (metis prod_cases5)
  have "b" using x parts new
    by (auto simp: obtain_memory_def Let_def split: if_splits option.splits prod.splits)
  obtain p where p: "q = Some p" using eq unfolding x parts by (cases q) simp_all
  obtain ok s2 where sync: "init_sync E (\<not> m) s1 = (ok, s2)" by fastforce
  have "r = init_block E p ?A ?m n m fd"
    using eq \<open>b\<close> unfolding x parts p by (cases ok) (simp_all add: sync)
  moreover have "good_capacity n" using cap capacity_accepted_iff by blast
  ultimately show ?thesis
    using init_block_ok [of n E ?A p ?m m fd] fits(2) A
    by (simp add: cap_def osz_def init_block_def)
qed

section \<open>Properties of every schedule\<close>

text \<open>What a history means to a queue, and that every step is one of the queue's.\<close>

fun block_queue :: "block_event list \<Rightarrow> queue_event list" where
  "block_queue [] = []"
| "block_queue (BPut v # es) = Enqueue v # block_queue es"
| "block_queue (BTake v # es) = Dequeue v # block_queue es"
| "block_queue (_ # es) = block_queue es"

lemma block_queue_append: "block_queue (h @ e) = block_queue h @ block_queue e"
  by (induction h rule: block_queue.induct) simp_all

lemma block_queue_sides [simp]: "enqueued (block_queue h) = puts h" "dequeued (block_queue h) = takes h"
  by (induction h rule: block_queue.induct) simp_all

lemma block_queue_no_refusal [simp]: "Refuse_full \<notin> set (block_queue h)" "Refuse_empty \<notin> set (block_queue h)"
  by (induction h rule: block_queue.induct) simp_all

lemma block_one_event: "block_step s e s' \<Longrightarrow> length (block_queue e) \<le> 1"
proof (erule block_step.cases)
  show "length (block_queue e) \<le> 1" if "e = refusal t x" for t x using that by (cases x) simp_all
qed simp_all

lemma block_inv_counts: "block_inv (puts h) (takes h) s \<Longrightarrow> fifo_counts (cap (b_ring s)) (block_queue h)"
  using block_parts(1) by (auto simp: fifo_counts_def block_ring_inv_def)

lemma block_explained:
  assumes "block_steps (block_start r) h s" "block_ok r"
  shows "explained (cap r) (block_queue h)"
  using assms(1)
proof (induction rule: block_steps.induct)
  case (more h s e s')
  have run: "block_steps (block_start r) (h @ e) s'" by (rule block_steps.more [OF more.hyps])
  have "cap (b_ring s) = cap r" "cap (b_ring s') = cap r"
    using block_steps_cap [OF more.hyps(1)] block_steps_cap [OF run] by (simp_all add: block_start_def)
  then show ?case
    using block_inv_counts [OF block_inv_run [OF assms(2) more.hyps(1)]]
      block_inv_counts [OF block_inv_run [OF assms(2) run]] block_one_event [OF more.hyps(2)]
    unfolding block_queue_append by (intro explained_step [OF more.IH]) simp_all
qed simp

text \<open>C6: The blocking ring is a bounded first-in first-out queue for any number of producers and
  consumers and for ever. At any point of any schedule the puts and takes so far are those of one
  bounded queue, each at the instant its position moves: objects come out in the order in which
  they went in, equal to their originals on the bytes both calls moved, and never more than the
  capacity are inside; \<^verbatim>\<open>head_\<close> and \<^verbatim>\<open>tail_\<close> are the two counts modulo \<open>2 ^ 64\<close>; and at most
  one thread is between locking and unlocking the mutex.\<close>

theorem block_fifo:
  assumes "block_ok r" "block_steps (block_start r) h s"
  shows "queue_run (cap r) [] (block_queue h) = Some (drop (length (takes h)) (puts h)) \<and>
    list_all2 agree (take (length (takes h)) (puts h)) (takes h) \<and>
    r_head (b_ring s) = of_nat (length (puts h)) \<and> r_tail (b_ring s) = of_nat (length (takes h)) \<and>
    (\<forall>t u. in_section (b_pcs s t) \<and> in_section (b_pcs s u) \<longrightarrow> t = u)"
proof -
  note inv = block_inv_run [OF assms]
  have "cap (b_ring s) = cap r" using block_steps_cap [OF assms(2)] by (simp add: block_start_def)
  moreover have "t = u" if "in_section (b_pcs s t)" "in_section (b_pcs s u)" for t u
    using section_alone [OF inv that(1), of u] that(2) by blast
  moreover have "queue_run (cap r) [] (block_queue h) = Some (drop (length (takes h)) (puts h))"
    using block_explained [OF assms(2,1)] by (simp add: explained_def)
  ultimately show ?thesis using block_parts(1) [OF inv] by (auto simp: block_ring_inv_def)
qed

section \<open>A call running alone\<close>

lemma block_steps_trans:
  "block_steps s' h' s'' \<Longrightarrow> block_steps s h s' \<Longrightarrow> block_steps s (h @ h') s''"
proof (induction rule: block_steps.induct)
  case none
  then show ?case by simp
next
  case (more h1 u e u')
  then show ?case using block_steps.more [of s "h @ h1" u e u'] by simp
qed

lemma block_steps_one: "block_step s e s' \<Longrightarrow> block_steps s e s'"
  using block_steps.more [OF block_steps.none] by simp

text \<open>Into the copy when the operation need not wait, asleep when it must.\<close>

lemma block_enter:
  assumes "b_pcs s t = BIdle" "b_mutex s = None" "\<not> r_objSize (b_ring s) < op_size x"
  shows "block_steps s [] (goes (s\<lparr>b_mutex := Some t\<rparr>) t (BTest x))"
proof -
  have "block_steps s [] (goes s t (BLock x))"
    using block_steps_one [OF block_step.call [OF assms(1,3)]] .
  moreover have "block_step (goes s t (BLock x)) [] (goes (s\<lparr>b_mutex := Some t\<rparr>) t (BTest x))"
    using block_step.lock [of "goes s t (BLock x)" t x] assms(2) by simp
  ultimately show ?thesis using block_steps.more by fastforce
qed

lemma goes_here: "b_pcs s t = pc \<Longrightarrow> goes s t pc = s"
  by (rule block_sys.equality) (auto simp: fun_eq_iff)

lemma block_copy_in_all:
  assumes "b_pcs s t = BCopyIn args sz 0" "n \<le> unat sz"
  shows "block_steps s [] (goes (s\<lparr>b_ring := memcpy_in (b_ring s)
    (GET_BUFFER (b_ring s) (r_head (b_ring s) AND r_mask (b_ring s))) args n\<rparr>) t (BCopyIn args sz n))"
  using assms(2)
proof (induction n)
  case 0
  show ?case using goes_here [OF assms(1)] block_steps.none by (simp del: fun_upd_apply)
next
  case (Suc n)
  let ?a = "GET_BUFFER (b_ring s) (r_head (b_ring s) AND r_mask (b_ring s))"
  let ?s = "goes (s\<lparr>b_ring := memcpy_in (b_ring s) ?a args n\<rparr>) t (BCopyIn args sz n)"
  have "block_step ?s [] (goes (s\<lparr>b_ring := memcpy_in (b_ring s) ?a args (Suc n)\<rparr>) t (BCopyIn args sz (Suc n)))"
    using block_step.copy_in [of ?s t args sz n "b_ring ?s"] Suc.prems by simp
  from block_steps.more [OF Suc.IH this] Suc.prems show ?case by (simp del: fun_upd_apply)
qed

lemma block_copy_out_all:
  assumes "b_pcs s t = BCopyOut sz []" "n \<le> unat sz"
  shows "block_steps s [] (goes s t (BCopyOut sz (memcpy_out (b_ring s)
    (GET_BUFFER (b_ring s) (r_tail (b_ring s) AND r_mask (b_ring s))) n)))"
  using assms(2)
proof (induction n)
  case 0
  show ?case using goes_here [OF assms(1)] block_steps.none by (simp add: memcpy_out_0 del: fun_upd_apply)
next
  case (Suc n)
  let ?a = "GET_BUFFER (b_ring s) (r_tail (b_ring s) AND r_mask (b_ring s))"
  let ?s = "goes s t (BCopyOut sz (memcpy_out (b_ring s) ?a n))"
  have "block_step ?s [] (goes s t (BCopyOut sz (memcpy_out (b_ring s) ?a (Suc n))))"
    using block_step.copy_out [of ?s t sz "memcpy_out (b_ring s) ?a n" "b_ring ?s"] Suc.prems
    by (simp add: memcpy_out_def)
  from block_steps.more [OF Suc.IH this] Suc.prems show ?case by (simp del: fun_upd_apply)
qed

text \<open>Who is woken by a call that returns: nobody, or one thread asleep on the condition.\<close>

definition wakes :: "cond \<Rightarrow> (nat \<Rightarrow> block_pc) \<Rightarrow> (nat \<Rightarrow> block_pc) \<Rightarrow> bool" where
  "wakes c pcs pcs' \<longleftrightarrow> pcs' = pcs \<and> (\<forall>u. \<not> waits_on c (pcs u)) \<or>
     (\<exists>u x. pcs u = BWait x \<and> op_cond x = c \<and> pcs' = pcs(u := BRelock x))"

lemma block_finish:
  assumes "b_pcs s t = BSignal c v"
  shows "\<exists>s'. block_steps s [BRet t v] s' \<and> b_ring s' = b_ring s \<and> b_mutex s' = None \<and>
    wakes c ((b_pcs s)(t := BIdle)) (b_pcs s')"
proof (cases "\<exists>u x. b_pcs s u = BWait x \<and> op_cond x = c")
  case True
  then obtain u x where u: "b_pcs s u = BWait x" "op_cond x = c" by blast
  let ?s = "goes (goes s u (BRelock x)) t (BUnlock v)"
  have "u \<noteq> t" using u assms by auto
  then have "wakes c ((b_pcs s)(t := BIdle)) ((b_pcs ?s)(t := BIdle))"
    unfolding wakes_def by (intro disjI2 exI [of _ u] exI [of _ x]) (auto simp: u)
  moreover have "block_step ?s [BRet t v] (goes (?s\<lparr>b_mutex := None\<rparr>) t BIdle)"
    by (rule block_step.unlock) simp
  from block_steps.more [OF block_steps_one [OF block_step.signal [OF assms u]] this]
  have "block_steps s [BRet t v] (goes (?s\<lparr>b_mutex := None\<rparr>) t BIdle)" by simp
  ultimately show ?thesis by (intro exI [of _ "goes (?s\<lparr>b_mutex := None\<rparr>) t BIdle"]) simp
next
  case False
  let ?s = "goes s t (BUnlock v)"
  have quiet: "\<not> waits_on c (((b_pcs s)(t := BIdle)) u)" for u
    using False by (cases "b_pcs s u") auto
  have "block_step ?s [BRet t v] (goes (?s\<lparr>b_mutex := None\<rparr>) t BIdle)"
    by (rule block_step.unlock) simp
  moreover have "block_steps s [] ?s"
    using False by (intro block_steps_one block_step.signal_nobody [OF assms]) auto
  ultimately have "block_steps s [BRet t v] (goes (?s\<lparr>b_mutex := None\<rparr>) t BIdle)"
    using block_steps.more by fastforce
  then show ?thesis using quiet
    by (intro exI [of _ "goes (?s\<lparr>b_mutex := None\<rparr>) t BIdle"]) (simp add: wakes_def)
qed

text \<open>A call from an idle thread, as far as the loop's test lets it go.\<close>

lemma block_asleep:
  assumes "b_pcs s t = BIdle" "b_mutex s = None" "\<not> r_objSize (b_ring s) < op_size x" "must_wait x (b_ring s)"
  shows "block_steps s [] (goes s t (BWait x))"
proof -
  have "s\<lparr>b_mutex := None\<rparr> = s" using assms(2) by (simp add: block_sys.equality)
  then show ?thesis
    using block_steps.more [OF block_enter [OF assms(1-3)] block_step.cond_wait [of _ t x]] assms(4)
    by (simp del: fun_upd_apply add: fun_upd_same)
qed

lemma block_inside:
  assumes "b_pcs s t = BIdle" "b_mutex s = None" "\<not> r_objSize (b_ring s) < op_size x" "\<not> must_wait x (b_ring s)"
  shows "block_steps s [] (goes (s\<lparr>b_mutex := Some t\<rparr>) t (copying x))"
  using block_steps.more [OF block_enter [OF assms(1-3)] block_step.leave_loop [of _ t x]] assms(4)
  by (simp del: fun_upd_apply add: fun_upd_same)

lemma block_leave:
  assumes "b_pcs s t = BIdle" "block_steps s h (goes (s\<lparr>b_mutex := Some t, b_ring := r\<rparr>) t (BSignal c v))"
  shows "\<exists>s'. block_steps s (h @ [BRet t v]) s' \<and> b_ring s' = r \<and> b_mutex s' = None \<and>
    wakes c (b_pcs s) (b_pcs s')"
proof -
  let ?s = "goes (s\<lparr>b_mutex := Some t, b_ring := r\<rparr>) t (BSignal c v)"
  obtain s' where s': "block_steps ?s [BRet t v] s'" "b_ring s' = r" "b_mutex s' = None"
    "wakes c ((b_pcs ?s)(t := BIdle)) (b_pcs s')"
    using block_finish [of ?s t c v] by (auto simp del: fun_upd_apply simp add: fun_upd_same)
  have "(b_pcs ?s)(t := BIdle) = b_pcs s" using assms(1) by (auto simp: fun_eq_iff)
  with s' block_steps_trans [OF s'(1) assms(2)] show ?thesis by auto
qed

lemma block_push_alone:
  assumes "b_pcs s t = BIdle" "b_mutex s = None" "sz \<le> r_objSize (b_ring s)"
    and "Push_BlockRingBuf (b_ring s) err args sz = Some (v, err', r)"
  shows "err' = err \<and> (\<exists>s'. block_steps s [BPut (map args [0..<unat sz]), BRet t v] s' \<and> b_ring s' = r \<and>
    b_mutex s' = None \<and> wakes Readable (b_pcs s) (b_pcs s'))"
proof -
  let ?old = "b_ring s"
  let ?m = "memcpy_in ?old (GET_BUFFER ?old (r_head ?old AND r_mask ?old)) args (unat sz)"
  have go: "\<not> must_wait (Push args sz) ?old" and fits: "\<not> r_objSize ?old < op_size (Push args sz)"
    and v: "v = ssize_of (r_head ?m)" "err' = err" and r: "r = ?m\<lparr>r_head := r_head ?m + 1\<rparr>"
    using assms(3,4) by (auto simp: Push_BlockRingBuf_def Let_def not_less split: if_splits)
  let ?s = "goes (s\<lparr>b_mutex := Some t\<rparr>) t (copying (Push args sz))"
  have "block_steps ?s [] (goes (s\<lparr>b_mutex := Some t, b_ring := ?m\<rparr>) t (BCopyIn args sz (unat sz)))"
    using block_copy_in_all [of ?s t args sz "unat sz"] by (simp del: fun_upd_apply add: fun_upd_same)
  from block_steps_trans [OF this block_inside [OF assms(1,2) fits go]]
  have "block_steps s [] (goes (s\<lparr>b_mutex := Some t, b_ring := ?m\<rparr>) t (BCopyIn args sz (unat sz)))" by simp
  from block_steps.more [OF this block_step.put [of _ t args sz "unat sz"]]
  have "block_steps s [BPut (map args [0..<unat sz])]
      (goes (s\<lparr>b_mutex := Some t, b_ring := r\<rparr>) t (BSignal Readable v))"
    by (simp del: fun_upd_apply add: fun_upd_same r v)
  from block_leave [OF assms(1) this] v(2) show ?thesis by simp
qed

lemma block_pop_alone:
  assumes "b_pcs s t = BIdle" "b_mutex s = None" "sz \<le> r_objSize (b_ring s)"
    and "Pop_BlockRingBuf (b_ring s) sz = Some (v, Some buf, r)"
  shows "\<exists>s'. block_steps s [BTake buf, BRet t v] s' \<and> b_ring s' = r \<and>
    b_mutex s' = None \<and> wakes Writeable (b_pcs s) (b_pcs s')"
proof -
  let ?old = "b_ring s"
  have go: "\<not> must_wait (Pop sz) ?old" and fits: "\<not> r_objSize ?old < op_size (Pop sz)"
    and v: "v = ssize_of (r_tail ?old)" and r: "r = ?old\<lparr>r_tail := r_tail ?old + 1\<rparr>"
    and buf: "buf = memcpy_out ?old (GET_BUFFER ?old (r_tail ?old AND r_mask ?old)) (unat sz)"
    using assms(3,4) by (auto simp: Pop_BlockRingBuf_def Let_def not_less split: if_splits)
  let ?s = "goes (s\<lparr>b_mutex := Some t\<rparr>) t (copying (Pop sz))"
  have "block_steps ?s [] (goes (s\<lparr>b_mutex := Some t\<rparr>) t (BCopyOut sz buf))"
    using block_copy_out_all [of ?s t sz "unat sz"] by (simp del: fun_upd_apply add: fun_upd_same buf)
  from block_steps_trans [OF this block_inside [OF assms(1,2) fits go]]
  have "block_steps s [] (goes (s\<lparr>b_mutex := Some t\<rparr>) t (BCopyOut sz buf))" by simp
  from block_steps.more [OF this block_step.take [of _ t sz buf]]
  have "block_steps s [BTake buf]
      (goes (s\<lparr>b_mutex := Some t, b_ring := r\<rparr>) t (BSignal Writeable v))"
    by (simp del: fun_upd_apply add: fun_upd_same r v buf)
  from block_leave [OF assms(1) this] show ?thesis by simp
qed

text \<open>C33: The steps are the operations. Let the mutex be free, the thread idle and the object size
  no larger than the ring's. Then its call of
  \<^verbatim>\<open>Push_BlockRingBuf\<close> or \<^verbatim>\<open>Pop_BlockRingBuf\<close>, running alone, returns the value of the function
  and leaves its ring; the mutex is free again, and of the other threads at most one sleeper on
  the other condition has moved, and one has if there is any. Where the function would wait, the
  thread falls asleep with the mutex free and the ring untouched.\<close>

theorem block_steps_implement:
  assumes "b_pcs s t = BIdle" "b_mutex s = None" "sz \<le> r_objSize (b_ring s)"
  shows "(case Push_BlockRingBuf (b_ring s) err args sz of
      None \<Rightarrow> block_steps s [] (goes s t (BWait (Push args sz)))
    | Some (v, err', r) \<Rightarrow> err' = err \<and> (\<exists>s'. block_steps s [BPut (map args [0..<unat sz]), BRet t v] s' \<and>
        b_ring s' = r \<and> b_mutex s' = None \<and> wakes Readable (b_pcs s) (b_pcs s'))) \<and>
   (case Pop_BlockRingBuf (b_ring s) sz of
      None \<Rightarrow> block_steps s [] (goes s t (BWait (Pop sz)))
    | Some (v, buf, r) \<Rightarrow> \<exists>s'. block_steps s [BTake (the buf), BRet t v] s' \<and>
        b_ring s' = r \<and> b_mutex s' = None \<and> wakes Writeable (b_pcs s) (b_pcs s'))"
proof -
  have fits: "\<not> r_objSize (b_ring s) < op_size x" if "op_size x = sz" for x
    using assms(3) that by simp
  have "Push_BlockRingBuf (b_ring s) err args sz = None \<longleftrightarrow> must_wait (Push args sz) (b_ring s)"
    "Pop_BlockRingBuf (b_ring s) sz = None \<longleftrightarrow> must_wait (Pop sz) (b_ring s)"
    "\<And>v buf r. Pop_BlockRingBuf (b_ring s) sz = Some (v, buf, r) \<Longrightarrow> buf \<noteq> None"
    using assms(3) by (auto simp: Push_BlockRingBuf_def Pop_BlockRingBuf_def Let_def split: if_splits)
  then show ?thesis
    using block_asleep [OF assms(1,2) fits] block_push_alone [OF assms] block_pop_alone [OF assms]
    by (auto simp del: must_wait.simps split: option.split)
qed

section \<open>Examples\<close>

definition block_demo :: ring where
  "block_demo = init_block plain_env blank_block 64 (384 + 64 * 4) 4 True (- 9999)"

lemma block_demo_fields [simp]:
  "r_objSize block_demo = 64" "r_objNum block_demo = 4" "r_head block_demo = 0" "r_tail block_demo = 0"
  "cap block_demo = 4"
  by (simp_all add: block_demo_def init_block_def cap_def)

lemma block_demo_ok: "block_ok block_demo"
  unfolding block_demo_def
  by (rule init_block_ok) (simp_all add: good_capacity_def plain_env_def struct_sizes)

lemma block_demo_push:
  "\<exists>r s. block_steps (block_start block_demo) [BPut [7], BRet 0 0] s \<and> b_ring s = r \<and>
     b_mutex s = None \<and> b_pcs s = (\<lambda>_. BIdle) \<and> r_head r = 1 \<and> r_tail r = 0 \<and> r_objSize r = 64"
proof -
  let ?s = "block_start block_demo"
  obtain v r where push: "Push_BlockRingBuf (b_ring ?s) 0 (\<lambda>_. 7) 1 = Some (v, 0, r)"
    and r: "r_head r = 1" "r_tail r = 0" "r_objSize r = 64" and v: "v = 0"
    by (simp add: Push_BlockRingBuf_def block_start_def Let_def ssize_of_def)
  obtain s where s: "block_steps ?s [BPut (map (\<lambda>_. 7) [0..<unat (1::size_t)]), BRet 0 v] s" "b_ring s = r"
    "b_mutex s = None" "wakes Readable (b_pcs ?s) (b_pcs s)"
    using block_push_alone [OF _ _ _ push, of 0] by (auto simp: block_start_def)
  have "b_pcs s = (\<lambda>_. BIdle)" using s(4) by (simp add: wakes_def block_start_def)
  with s r v show ?thesis by auto
qed

theorem block_fifo_witness:
  "\<exists>h s. block_steps (block_start block_demo) h s \<and> puts h = [[7]] \<and> takes h = [[7]] \<and>
     r_head (b_ring s) = 1 \<and> r_tail (b_ring s) = 1"
proof -
  let ?s = "block_start block_demo"
  obtain r s where s: "block_steps ?s [BPut [7], BRet 0 0] s" "b_ring s = r" "b_mutex s = None"
    "b_pcs s = (\<lambda>_. BIdle)" and r: "r_head r = 1" "r_tail r = 0" "r_objSize r = 64"
    using block_demo_push by blast
  obtain v buf r' where pop: "Pop_BlockRingBuf (b_ring s) 1 = Some (v, Some buf, r')" and buf: "length buf = 1"
    using s(2) r by (simp add: Pop_BlockRingBuf_def Let_def)
  obtain s' where s': "block_steps s [BTake buf, BRet 1 v] s'"
    using block_pop_alone [OF _ s(3) _ pop, of 1] s(2,4) r(3) by auto
  have run: "block_steps ?s [BPut [7], BRet 0 0, BTake buf, BRet 1 v] s'"
    using block_steps_trans [OF s' s(1)] by simp
  note fifo = block_fifo [OF block_demo_ok run]
  then have "agree [7] buf" by simp
  with buf have "buf = [7]" using agree_same_length [of "[7]" buf] by simp
  with fifo run show ?thesis by (intro exI [of _ "[BPut [7], BRet 0 0, BTake buf, BRet 1 v]"] exI [of _ s']) simp
qed

theorem block_steps_implement_witness:
  "\<exists>s. block_steps (block_start block_demo) [BPut [7], BRet 0 0] s \<and> b_mutex s = None"
proof -
  let ?s = "block_start block_demo"
  obtain v r where push: "Push_BlockRingBuf (b_ring ?s) 0 (\<lambda>_. 7) 1 = Some (v, 0, r)" and v: "v = 0"
    by (simp add: Push_BlockRingBuf_def block_start_def Let_def ssize_of_def)
  have "1 \<le> r_objSize (b_ring ?s)" "b_pcs ?s 0 = BIdle" "b_mutex ?s = None"
    by (simp_all add: block_start_def)
  from block_steps_implement [OF this(2,3,1), where args = "\<lambda>_. 7" and err = 0]
  show ?thesis by (auto simp: push v)
qed

end
