(* ===== verification/RB_Block_Live.thy ===== *)
theory RB_Block_Live
  imports RB_Block
begin

text \<open>
  The blocking ring comes to rest: no wake-up is lost, no deadlock is possible, and the threads
  inside a call cannot keep each other busy for ever. Steps are divided into those that come from
  outside, which nothing bounds (a thread makes a call, a sleeper wakes without a signal), and the
  rest, on which a natural number decreases.
\<close>

section \<open>No wake-up is lost\<close>

text \<open>
  A thread inside a call that can go on by itself: it is not asleep, and if it wants the mutex,
  the mutex is free.
\<close>

fun can_go :: "block_sys \<Rightarrow> block_pc \<Rightarrow> bool" where
  "can_go s BIdle \<longleftrightarrow> False"
| "can_go s (BWait x) \<longleftrightarrow> False"
| "can_go s (BLock x) \<longleftrightarrow> b_mutex s = None"
| "can_go s (BRelock x) \<longleftrightarrow> b_mutex s = None"
| "can_go s _ \<longleftrightarrow> True"

lemma can_go_steps:
  assumes "can_go s (b_pcs s t)"
  shows "\<exists>e s'. block_step s e s' \<and> b_pcs s' t \<noteq> b_pcs s t"
proof (cases "b_pcs s t")
  case (BLock x)
  then show ?thesis using block_step.lock [OF BLock] assms by fastforce
next
  case (BRelock x)
  then show ?thesis using block_step.relock [OF BRelock] assms by fastforce
next
  case (BTest x)
  show ?thesis
  proof (cases "must_wait x (b_ring s)")
    case True
    then show ?thesis using block_step.cond_wait [OF BTest True] BTest by fastforce
  next
    case False
    moreover have "copying x \<noteq> BTest x" by (cases x) simp_all
    ultimately show ?thesis using block_step.leave_loop [OF BTest False] BTest by fastforce
  qed
next
  case (BCopyIn args sz i)
  then show ?thesis
    using block_step.copy_in [OF BCopyIn _ refl] block_step.put [OF BCopyIn _ refl refl]
    by (cases "i < unat sz") fastforce+
next
  case (BCopyOut sz buf)
  then show ?thesis
    using block_step.copy_out [OF BCopyOut _ refl] block_step.take [OF BCopyOut _ refl refl]
    by (cases "length buf < unat sz") fastforce+
next
  case (BSignal c v)
  show ?thesis
  proof (cases "\<exists>u x. b_pcs s u = BWait x \<and> op_cond x = c")
    case True
    then obtain u x where "b_pcs s u = BWait x" "op_cond x = c" by blast
    from block_step.signal [OF BSignal this] show ?thesis using BSignal by fastforce
  next
    case False
    then show ?thesis using block_step.signal_nobody [OF BSignal] BSignal by fastforce
  qed
next
  case (BUnlock v)
  then show ?thesis using block_step.unlock [OF BUnlock] by fastforce
qed (use assms in simp_all)

lemma block_stuck:
  assumes inv: "block_inv P Q s" and stuck: "\<And>u. \<not> can_go s (b_pcs s u)"
  shows "b_pcs s t = BIdle \<or> (\<exists>x. b_pcs s t = BWait x \<and> must_wait x (b_ring s) \<and>
    length P - length Q = (case op_cond x of Writeable \<Rightarrow> cap (b_ring s) | Readable \<Rightarrow> 0))"
proof -
  have free: "b_mutex s = None"
  proof (rule ccontr)
    assume "b_mutex s \<noteq> None"
    then obtain u where "in_section (b_pcs s u)" using block_parts(2) [OF inv] by auto
    then have "can_go s (b_pcs s u)" by (cases "b_pcs s u") simp_all
    with stuck show False by blast
  qed
  have calm: "\<not> helps c (b_pcs s u)" for c u
    using stuck [of u] block_parts(2) [OF inv, of u] by (cases "b_pcs s u") (auto simp: free)
  show ?thesis
  proof (cases "b_pcs s t")
    case (BWait x)
    then have "\<exists>u. waits_on (op_cond x) (b_pcs s u)" by (intro exI [of _ t]) simp
    then have "room (b_ring s) P Q (op_cond x) = 0"
      using block_parts(5) [OF inv, of "op_cond x"] by (simp add: wake_inv_def calm)
    then have "must_wait x (b_ring s)"
      "length P - length Q = (case op_cond x of Writeable \<Rightarrow> cap (b_ring s) | Readable \<Rightarrow> 0)"
      using must_wait_room [OF block_parts(1) [OF inv]] block_parts(1) [OF inv]
      by (auto simp: block_ring_inv_def split: cond.split)
    with BWait show ?thesis by blast
  qed (use stuck [of t] free block_parts(2) [OF inv, of t] in simp_all)
qed

section \<open>What is left to do\<close>

text \<open>
  The steps a thread has before it when nobody signals it. A signal adds two to the thread it
  wakes, which the signalling thread has to pay for; a thread that falls asleep still has its
  operation to do.
\<close>

fun potential :: "block_pc \<Rightarrow> nat" where
  "potential BIdle = 0"
| "potential (BLock x) = unat (op_size x) + 7"
| "potential (BTest x) = unat (op_size x) + 6"
| "potential (BWait x) = unat (op_size x) + 5"
| "potential (BRelock x) = unat (op_size x) + 7"
| "potential (BCopyIn args sz i) = unat sz - i + 5"
| "potential (BCopyOut sz buf) = unat sz - length buf + 5"
| "potential (BSignal c v) = 4"
| "potential (BUnlock v) = 1"

lemma potential_copying [simp]: "potential (copying x) = unat (op_size x) + 5"
  by (cases x) simp_all

definition block_work :: "block_sys \<Rightarrow> nat" where
  "block_work s = (\<Sum>t \<in> {t. b_pcs s t \<noteq> BIdle}. potential (b_pcs s t))"

lemma block_work_goes:
  assumes "finite {t. b_pcs s t \<noteq> BIdle}"
  shows "block_work (goes s t pc) + potential (b_pcs s t) = block_work s + potential pc"
proof -
  let ?A = "{t. b_pcs s t \<noteq> BIdle} - {t}"
  have fin: "finite ?A" using assms by simp
  have old: "block_work s = potential (b_pcs s t) + (\<Sum>u \<in> ?A. potential (b_pcs s u))"
  proof (cases "b_pcs s t = BIdle")
    case True
    then have "?A = {t. b_pcs s t \<noteq> BIdle}" by auto
    with True show ?thesis by (simp add: block_work_def)
  next
    case False
    then show ?thesis unfolding block_work_def by (intro sum.remove [OF assms]) simp
  qed
  have rest: "(\<Sum>u \<in> ?A. potential (b_pcs (goes s t pc) u)) = (\<Sum>u \<in> ?A. potential (b_pcs s u))"
    by (intro sum.cong) auto
  have "block_work (goes s t pc) = potential pc + (\<Sum>u \<in> ?A. potential (b_pcs s u))"
  proof (cases "pc = BIdle")
    case True
    then have "{u. b_pcs (goes s t pc) u \<noteq> BIdle} = ?A" by auto
    with True rest show ?thesis by (simp add: block_work_def)
  next
    case False
    then have "{u. b_pcs (goes s t pc) u \<noteq> BIdle} = insert t ?A" by auto
    then have "block_work (goes s t pc) = (\<Sum>u \<in> insert t ?A. potential (b_pcs (goes s t pc) u))"
      by (simp only: block_work_def)
    also have "\<dots> = potential pc + (\<Sum>u \<in> ?A. potential (b_pcs (goes s t pc) u))"
      using fin by (subst sum.insert) simp_all
    finally show ?thesis using rest by (simp only:)
  qed
  with old show ?thesis by simp
qed

lemma block_work_frame [simp]:
  "block_work (s\<lparr>b_ring := r\<rparr>) = block_work s" "block_work (s\<lparr>b_mutex := m\<rparr>) = block_work s"
  by (simp_all add: block_work_def)

text \<open>
  Steps from outside. A refused call leaves the state as it is.
\<close>

definition outside :: "block_sys \<Rightarrow> block_sys \<Rightarrow> bool" where
  "outside s s' \<longleftrightarrow> s' = s \<or>
     (\<exists>t x. b_pcs s t = BIdle \<and> s' = goes s t (BLock x)) \<or>
     (\<exists>t x. b_pcs s t = BWait x \<and> s' = goes s t (BRelock x))"

definition progress :: "block_sys \<Rightarrow> block_sys \<Rightarrow> bool" where
  "progress s s' \<longleftrightarrow> (\<exists>e. block_step s e s') \<and> \<not> outside s s'"

lemma outside_pc:
  "outside s s' \<Longrightarrow> b_pcs s' t = b_pcs s t \<or> b_pcs s t = BIdle \<or> (\<exists>x. b_pcs s t = BWait x)"
  by (auto simp: outside_def split: if_splits)

lemma can_go_progress: "can_go s (b_pcs s t) \<Longrightarrow> \<exists>s'. progress s s'"
  using can_go_steps [of s t] outside_pc [of s _ t] unfolding progress_def
  by (cases "b_pcs s t") (metis can_go.simps(1,2) block_pc.distinct)+

lemma progress_decreases:
  assumes "progress s s'" "block_inv P Q s"
  shows "block_work s' < block_work s"
proof -
  note fin = block_parts(4) [OF assms(2)]
  have less: "block_work (goes (s\<lparr>b_ring := r, b_mutex := m\<rparr>) t pc) < block_work s"
    if "potential pc < potential (b_pcs s t)" for r m t pc
    using block_work_goes [of "s\<lparr>b_ring := r, b_mutex := m\<rparr>" t pc] fin that by simp
  from assms(1) obtain e where "block_step s e s'" and own: "\<not> outside s s'" by (auto simp: progress_def)
  from this(1) show ?thesis
  proof (cases rule: block_step.cases)
    case (signal t c v u x)
    then have "t \<noteq> u" by auto
    then have "block_work (goes (goes s u (BRelock x)) t (BUnlock v)) + 4 + (unat (op_size x) + 5) =
        block_work s + 1 + (unat (op_size x) + 7)"
      using block_work_goes [of "goes s u (BRelock x)" t "BUnlock v"] block_work_goes [OF fin, of u "BRelock x"]
        finite_upd [OF fin, of u "BRelock x"] signal by simp
    then show ?thesis using signal by simp
  qed (use own less [where r = "b_ring s" and m = "b_mutex s"] less [where r = "b_ring s"]
      less [where m = "b_mutex s"] in \<open>auto simp: outside_def\<close>)
qed

lemma progress_run:
  "(progress ^^ k) s s' \<Longrightarrow> block_steps s0 h s \<Longrightarrow> \<exists>h'. block_steps s0 h' s'"
proof (induction k arbitrary: s')
  case (Suc k)
  then obtain u where u: "(progress ^^ k) s u" "progress u s'" by auto
  from Suc.IH [OF u(1) Suc.prems(2)] obtain h' where "block_steps s0 h' u" by blast
  with u(2) show ?case using block_steps.more unfolding progress_def by blast
qed auto

lemma progress_bound:
  assumes "block_ok r" "block_steps (block_start r) h s" "(progress ^^ k) s s'"
  shows "k + block_work s' \<le> block_work s"
  using assms(3)
proof (induction k arbitrary: s')
  case (Suc k)
  then obtain u where u: "(progress ^^ k) s u" "progress u s'" by auto
  from progress_run [OF u(1) assms(2)] obtain h' where "block_steps (block_start r) h' u" by blast
  from progress_decreases [OF u(2) block_inv_run [OF assms(1) this]] Suc.IH [OF u(1)] show ?case by simp
qed simp

text \<open>
  At rest: whoever is in a call is asleep and rightly so, all on the same condition: producers on a
  full ring, or consumers on an empty one.
\<close>

definition at_rest :: "block_sys \<Rightarrow> bool" where
  "at_rest s \<longleftrightarrow> (\<exists>c. \<forall>t. b_pcs s t = BIdle \<or>
     (\<exists>x. b_pcs s t = BWait x \<and> op_cond x = c \<and> must_wait x (b_ring s)))"

lemma must_wait_one_side:
  assumes "ring_wf r" "must_wait x r" "must_wait y r"
  shows "op_cond x = op_cond y"
proof -
  have "0 < r_objNum r" using wf_cap_pos [OF assms(1)] by (simp add: cap_def unat_gt_0 word_gt_0)
  then show ?thesis using assms(2,3) by (cases x; cases y) auto
qed

lemma no_progress_at_rest:
  assumes "block_ok r" "block_steps (block_start r) h s" "\<nexists>s'. progress s s'"
  shows "at_rest s"
proof -
  note inv = block_inv_run [OF assms(1,2)]
  have asleep: "b_pcs s t = BIdle \<or> (\<exists>x. b_pcs s t = BWait x \<and> must_wait x (b_ring s))" for t
    using block_stuck [OF inv, of t] can_go_progress assms(3) by blast
  show ?thesis
  proof (cases "\<exists>t x. b_pcs s t = BWait x")
    case True
    then obtain t x where "b_pcs s t = BWait x" by blast
    with asleep [of t] have "must_wait x (b_ring s)" by auto
    moreover have "ring_wf (b_ring s)" using block_parts(1) [OF inv] by (simp add: block_ring_inv_def)
    ultimately show ?thesis
      using asleep must_wait_one_side unfolding at_rest_def by (intro exI [of _ "op_cond x"]) blast
  qed (use asleep in \<open>auto simp: at_rest_def\<close>)
qed

lemma reaches_rest:
  assumes "block_ok r" "block_steps (block_start r) h s"
  shows "\<exists>k s'. k \<le> block_work s \<and> (progress ^^ k) s s' \<and> at_rest s'"
  using assms(2)
proof (induction "block_work s" arbitrary: s h rule: less_induct)
  case less
  show ?case
  proof (cases "\<exists>u. progress s u")
    case True
    then obtain u where u: "progress s u" by blast
    then obtain e where run: "block_steps (block_start r) (h @ e) u"
      using block_steps.more [OF less.prems] by (auto simp: progress_def)
    note dec = progress_decreases [OF u block_inv_run [OF assms(1) less.prems]]
    with run obtain k s' where k: "k \<le> block_work u" "(progress ^^ k) u s'" "at_rest s'"
      using less.hyps by blast
    have "(progress ^^ Suc k) s s'" by (rule relpowp_Suc_I2 [OF u k(2)])
    then show ?thesis using dec k by (intro exI [of _ "Suc k"] exI [of _ s']) simp
  next
    case False
    then show ?thesis using no_progress_at_rest [OF assms(1) less.prems]
      by (intro exI [of _ 0] exI [of _ s]) simp
  qed
qed

section \<open>Properties\<close>

text \<open>C7: The blocking ring terminates and loses no wake-up. Take any point of any schedule. However
  the threads inside a call are scheduled from there, without further calls and wake-ups out of
  the blue they make at most \<open>block_work\<close> steps; rest is always reached; and when none of them can
  go on, either every call has returned, or those that have not are all producers asleep on a full
  ring, or all consumers asleep on an empty one, so that the next call of the other side gets one
  of them going.\<close>

theorem block_terminates:
  assumes "block_ok r" "block_steps (block_start r) h s" "(progress ^^ k) s s'"
  shows "k + block_work s' \<le> block_work s \<and> ((\<nexists>s''. progress s' s'') \<longrightarrow> at_rest s') \<and>
    (\<exists>j s''. j \<le> block_work s' \<and> (progress ^^ j) s' s'' \<and> at_rest s'')"
proof -
  from progress_run [OF assms(3,2)] obtain h' where run: "block_steps (block_start r) h' s'" by blast
  show ?thesis
    using progress_bound [OF assms] no_progress_at_rest [OF assms(1) run] reaches_rest [OF assms(1) run]
    by blast
qed

theorem block_terminates_witness:
  "\<exists>s. block_steps (block_start block_demo) [] s \<and> b_pcs s 0 = BWait (Pop 1) \<and> at_rest s \<and>
     (\<forall>k s'. (progress ^^ k) s s' \<longrightarrow> k \<le> 6)"
proof -
  let ?s = "goes (block_start block_demo) 0 (BWait (Pop 1))"
  have run: "block_steps (block_start block_demo) [] ?s"
    by (rule block_asleep) (simp_all add: block_start_def)
  have work: "block_work ?s = 6"
    using block_work_goes [of "block_start block_demo" 0 "BWait (Pop 1)"]
    by (simp add: block_start_def block_work_def)
  have idle: "\<nexists>s'. progress ?s s'"
  proof
    assume "\<exists>s'. progress ?s s'"
    then obtain s' e where "block_step ?s e s'" and own: "\<not> outside ?s s'" by (auto simp: progress_def)
    then show False
    proof (cases rule: block_step.cases)
      case (call t x)
      then have "outside ?s s'" unfolding outside_def by blast
      with own show False ..
    next
      case (wake_up t x)
      then have "outside ?s s'" unfolding outside_def by blast
      with own show False ..
    qed (use own in \<open>auto simp: outside_def block_start_def split: if_splits\<close>)
  qed
  then have "at_rest ?s" using block_terminates [OF block_demo_ok run, of 0 ?s] by simp
  moreover have "\<forall>k s'. (progress ^^ k) ?s s' \<longrightarrow> k \<le> 6"
    using block_terminates [OF block_demo_ok run] work by fastforce
  ultimately show ?thesis using run by (intro exI [of _ ?s]) simp
qed

end
