(* ===== verification/RB_Wrapper.thy ===== *)
theory RB_Wrapper
  imports RB_Spsc RB_Mpsc RB_Mpmc RB_Block
begin

text \<open>
  The operations of the C++ class \<open>RingBuf<RingType, Obj, ObjNum>\<close> of
  \<^verbatim>\<open>RingBufWrapper.hpp\<close>: the four specialisations of \<open>RingBufTypeTrait\<close>, which map a ring type
  to the C functions, and the member functions built on them, \<open>Pop_w_cb\<close> with its two
  compile-time paths above all. \<open>RB_Wrapper_Life\<close> models the object's life time.
\<close>

section \<open>Ring types and their traits\<close>

text \<open>What a C function keeps per thread: the caches of \<^verbatim>\<open>RingBuf_Spsc.c\<close> and
  \<^verbatim>\<open>RingBuf_Mpsc.c\<close>, and \<^verbatim>\<open>errno\<close>.\<close>

record thread =
  spsc_caches :: spsc_tls
  mpsc_cache :: size_t
  thread_errno :: int

definition new_thread :: thread where
  "new_thread = \<lparr>spsc_caches = spsc_tls_init, mpsc_cache = 0, thread_errno = 0\<rparr>"

text \<open>
  A call gives a value, waits for another thread (only a blocking ring does), or has undefined
  behaviour (the signed difference of the MPMC ring).
\<close>

datatype 'a outcome = Value 'a | Waits | Undefined

type_synonym 'a callback = "byte list \<Rightarrow> 'a \<Rightarrow> int \<times> 'a"

datatype ring_type = Spsc | Mpsc | Mpmc | Block

record 'a trait =
  GetRing :: "env \<Rightarrow> size_t \<Rightarrow> size_t \<Rightarrow> string option \<Rightarrow> c_int \<Rightarrow> c_int \<Rightarrow> os \<Rightarrow>
    (int \<times> ring option \<times> os) option"
  DelRing :: "env \<Rightarrow> ring option \<Rightarrow> os \<Rightarrow> os"
  BasePush :: "thread \<Rightarrow> ring \<Rightarrow> src \<Rightarrow> size_t \<Rightarrow> (int \<times> thread \<times> ring) outcome"
  BasePop :: "thread \<Rightarrow> ring \<Rightarrow> size_t \<Rightarrow> (int \<times> byte list option \<times> thread \<times> ring) outcome"
  BasePop_w_cb :: "thread \<Rightarrow> ring \<Rightarrow> 'a callback \<Rightarrow> 'a \<Rightarrow> (int \<times> 'a \<times> thread \<times> ring) outcome"

text \<open>
  The specialisations. Those without a \<open>Pop_w_cb\<close> do not compile where it is called, which no
  instance does.
\<close>

definition RingBufTypeTrait_Spsc :: "'a trait" where
  "RingBufTypeTrait_Spsc =
     \<lparr>GetRing = (\<lambda>E n objSize path prot flag s. Get_SpscRingBuf_e E True n objSize path prot flag s),
      DelRing = (\<lambda>E r s. Del_SpscRingBuf E r s),
      BasePush = (\<lambda>l r data len.
        let (rc, c, r) = Push_SpscRingBuf (spsc_caches l) r data len
        in Value (rc, l\<lparr>spsc_caches := c\<rparr>, r)),
      BasePop = (\<lambda>l r len.
        let (rc, buf, c, r) = Pop_SpscRingBuf (spsc_caches l) r len
        in Value (rc, buf, l\<lparr>spsc_caches := c\<rparr>, r)),
      BasePop_w_cb = (\<lambda>l r cb args. Undefined)\<rparr>"

definition RingBufTypeTrait_Mpsc :: "'a trait" where
  "RingBufTypeTrait_Mpsc =
     \<lparr>GetRing = (\<lambda>E n objSize path prot flag s. Get_MpscRingBuf_e E True n objSize path prot flag s),
      DelRing = (\<lambda>E r s. Del_MpscRingBuf E r s),
      BasePush = (\<lambda>l r data len. let (rc, r) = Push_MpscRingBuf r data len in Value (rc, l, r)),
      BasePop = (\<lambda>l r len.
        let (rc, buf, c, r) = Pop_MpscRingBuf (mpsc_cache l) r len
        in Value (rc, buf, l\<lparr>mpsc_cache := c\<rparr>, r)),
      BasePop_w_cb = (\<lambda>l r cb args.
        let (rc, args, c, r) = Pop_w_cb_MpscRingBuf (mpsc_cache l) r cb args
        in Value (rc, args, l\<lparr>mpsc_cache := c\<rparr>, r))\<rparr>"

definition RingBufTypeTrait_Mpmc :: "'a trait" where
  "RingBufTypeTrait_Mpmc =
     \<lparr>GetRing = (\<lambda>E n objSize path prot flag s. Get_MpmcRingBuf_e E True n objSize path prot flag s),
      DelRing = (\<lambda>E r s. Del_MpmcRingBuf E r s),
      BasePush = (\<lambda>l r data len.
        case Push_MpmcRingBuf r data len of None \<Rightarrow> Undefined | Some (rc, r) \<Rightarrow> Value (rc, l, r)),
      BasePop = (\<lambda>l r len.
        case Pop_MpmcRingBuf r len of None \<Rightarrow> Undefined | Some (rc, buf, r) \<Rightarrow> Value (rc, buf, l, r)),
      BasePop_w_cb = (\<lambda>l r cb args.
        case Pop_w_cb_MpmcRingBuf r cb args of
          None \<Rightarrow> Undefined | Some (rc, args, r) \<Rightarrow> Value (rc, args, l, r))\<rparr>"

definition RingBufTypeTrait_Block :: "'a trait" where
  "RingBufTypeTrait_Block =
     \<lparr>GetRing = (\<lambda>E n objSize path prot flag s. Get_BlockRingBuf_e E True n objSize path prot flag s),
      DelRing = (\<lambda>E r s. Del_BlockRingBuf E r s),
      BasePush = (\<lambda>l r data len.
        case Push_BlockRingBuf r (thread_errno l) data len of
          None \<Rightarrow> Waits | Some (rc, err, r) \<Rightarrow> Value (rc, l\<lparr>thread_errno := err\<rparr>, r)),
      BasePop = (\<lambda>l r len.
        case Pop_BlockRingBuf r len of None \<Rightarrow> Waits | Some (rc, buf, r) \<Rightarrow> Value (rc, buf, l, r)),
      BasePop_w_cb = (\<lambda>l r cb args. Undefined)\<rparr>"

fun RingBufTypeTrait :: "ring_type \<Rightarrow> 'a trait" where
  "RingBufTypeTrait Spsc = RingBufTypeTrait_Spsc"
| "RingBufTypeTrait Mpsc = RingBufTypeTrait_Mpsc"
| "RingBufTypeTrait Mpmc = RingBufTypeTrait_Mpmc"
| "RingBufTypeTrait Block = RingBufTypeTrait_Block"

lemmas traits = RingBufTypeTrait_Spsc_def RingBufTypeTrait_Mpsc_def RingBufTypeTrait_Mpmc_def
  RingBufTypeTrait_Block_def

section \<open>The member functions\<close>

text \<open>
  \<open>sz\<close> is \<open>sizeof(Obj)\<close>. A callback of the class gets a pointer that may be null, hence the
  option, and the state its other arguments refer to; it is run on this thread before the call
  returns.
\<close>

type_synonym 'a cpp_callback = "byte list option \<Rightarrow> 'a \<Rightarrow> int \<times> 'a"

definition Push_obj :: "ring_type \<Rightarrow> size_t \<Rightarrow> thread \<Rightarrow> ring \<Rightarrow> src \<Rightarrow> (int \<times> thread \<times> ring) outcome" where
  "Push_obj T sz l r obj = BasePush (RingBufTypeTrait T :: unit trait) l r obj sz"

definition Push_raw :: "ring_type \<Rightarrow> thread \<Rightarrow> ring \<Rightarrow> src \<Rightarrow> size_t \<Rightarrow> (int \<times> thread \<times> ring) outcome" where
  "Push_raw T l r data len = BasePush (RingBufTypeTrait T :: unit trait) l r data len"

definition Pop_obj ::
    "ring_type \<Rightarrow> size_t \<Rightarrow> thread \<Rightarrow> ring \<Rightarrow> (int \<times> byte list option \<times> thread \<times> ring) outcome" where
  "Pop_obj T sz l r = BasePop (RingBufTypeTrait T :: unit trait) l r sz"

definition Pop_raw ::
    "ring_type \<Rightarrow> thread \<Rightarrow> ring \<Rightarrow> size_t \<Rightarrow> (int \<times> byte list option \<times> thread \<times> ring) outcome" where
  "Pop_raw T l r len = BasePop (RingBufTypeTrait T :: unit trait) l r len"

text \<open>
  The zero-copy members, which exist for \<open>Spsc\<close> only. A slot is its address, \<open>None\<close> a null
  pointer.
\<close>

definition BeginPush :: "thread \<Rightarrow> ring \<Rightarrow> size_t option \<times> thread" where
  "BeginPush l r =
     (let (p, c) = Begin_push_SpscRingBuf (spsc_caches l) r in (p, l\<lparr>spsc_caches := c\<rparr>))"

definition EndPush :: "ring \<Rightarrow> ring" where
  "EndPush r = End_push_SpscRingBuf r"

definition BeginPop :: "thread \<Rightarrow> ring \<Rightarrow> size_t option \<times> thread" where
  "BeginPop l r =
     (let (p, c) = Begin_pop_SpscRingBuf (spsc_caches l) r in (p, l\<lparr>spsc_caches := c\<rparr>))"

definition EndPop :: "ring \<Rightarrow> ring" where
  "EndPop r = End_pop_SpscRingBuf r"

lemmas zero_copy = BeginPush_def EndPush_def BeginPop_def EndPop_def

definition Get_RingBuf_strerror :: "(int \<Rightarrow> string) \<Rightarrow> int \<Rightarrow> int \<Rightarrow> string" where
  "Get_RingBuf_strerror strerror errno err = RingBuf_strerror strerror errno err"

text \<open>Storing an \<open>ssize_t\<close> in an \<open>int\<close>.\<close>

definition int_of_ssize :: "int \<Rightarrow> int" where
  "int_of_ssize x = sint (word_of_int x :: c_int)"

text \<open>\<open>Pop_w_cb\<close> where \<open>is_fast_path\<close> holds: a capture-less callback with one pointer argument.\<close>

definition Pop_w_cb_fast ::
    "ring_type \<Rightarrow> size_t \<Rightarrow> thread \<Rightarrow> ring \<Rightarrow> 'a cpp_callback \<Rightarrow> 'a \<Rightarrow> (int \<times> 'a \<times> thread \<times> ring) outcome" where
  "Pop_w_cb_fast T sz l r cb args =
     (if T = Mpsc \<or> T = Mpmc
      then BasePop_w_cb (RingBufTypeTrait T) l r (\<lambda>obj. cb (Some obj)) args
      else if T = Block
      then (case BasePop (RingBufTypeTrait T :: 'a trait) l r sz of
              Value (n, obj, l, r) \<Rightarrow>
                let rc = int_of_ssize n
                in if rc < 0 then Value (rc, args, l, r)
                   else let (rc, args) = cb obj args in Value (rc, args, l, r)
            | Waits \<Rightarrow> Waits | Undefined \<Rightarrow> Undefined)
      else
        let (p, l) = BeginPop l r;
            (rc, args) = cb (map_option (\<lambda>a. memcpy_out r a (osz r)) p) args;
            r = EndPop r
        in Value (rc, args, l, r))"

text \<open>
  The other path wraps the callback and a tuple of all its arguments into a context on the stack
  and passes a lambda that unpacks it; the lambda hands the object's address to the callback as
  it is.
\<close>

definition trampoline :: "'a cpp_callback \<Rightarrow> byte list option \<Rightarrow> 'a \<Rightarrow> int \<times> 'a" where
  "trampoline cpp_callback obj_in_buf user_args = cpp_callback obj_in_buf user_args"

definition Pop_w_cb_trampoline ::
    "ring_type \<Rightarrow> size_t \<Rightarrow> thread \<Rightarrow> ring \<Rightarrow> 'a cpp_callback \<Rightarrow> 'a \<Rightarrow> (int \<times> 'a \<times> thread \<times> ring) outcome" where
  "Pop_w_cb_trampoline T sz l r cb args =
     (if T = Mpsc \<or> T = Mpmc
      then BasePop_w_cb (RingBufTypeTrait T) l r (\<lambda>obj. trampoline cb (Some obj)) args
      else if T = Block
      then (case BasePop (RingBufTypeTrait T :: 'a trait) l r sz of
              Value (n, obj, l, r) \<Rightarrow>
                let rc = int_of_ssize n
                in if rc < 0 then Value (rc, args, l, r)
                   else let (rc, args) = trampoline cb obj args in Value (rc, args, l, r)
            | Waits \<Rightarrow> Waits | Undefined \<Rightarrow> Undefined)
      else
        let (p, l) = BeginPop l r
        in case p of
             None \<Rightarrow> Value (RINGBUF_EMPTY, args, l, r)
           | Some a \<Rightarrow>
               let (rc, args) = trampoline cb (Some (memcpy_out r a (osz r))) args;
                   r = EndPop r
               in Value (rc, args, l, r))"

text \<open>
  \<open>is_fast_path\<close> decides at compile time: one argument, convertible to \<open>void *\<close>, and a callable
  convertible to \<open>Pop_cb\<close>.
\<close>

definition is_fast_path :: "nat \<Rightarrow> bool \<Rightarrow> bool \<Rightarrow> bool" where
  "is_fast_path num_args first_is_pointer callable_is_Pop_cb \<longleftrightarrow>
     num_args = 1 \<and> first_is_pointer \<and> callable_is_Pop_cb"

definition Pop_w_cb ::
    "bool \<Rightarrow> ring_type \<Rightarrow> size_t \<Rightarrow> thread \<Rightarrow> ring \<Rightarrow> 'a cpp_callback \<Rightarrow> 'a \<Rightarrow> (int \<times> 'a \<times> thread \<times> ring) outcome"
  where
  "Pop_w_cb fast T sz l r cb args =
     (if fast then Pop_w_cb_fast T sz l r cb args else Pop_w_cb_trampoline T sz l r cb args)"

section \<open>Tickets stored in an int\<close>

lemma int_of_ssize_neg_iff:
  "int_of_ssize (ssize_of w) < 0 \<longleftrightarrow> 2 ^ 31 \<le> unat w mod 2 ^ 32"
proof -
  have "int_of_ssize (ssize_of w) < 0 \<longleftrightarrow> bit (word_of_int (sint w) :: c_int) 31"
    using bit_last_iff [of "word_of_int (sint w) :: c_int"] by (simp add: int_of_ssize_def ssize_of_def)
  also have "\<dots> \<longleftrightarrow> bit w 31" by (simp add: bit_simps)
  also have "\<dots> \<longleftrightarrow> bit (unat w) 31" by (simp add: bit_simps)
  also have "\<dots> \<longleftrightarrow> 2 ^ 31 \<le> unat w mod 2 ^ 32"
  proof -
    have "unat w mod (2 ^ 31 * 2) = 2 ^ 31 * (unat w div 2 ^ 31 mod 2) + unat w mod 2 ^ 31"
      by (rule mod_mult2_eq)
    moreover have "unat w mod 2 ^ 31 < 2 ^ 31" by simp
    moreover have "(2::nat) ^ 31 * 2 = 2 ^ 32" by simp
    moreover have "unat w div 2 ^ 31 mod 2 = 0 \<or> unat w div 2 ^ 31 mod 2 = 1" by auto
    ultimately show ?thesis unfolding bit_iff_odd odd_iff_mod_2_eq_one by fastforce
  qed
  finally show ?thesis .
qed

lemma take_memcpy_out: "m \<le> n \<Longrightarrow> take m (memcpy_out r a n) = memcpy_out r a m"
  by (simp add: memcpy_out_def take_map)

section \<open>Pop with a callback is pop, then the callback\<close>

text \<open>What both paths of \<open>Pop_w_cb\<close> are meant to compute.\<close>

definition pop_then :: "'a cpp_callback \<Rightarrow> 'a \<Rightarrow> (int \<times> byte list option \<times> thread \<times> ring) outcome \<Rightarrow>
    (int \<times> 'a \<times> thread \<times> ring) outcome" where
  "pop_then cb args res =
     (case res of
        Value (rc, None, l, r) \<Rightarrow> Value (rc, args, l, r)
      | Value (rc, Some obj, l, r) \<Rightarrow> (case cb (Some obj) args of (rc, args) \<Rightarrow> Value (rc, args, l, r))
      | Waits \<Rightarrow> Waits | Undefined \<Rightarrow> Undefined)"

text \<open>The callback reads an \<open>Obj\<close>, not what follows it in the slot.\<close>

definition reads_obj :: "size_t \<Rightarrow> 'a cpp_callback \<Rightarrow> bool" where
  "reads_obj sz cb \<longleftrightarrow> (\<forall>b args. cb (Some b) args = cb (Some (take (unat sz) b)) args)"

lemma reads_objD:
  "reads_obj sz cb \<Longrightarrow> unat sz \<le> n \<Longrightarrow> cb (Some (memcpy_out r a n)) args = cb (Some (memcpy_out r a (unat sz))) args"
  by (metis reads_obj_def take_memcpy_out)

lemma trampoline_eq [simp]: "trampoline cb = cb"
  by (simp add: trampoline_def fun_eq_iff)

text \<open>The two paths differ in the treatment of an empty SPSC ring only.\<close>

lemma pop_w_cb_paths:
  assumes "T \<noteq> Spsc \<or> fst (BeginPop l r) \<noteq> None"
  shows "Pop_w_cb_fast T sz l r cb args = Pop_w_cb_trampoline T sz l r cb args"
  using assms
  by (cases T) (auto simp: Pop_w_cb_fast_def Pop_w_cb_trampoline_def zero_copy Let_def split: prod.splits outcome.splits)

lemma trampoline_spsc:
  assumes "\<not> r_objSize r < sz" "reads_obj sz cb"
  shows "Pop_w_cb_trampoline Spsc sz l r cb args = pop_then cb args (Pop_obj Spsc sz l r)"
  using reads_objD [OF assms(2) size_fits [OF assms(1)]] assms(1)
  by (auto simp: Pop_w_cb_trampoline_def zero_copy Pop_obj_def pop_then_def traits Pop_SpscRingBuf_def
      Begin_pop_SpscRingBuf_def End_pop_SpscRingBuf_def Let_def split: prod.splits)

lemma trampoline_mpsc:
  assumes "\<not> r_objSize r < sz" "reads_obj sz cb"
  shows "Pop_w_cb_trampoline Mpsc sz l r cb args = pop_then cb args (Pop_obj Mpsc sz l r)"
  using reads_objD [OF assms(2) size_fits [OF assms(1)]] assms(1)
  by (auto simp: Pop_w_cb_trampoline_def Pop_obj_def pop_then_def traits Pop_MpscRingBuf_def
      Pop_w_cb_MpscRingBuf_def Let_def split: prod.splits)

lemma trampoline_mpmc:
  assumes "\<not> r_objSize r < sz" "reads_obj sz cb"
  shows "Pop_w_cb_trampoline Mpmc sz l r cb args = pop_then cb args (Pop_obj Mpmc sz l r)"
  using reads_objD [OF assms(2) size_fits [OF assms(1)]] assms(1)
  by (auto simp: Pop_w_cb_trampoline_def Pop_obj_def pop_then_def traits Pop_MpmcRingBuf_def
      Pop_w_cb_MpmcRingBuf_def Let_def cas_tail_def split: prod.splits option.splits)

lemma trampoline_block:
  assumes "\<not> r_objSize r < sz" "unat (r_tail r) mod 2 ^ 32 < 2 ^ 31"
  shows "Pop_w_cb_trampoline Block sz l r cb args = pop_then cb args (Pop_obj Block sz l r)"
proof -
  have "\<not> int_of_ssize (ssize_of (r_tail r)) < 0"
    unfolding int_of_ssize_neg_iff using assms(2) by (simp only: not_le)
  then show ?thesis
    using assms(1)
    by (auto simp: Pop_w_cb_trampoline_def Pop_obj_def pop_then_def traits Pop_BlockRingBuf_def
        Let_def split: prod.splits)
qed

lemma trampoline_pops:
  assumes "sz \<le> r_objSize r" "reads_obj sz cb"
    and "T = Block \<Longrightarrow> unat (r_tail r) mod 2 ^ 32 < 2 ^ 31"
  shows "Pop_w_cb_trampoline T sz l r cb args = pop_then cb args (Pop_obj T sz l r)"
proof -
  have fits: "\<not> r_objSize r < sz" using assms(1) by simp
  show ?thesis
    using trampoline_spsc [OF fits assms(2)] trampoline_mpsc [OF fits assms(2)]
      trampoline_mpmc [OF fits assms(2)] trampoline_block [OF fits assms(3)]
    by (cases T) simp_all
qed

text \<open>Writing or reading a slot between the two halves is \<open>Push\<close> and \<open>Pop\<close> of an object.\<close>

lemma push_in_place:
  assumes "\<not> r_objSize r < sz"
  shows "Push_obj Spsc sz l r obj =
     (case BeginPush l r of
        (None, l) \<Rightarrow> Value (RINGBUF_FULL, l, r)
      | (Some p, l) \<Rightarrow> Value (ssize_of (r_head r), l, EndPush (memcpy_in r p obj (unat sz))))"
  using assms
  by (auto simp: Push_obj_def traits zero_copy Push_SpscRingBuf_def Begin_push_SpscRingBuf_def
      End_push_SpscRingBuf_def Let_def)

lemma pop_in_place:
  assumes "\<not> r_objSize r < sz"
  shows "Pop_obj Spsc sz l r =
     (case BeginPop l r of
        (None, l) \<Rightarrow> Value (RINGBUF_EMPTY, None, l, r)
      | (Some p, l) \<Rightarrow> Value (ssize_of (r_tail r), Some (memcpy_out r p (unat sz)), l, EndPop r))"
  using assms
  by (auto simp: Pop_obj_def traits zero_copy Pop_SpscRingBuf_def Begin_pop_SpscRingBuf_def
      End_pop_SpscRingBuf_def Let_def)

section \<open>Properties\<close>

text \<open>C14: \<open>Pop_w_cb\<close> is \<open>Pop\<close> followed by the callback, for all four ring types and whichever
  path the compiler takes: on every branch it returns the code of \<open>Pop\<close> without calling back, or
  pops the same object, calls back on it once and returns what the callback returned. Two cases
  are excepted, because there it fails: the fast path on an empty SPSC ring, and a blocking ring
  whose position has bit 31 set.\<close>

theorem pop_w_cb_equiv:
  assumes "sz \<le> r_objSize r" "reads_obj sz cb"
    and "T = Block \<Longrightarrow> unat (r_tail r) mod 2 ^ 32 < 2 ^ 31"
    and "is_fast_path k p c \<Longrightarrow> T = Spsc \<Longrightarrow> fst (BeginPop l r) \<noteq> None"
  shows "Pop_w_cb (is_fast_path k p c) T sz l r cb args = pop_then cb args (Pop_obj T sz l r)"
  using trampoline_pops [OF assms(1-3)] pop_w_cb_paths [of T l r] assms(4) unfolding Pop_w_cb_def by metis

text \<open>A callback for the examples: it stores the object's first byte.\<close>

definition first_byte :: "byte cpp_callback" where
  "first_byte obj args = (0, hd (the obj))"

lemma first_byte_reads: "reads_obj 1 first_byte"
  by (simp add: reads_obj_def first_byte_def hd_take)

theorem pop_w_cb_equiv_witness:
  "(case Push_obj Spsc 1 new_thread (make_ring 4 8 NO_SLOT) (\<lambda>_. 7) of
      Value (_, l, r) \<Rightarrow>
        (case Pop_w_cb (is_fast_path 1 True True) Spsc 1 l r first_byte 0 of
           Value (rc, b, _) \<Rightarrow> rc = 0 \<and> b = 7 | _ \<Rightarrow> False)
    | _ \<Rightarrow> False)"
proof -
  let ?push = "Push_SpscRingBuf (spsc_caches new_thread) (make_ring 4 8 NO_SLOT) (\<lambda>_. 7) 1"
  let ?l = "new_thread\<lparr>spsc_caches := fst (snd ?push)\<rparr>" and ?r = "snd (snd ?push)"
  have "1 \<le> r_objSize ?r" "fst (BeginPop ?l ?r) \<noteq> None" by code_simp+
  then have "Pop_w_cb (is_fast_path 1 True True) Spsc 1 ?l ?r first_byte 0 =
      pop_then first_byte 0 (Pop_obj Spsc 1 ?l ?r)"
    by (intro pop_w_cb_equiv first_byte_reads) simp_all
  moreover have "(case pop_then first_byte 0 (Pop_obj Spsc 1 ?l ?r) of
      Value (rc, b, _) \<Rightarrow> rc = 0 \<and> b = 7 | _ \<Rightarrow> False)" by code_simp
  moreover have "Push_obj Spsc 1 new_thread (make_ring 4 8 NO_SLOT) (\<lambda>_. 7) = Value (fst ?push, ?l, ?r)"
    by (simp add: Push_obj_def traits Let_def split_beta)
  ultimately show ?thesis by simp
qed

text \<open>The fast path on an empty SPSC ring does not look at the pointer it got. It calls the
  callback on a null pointer and then moves the tail past the head: the ring then reports
  \<open>2 ^ 64 - 1\<close> objects and takes no more, and no well-formed state has these positions. The
  trampoline path returns \<^verbatim>\<open>RINGBUF_EMPTY\<close> and leaves the ring alone.\<close>

lemma spsc_fast_path_empty:
  assumes "spsc_ok (spsc_caches l) r" "ring_queue r = []"
  shows "\<exists>l'. Pop_w_cb_fast Spsc sz l r cb args =
      Value (fst (cb None args), snd (cb None args), l', r\<lparr>r_tail := r_tail r + 1\<rparr>) \<and>
    Pop_w_cb_trampoline Spsc sz l r cb args = Value (RINGBUF_EMPTY, args, l', r) \<and>
    Size_SpscRingBuf (r\<lparr>r_tail := r_tail r + 1\<rparr>) = - 1 \<and> Is_full_SpscRingBuf (r\<lparr>r_tail := r_tail r + 1\<rparr>) \<and>
    (\<forall>c. \<not> spsc_ok c (r\<lparr>r_tail := r_tail r + 1\<rparr>))"
proof -
  have empty: "r_head r = r_tail r" using assms(2) by (simp add: ring_queue_Nil_iff)
  then have "count r = 0" by (simp add: count_def)
  then have "local_head (spsc_caches l) - r_tail r = 0"
    using assms(1) by (simp add: spsc_defs unat_0_iff)
  then have cache: "local_head (spsc_caches l) = r_tail r" by simp
  have wf: "ring_wf r" using assms(1) by (simp add: spsc_ok_def)
  have top: "unat (- 1 :: size_t) = 2 ^ 64 - 1" by (simp add: unsigned_minus_1_eq_mask mask_eq_exp_minus_1)
  have "\<not> count (r\<lparr>r_tail := r_tail r + 1\<rparr>) \<le> cap r"
    using wf_cap_le [OF wf] empty top by (simp add: count_def)
  then have "\<not> spsc_ok c (r\<lparr>r_tail := r_tail r + 1\<rparr>)" for c by (simp add: spsc_ok_def)
  then show ?thesis
    using empty cache
    by (auto simp: Pop_w_cb_fast_def Pop_w_cb_trampoline_def zero_copy Begin_pop_SpscRingBuf_def End_pop_SpscRingBuf_def
        Size_SpscRingBuf_def Is_full_SpscRingBuf_def Let_def split_beta)
qed

lemma spsc_fast_path_empty_example:
  "\<exists>l' r'. Pop_w_cb_fast Spsc 8 new_thread (make_ring 4 8 NO_SLOT) (\<lambda>obj n. (if obj = None then 1 else 0, n)) (0::nat) =
      Value (1, 0, l', r') \<and> Size_SpscRingBuf r' = - 1"
proof -
  let ?r = "make_ring 4 8 NO_SLOT"
  have "spsc_ok (spsc_caches new_thread) ?r" "ring_queue ?r = []"
    unfolding make_ring_def new_thread_def using spsc_ok_init [OF make_ring_4_8]
    by (simp_all add: ring_queue_Nil_iff)
  from spsc_fast_path_empty [OF this, of 8 "\<lambda>obj n. (if obj = None then 1 else 0, n)" 0]
  show ?thesis by auto
qed

text \<open>\<open>Pop_w_cb\<close> on a blocking ring loses objects. Both paths store the position \<open>Pop\<close>
  returns in an \<open>int\<close> and take a negative value for an error. Whenever bit 31 of the position is
  set, from the \<open>2 ^ 31\<close>th pop on for the next \<open>2 ^ 31\<close>, the object is removed from the ring, the
  callback is not called, and a negative number that is not the position is returned.\<close>

lemma block_pop_w_cb_loses:
  assumes "sz \<le> r_objSize r" "r_head r \<noteq> r_tail r" "2 ^ 31 \<le> unat (r_tail r) mod 2 ^ 32"
  shows "\<exists>rc < 0. Pop_w_cb_fast Block sz l r cb args = Value (rc, args, l, r\<lparr>r_tail := r_tail r + 1\<rparr>) \<and>
    Pop_w_cb_trampoline Block sz l r cb args = Value (rc, args, l, r\<lparr>r_tail := r_tail r + 1\<rparr>)"
proof -
  have neg: "int_of_ssize (ssize_of (r_tail r)) < 0"
    unfolding int_of_ssize_neg_iff by (rule assms(3))
  moreover have "\<not> r_objSize r < sz" using assms(1) by simp
  ultimately show ?thesis
    using assms(2)
    by (intro exI [of _ "int_of_ssize (ssize_of (r_tail r))"])
      (simp add: Pop_w_cb_fast_def Pop_w_cb_trampoline_def zero_copy traits Pop_BlockRingBuf_def Let_def)
qed

lemma block_pop_w_cb_loses_example:
  "\<exists>rc < 0. Pop_w_cb_fast Block 1 new_thread (block_demo\<lparr>r_head := 2 ^ 31 + 1, r_tail := 2 ^ 31\<rparr>) first_byte 0 =
     Value (rc, 0, new_thread, block_demo\<lparr>r_head := 2 ^ 31 + 1, r_tail := 2 ^ 31 + 1\<rparr>)"
  using block_pop_w_cb_loses [of 1 "block_demo\<lparr>r_head := 2 ^ 31 + 1, r_tail := 2 ^ 31\<rparr>" new_thread first_byte 0]
  by auto

end
