(* ===== verification/RB_Wrapper_Life.thy ===== *)
theory RB_Wrapper_Life
  imports RB_Wrapper RB_Steps "HOL-Library.Multiset"
begin

text \<open>
  The life time of \<open>RingBuf\<close> objects: \<open>Init\<close>, the defaulted special member functions, and the
  \<open>std::shared_ptr\<close> with the deleter \<open>dter\<close> that releases the ring. An object is its raw pointer
  \<open>r_\<close> and its shared pointer \<open>p_\<close>; a control block is a use count and the pointer it manages. A
  program is any sequence of constructions, assignments, \<open>Init\<close> calls and destructions.
\<close>

section \<open>The state\<close>

text \<open>
  Rings and control blocks are named by numbers; \<open>Init\<close> takes a fresh one for both. \<open>None\<close> is a
  null pointer, and for \<open>p_\<close> a shared pointer without a control block.
\<close>

record cpp_obj =
  r_ptr :: "nat option"
  p_ctl :: "nat option"

record life =
  objs :: "nat \<Rightarrow> cpp_obj option"
  ctls :: "nat \<Rightarrow> (nat \<times> nat option) option"
  rings :: "nat \<Rightarrow> ring option"
  next_id :: nat
  life_os :: os

datatype life_action =
    Construct nat
  | Copy_construct nat nat
  | Move_construct nat nat
  | Copy_assign nat nat
  | Move_assign nat nat
  | Destroy nat
  | Init nat "string option" c_int c_int

text \<open>Events: a ring was made, a ring was handed to \<open>DelRing\<close>, \<open>Init\<close> returned.\<close>

datatype life_event = Made nat | Deleted nat | Init_ret int

section \<open>Shared pointers\<close>

definition set_obj :: "nat \<Rightarrow> cpp_obj option \<Rightarrow> life \<Rightarrow> life" where
  "set_obj i w s = s\<lparr>objs := (objs s)(i := w)\<rparr>"

text \<open>One more owner, one owner less; the last one calls the deleter on what is managed.\<close>

definition retain :: "nat option \<Rightarrow> life \<Rightarrow> life" where
  "retain p s =
     (case p of
        None \<Rightarrow> s
      | Some c \<Rightarrow> s\<lparr>ctls := (ctls s)(c := map_option (\<lambda>(n, q). (n + 1, q)) (ctls s c))\<rparr>)"

definition dter :: "ring_type \<Rightarrow> env \<Rightarrow> nat option \<Rightarrow> life \<Rightarrow> life \<times> life_event list" where
  "dter T E q s =
     (let s' = s\<lparr>life_os := DelRing (RingBufTypeTrait T :: unit trait) E (Option.bind q (rings s)) (life_os s)\<rparr>
      in case q of
           None \<Rightarrow> (s', [])
         | Some a \<Rightarrow> (s'\<lparr>rings := (rings s)(a := None)\<rparr>, [Deleted a]))"

definition release :: "ring_type \<Rightarrow> env \<Rightarrow> nat option \<Rightarrow> life \<Rightarrow> life \<times> life_event list" where
  "release T E p s =
     (case p of
        None \<Rightarrow> (s, [])
      | Some c \<Rightarrow>
          (case ctls s c of
             None \<Rightarrow> (s, [])
           | Some (n, q) \<Rightarrow>
               if n \<le> 1 then dter T E q (s\<lparr>ctls := (ctls s)(c := None)\<rparr>)
               else (s\<lparr>ctls := (ctls s)(c \<mapsto> (n - 1, q))\<rparr>, [])))"

section \<open>The member functions\<close>

definition RingBuf_Init ::
    "ring_type \<Rightarrow> env \<Rightarrow> size_t \<Rightarrow> size_t \<Rightarrow> nat \<Rightarrow> string option \<Rightarrow> c_int \<Rightarrow> c_int \<Rightarrow> life \<Rightarrow>
     life \<times> life_event list" where
  "RingBuf_Init T E objNum sz i shmPath prot flag s =
     (case GetRing (RingBufTypeTrait T :: unit trait) E objNum sz shmPath prot flag (life_os s) of
        None \<Rightarrow> (s, [])
      | Some (rc, made, os) \<Rightarrow>
          let a = next_id s;
              r = map_option (\<lambda>_. a) made;
              old = Option.bind (objs s i) p_ctl;
              s = s\<lparr>life_os := os, next_id := a + 1, rings := (rings s)(a := made),
                    ctls := (ctls s)(a \<mapsto> (1, r))\<rparr>;
              s = set_obj i (Some \<lparr>r_ptr = r, p_ctl = Some a\<rparr>) s;
              (s, e) = release T E old s
          in (s, (if made = None then [] else [Made a]) @ e @ [Init_ret rc]))"

definition Get_RingBuf :: "cpp_obj \<Rightarrow> nat option" where
  "Get_RingBuf w = r_ptr w"

text \<open>
  A step of the program; it does nothing where the source object does not exist, the target of a
  construction does, or the target of anything else does not, which no program can do.
\<close>

fun life_step ::
    "ring_type \<Rightarrow> env \<Rightarrow> size_t \<Rightarrow> size_t \<Rightarrow> life \<Rightarrow> life_action \<Rightarrow> life \<times> life_event list" where
  "life_step T E n sz s (Construct i) =
     (if objs s i \<noteq> None then (s, [])
      else (set_obj i (Some \<lparr>r_ptr = None, p_ctl = None\<rparr>) s, []))"
| "life_step T E n sz s (Copy_construct i j) =
     (case objs s j of
        None \<Rightarrow> (s, [])
      | Some w \<Rightarrow>
          if objs s i \<noteq> None then (s, [])
          else (set_obj i (Some w) (retain (p_ctl w) s), []))"
| "life_step T E n sz s (Move_construct i j) =
     (case objs s j of
        None \<Rightarrow> (s, [])
      | Some w \<Rightarrow>
          if objs s i \<noteq> None then (s, [])
          else (set_obj i (Some w) (set_obj j (Some (w\<lparr>p_ctl := None\<rparr>)) s), []))"
| "life_step T E n sz s (Copy_assign i j) =
     (case (objs s i, objs s j) of
        (Some v, Some w) \<Rightarrow> release T E (p_ctl v) (set_obj i (Some w) (retain (p_ctl w) s))
      | _ \<Rightarrow> (s, []))"
| "life_step T E n sz s (Move_assign i j) =
     (case (objs s i, objs s j) of
        (Some v, Some w) \<Rightarrow>
          let s = set_obj j (Some (w\<lparr>p_ctl := None\<rparr>)) s;
              old = Option.bind (objs s i) p_ctl;
              s = set_obj i (Some w) s
          in release T E old s
      | _ \<Rightarrow> (s, []))"
| "life_step T E n sz s (Destroy i) =
     (case objs s i of
        None \<Rightarrow> (s, [])
      | Some w \<Rightarrow> release T E (p_ctl w) (set_obj i None s))"
| "life_step T E n sz s (Init i path prot flag) =
     (if objs s i = None then (s, []) else RingBuf_Init T E n sz i path prot flag s)"

definition life_start :: "os \<Rightarrow> life" where
  "life_start os = \<lparr>objs = (\<lambda>_. None), ctls = (\<lambda>_. None), rings = (\<lambda>_. None), next_id = 0, life_os = os\<rparr>"

fun made :: "life_event list \<Rightarrow> nat list" where
  "made [] = []"
| "made (Made a # es) = a # made es"
| "made (_ # es) = made es"

fun deleted :: "life_event list \<Rightarrow> nat list" where
  "deleted [] = []"
| "deleted (Deleted a # es) = a # deleted es"
| "deleted (_ # es) = deleted es"

lemma life_history_append [simp]:
  "made (h @ e) = made h @ made e" "deleted (h @ e) = deleted h @ deleted e"
proof -
  show "made (h @ e) = made h @ made e" by (induction h rule: made.induct) simp_all
  show "deleted (h @ e) = deleted h @ deleted e" by (induction h rule: deleted.induct) simp_all
qed

section \<open>The invariant\<close>

text \<open>The control block an object refers to, as a multiset of at most one.\<close>

fun refs :: "cpp_obj option \<Rightarrow> nat multiset" where
  "refs None = {#}"
| "refs (Some w) = (case p_ctl w of None \<Rightarrow> {#} | Some c \<Rightarrow> {#c#})"

text \<open>
  \<open>X\<close> are the references in the hands of an operation under way. A use count is the number of
  objects with a reference plus those; an object with a reference has the managed pointer as its
  raw pointer; the rings alive are those managed, and with the deleted ones they are those made.
\<close>

definition counts_ok :: "nat multiset \<Rightarrow> life \<Rightarrow> bool" where
  "counts_ok X s \<longleftrightarrow> finite {i. objs s i \<noteq> None} \<and>
     (\<forall>c. ctls s c = None \<longrightarrow> c \<notin># X \<and> (\<forall>i. c \<notin># refs (objs s i))) \<and>
     (\<forall>c n q. ctls s c = Some (n, q) \<longrightarrow>
        n = card {i. c \<in># refs (objs s i)} + count X c \<and> 0 < n \<and> (q = None \<or> q = Some c))"

definition raw_ok :: "life \<Rightarrow> bool" where
  "raw_ok s \<longleftrightarrow> (\<forall>i w c. objs s i = Some w \<longrightarrow> p_ctl w = Some c \<longrightarrow> map_option snd (ctls s c) = Some (r_ptr w))"

definition alive_ok :: "life_event list \<Rightarrow> life \<Rightarrow> bool" where
  "alive_ok h s \<longleftrightarrow> {a. rings s a \<noteq> None} = {a. \<exists>n. ctls s a = Some (n, Some a)} \<and>
     distinct (made h) \<and> distinct (deleted h) \<and>
     set (made h) = {a. rings s a \<noteq> None} \<union> set (deleted h) \<and>
     {a. rings s a \<noteq> None} \<inter> set (deleted h) = {} \<and>
     (\<forall>a \<in> set (made h). a < next_id s) \<and> (\<forall>c. ctls s c \<noteq> None \<longrightarrow> c < next_id s)"

definition life_inv :: "nat multiset \<Rightarrow> life_event list \<Rightarrow> life \<Rightarrow> bool" where
  "life_inv X h s \<longleftrightarrow> counts_ok X s \<and> raw_ok s \<and> alive_ok h s"

lemma count_refs: "count (refs w) c = (if c \<in># refs w then 1 else 0)"
  by (cases w) (auto split: option.split)

lemma refs_live: "c \<in># refs w \<Longrightarrow> w \<noteq> None"
  by (cases w) simp_all

lemma holders_finite: "counts_ok X s \<Longrightarrow> finite {j. c \<in># refs (objs s j)}"
  by (rule finite_subset [of _ "{i. objs s i \<noteq> None}"]) (auto simp: counts_ok_def dest: refs_live)

lemma counts_okD:
  assumes "counts_ok X s"
  shows "ctls s c = Some (n, q) \<Longrightarrow> n = card {i. c \<in># refs (objs s i)} + count X c \<and> 0 < n \<and> (q = None \<or> q = Some c)"
    "ctls s c = None \<Longrightarrow> c \<notin># X \<and> c \<notin># refs (objs s i)"
  using assms unfolding counts_ok_def by blast+

lemma counts_ctl:
  assumes "counts_ok X s" "\<And>d. d \<noteq> c \<Longrightarrow> count X' d = count X d" "objs s' = objs s" "ctls s' = (ctls s)(c := z)"
    and "z = None \<Longrightarrow> c \<notin># X' \<and> card {i. c \<in># refs (objs s i)} = 0"
    and "\<And>n q. z = Some (n, q) \<Longrightarrow>
      n = card {i. c \<in># refs (objs s i)} + count X' c \<and> 0 < n \<and> (q = None \<or> q = Some c)"
  shows "counts_ok X' s'"
proof -
  have "d \<notin># X' \<and> (\<forall>i. d \<notin># refs (objs s i))" if "ctls s' d = None" for d
  proof (cases "d = c")
    case True
    then have "card {i. c \<in># refs (objs s i)} = 0" "c \<notin># X'" using assms(4,5) that by auto
    then show ?thesis using holders_finite [OF assms(1), of c] True by auto
  next
    case False
    then show ?thesis
      using counts_okD(2) [OF assms(1), of d] assms(2) [of d] assms(4) that
      by (auto simp flip: count_eq_zero_iff)
  qed
  moreover have "n = card {i. d \<in># refs (objs s i)} + count X' d \<and> 0 < n \<and> (q = None \<or> q = Some d)"
    if "ctls s' d = Some (n, q)" for d n q
    using counts_okD(1) [OF assms(1), of d n q] assms(2) [of d] assms(4,6) that by (cases "d = c") auto
  ultimately show ?thesis using assms(1,3) by (simp add: counts_ok_def)
qed

lemma raw_okD: "raw_ok s \<Longrightarrow> objs s i = Some w \<Longrightarrow> p_ctl w = Some c \<Longrightarrow> map_option snd (ctls s c) = Some (r_ptr w)"
  by (simp add: raw_ok_def)

text \<open>Changing a use count keeps everything the raw pointers and the rings rest on.\<close>

lemma recount_raw:
  assumes "raw_ok s" "ctls s c = Some (n, q)" "objs s' = objs s" "ctls s' = (ctls s)(c \<mapsto> (m, q))"
  shows "raw_ok s'"
  unfolding raw_ok_def assms(3,4)
proof (intro allI impI)
  fix i w d assume "objs s i = Some w" "p_ctl w = Some d"
  with raw_okD [OF assms(1) this] assms(2) show "map_option snd (((ctls s)(c \<mapsto> (m, q))) d) = Some (r_ptr w)"
    by (cases "d = c") simp_all
qed

lemma recount_alive:
  assumes "alive_ok h s" "ctls s c = Some (n, q)" "rings s' = rings s" "next_id s' = next_id s"
    "ctls s' = (ctls s)(c \<mapsto> (m, q))"
  shows "alive_ok h s'"
proof -
  have same: "{a. \<exists>m. ctls s' a = Some (m, Some a)} = {a. \<exists>m. ctls s a = Some (m, Some a)}"
    unfolding assms(5) using assms(2) by auto
  have "d < next_id s" if "ctls s' d \<noteq> None" for d
    using assms(1,2) that unfolding alive_ok_def assms(5) by (cases "d = c") simp_all
  then show ?thesis using assms(1) unfolding alive_ok_def assms(3,4) same by (elim conjE) (intro conjI; simp)
qed

text \<open>Storing an object moves its reference from the operation into the object, and the old one back.\<close>

lemma counts_set_obj:
  assumes "counts_ok (refs w + X) s"
  shows "counts_ok (refs (objs s i) + X) (set_obj i w s)"
proof -
  let ?h = "\<lambda>f c. card {j. c \<in># refs (f j)}"
  let ?objs = "(objs s)(i := w)"
  have fin: "finite {j. objs s j \<noteq> None}" using assms by (simp add: counts_ok_def)
  note holders = holders_finite [OF assms]
  have card: "?h ?objs c + count (refs (objs s i)) c = ?h (objs s) c + count (refs w) c" for c
    using card_upd [OF holders [of c], of i "\<lambda>j. c \<in># refs (?objs j)"] by (simp add: count_refs)
  have "finite {j. ?objs j \<noteq> None}"
    by (rule finite_subset [of _ "insert i {j. objs s j \<noteq> None}"]) (use fin in auto)
  moreover have "n = ?h ?objs c + count (refs (objs s i) + X) c" if "ctls s c = Some (n, q)" for c n q
    using counts_okD(1) [OF assms that] card [of c] by (simp del: fun_upd_apply)
  moreover have "c \<notin># refs (objs s i) + X \<and> (\<forall>j. c \<notin># refs (?objs j))" if "ctls s c = None" for c
    using assms that by (auto simp: counts_ok_def)
  ultimately show ?thesis using assms unfolding counts_ok_def set_obj_def by simp
qed

lemma raw_set_obj:
  assumes "raw_ok s" "\<And>v c. w = Some v \<Longrightarrow> p_ctl v = Some c \<Longrightarrow> map_option snd (ctls s c) = Some (r_ptr v)"
  shows "raw_ok (set_obj i w s)"
  using assms by (auto simp: raw_ok_def set_obj_def)

lemma life_set_obj:
  assumes "life_inv (refs w + X) h s"
    and "\<And>v c. w = Some v \<Longrightarrow> p_ctl v = Some c \<Longrightarrow> map_option snd (ctls s c) = Some (r_ptr v)"
  shows "life_inv (refs (objs s i) + X) h (set_obj i w s)"
proof -
  have "alive_ok h (set_obj i w s) = alive_ok h s" unfolding alive_ok_def set_obj_def by simp
  then show ?thesis
    using counts_set_obj [of w X s i] raw_set_obj [OF _ assms(2)] assms(1) by (simp add: life_inv_def)
qed

lemma life_retain:
  assumes "life_inv X h s" "\<And>c. p = Some c \<Longrightarrow> ctls s c \<noteq> None"
  shows "life_inv (refs (Some \<lparr>r_ptr = a, p_ctl = p\<rparr>) + X) h (retain p s)"
proof (cases p)
  case None
  then show ?thesis using assms(1) by (simp add: retain_def)
next
  case (Some c)
  then obtain n q where c: "ctls s c = Some (n, q)" using assms(2) by fastforce
  have s': "retain p s = s\<lparr>ctls := (ctls s)(c \<mapsto> (n + 1, q))\<rparr>" by (simp add: retain_def Some c)
  have parts: "counts_ok X s" "raw_ok s" "alive_ok h s" using assms(1) by (simp_all add: life_inv_def)
  have "counts_ok (add_mset c X) (retain p s)"
    by (rule counts_ctl [OF parts(1), where c = c and z = "Some (n + 1, q)"]) (use counts_okD(1) [OF parts(1) c] in \<open>simp_all add: s'\<close>)
  moreover have "raw_ok (retain p s)"
    by (rule recount_raw [OF parts(2) c]) (simp_all add: s')
  moreover have "alive_ok h (retain p s)"
    by (rule recount_alive [OF parts(3) c]) (simp_all add: s')
  ultimately show ?thesis by (simp add: life_inv_def Some)
qed

lemma life_release:
  assumes "life_inv (refs (Some \<lparr>r_ptr = a, p_ctl = p\<rparr>) + X) h s" "release T E p s = (s', e)"
  shows "life_inv X (h @ e) s' \<and> made e = [] \<and> objs s' = objs s"
proof (cases p)
  case None
  then show ?thesis using assms by (simp add: release_def)
next
  case (Some c)
  have inv: "life_inv (add_mset c X) h s" using assms(1) Some by simp
  then have parts: "counts_ok (add_mset c X) s" "raw_ok s" "alive_ok h s" by (simp_all add: life_inv_def)
  obtain n q where c: "ctls s c = Some (n, q)"
    using counts_okD(2) [OF parts(1), of c] by (cases "ctls s c") auto
  have n: "n = card {i. c \<in># refs (objs s i)} + Suc (count X c)" and q: "q = None \<or> q = Some c"
    using counts_okD(1) [OF parts(1) c] by simp_all
  show ?thesis
  proof (cases "n \<le> 1")
    case False
    then have s': "s' = s\<lparr>ctls := (ctls s)(c \<mapsto> (n - 1, q))\<rparr>" and e: "e = []"
      using assms(2) by (simp_all add: release_def Some c)
    have "counts_ok X s'"
      by (rule counts_ctl [OF parts(1), where c = c and z = "Some (n - 1, q)"]) (use n q False in \<open>simp_all add: s'\<close>)
    moreover have "raw_ok s'" by (rule recount_raw [OF parts(2) c]) (simp_all add: s')
    moreover have "alive_ok h s'" by (rule recount_alive [OF parts(3) c]) (simp_all add: s')
    ultimately show ?thesis by (simp add: life_inv_def e s')
  next
    case True
    then have empty: "card {i. c \<in># refs (objs s i)} = 0" "count X c = 0" using n by simp_all
    then have none: "c \<notin># refs (objs s i)" for i using holders_finite [OF parts(1), of c] by auto
    obtain os' where s': "s' = s\<lparr>ctls := (ctls s)(c := None), life_os := os',
        rings := (case q of None \<Rightarrow> rings s | Some a \<Rightarrow> (rings s)(a := None))\<rparr>"
      and e: "e = (case q of None \<Rightarrow> [] | Some a \<Rightarrow> [Deleted a])"
      using assms(2) True by (cases q) (auto simp: release_def Some c dter_def Let_def)
    have "counts_ok X s'"
      by (rule counts_ctl [OF parts(1), where c = c and z = None])
        (use empty in \<open>simp_all add: s' count_eq_zero_iff\<close>)
    moreover have "raw_ok s'"
      unfolding raw_ok_def
    proof (intro allI impI)
      fix i w d assume w: "objs s' i = Some w" "p_ctl w = Some d"
      then have "d \<noteq> c" using none [of i] by (auto simp: s')
      then show "map_option snd (ctls s' d) = Some (r_ptr w)"
        using raw_okD [OF parts(2), of i w d] w by (simp add: s')
    qed
    moreover have "alive_ok (h @ e) s'"
    proof (cases q)
      case None
      then show ?thesis using parts(3) c unfolding alive_ok_def by (auto simp: s' e)
    next
      case (Some a)
      then have "a = c" using q by simp
      then show ?thesis using parts(3) c Some unfolding alive_ok_def by (auto simp: s' e)
    qed
    ultimately show ?thesis by (cases q) (simp_all add: life_inv_def s' e)
  qed
qed

text \<open>The reference an object holds, with its raw pointer forgotten.\<close>

lemma refs_of_ctl: "refs w = refs (Some \<lparr>r_ptr = a, p_ctl = Option.bind w p_ctl\<rparr>)"
  by (cases w) simp_all

lemma life_raw: "life_inv X h s \<Longrightarrow> objs s i = Some w \<Longrightarrow> p_ctl w = Some c \<Longrightarrow>
    map_option snd (ctls s c) = Some (r_ptr w)"
  using raw_okD by (simp add: life_inv_def)

lemma life_put:
  assumes "life_inv (refs w) h s"
    and "\<And>v c. w = Some v \<Longrightarrow> p_ctl v = Some c \<Longrightarrow> map_option snd (ctls s c) = Some (r_ptr v)"
  shows "life_inv (refs (objs s i)) h (set_obj i w s)"
  using life_set_obj [of w "{#}" h s i] assms by simp

text \<open>Overwriting or destroying an object: its reference is released at the end.\<close>

lemma life_replace:
  assumes "life_inv (refs w) h s" "release T E (Option.bind (objs s i) p_ctl) (set_obj i w s) = (s', e)"
    and "\<And>v c. w = Some v \<Longrightarrow> p_ctl v = Some c \<Longrightarrow> map_option snd (ctls s c) = Some (r_ptr v)"
  shows "life_inv {#} (h @ e) s' \<and> made e = []"
proof -
  have "life_inv (refs (objs s i)) h (set_obj i w s)" by (rule life_put) (use assms(1,3) in simp_all)
  then show ?thesis
    using life_release [OF _ assms(2), of None "{#}" h] refs_of_ctl [of "objs s i" None] by simp
qed

lemma life_make:
  assumes inv: "life_inv {#} h s"
    and s': "s' = s\<lparr>life_os := os', next_id := next_id s + 1, rings := (rings s)(next_id s := m),
      ctls := (ctls s)(next_id s \<mapsto> (1, map_option (\<lambda>_. next_id s) m))\<rparr>"
  shows "life_inv {#next_id s#} (h @ (if m = None then [] else [Made (next_id s)])) s'"
proof -
  let ?a = "next_id s"
  have parts: "counts_ok {#} s" "raw_ok s" "alive_ok h s" using inv by (simp_all add: life_inv_def)
  have fresh: "ctls s ?a = None" "?a \<notin> set (made h)"
    using parts(3) unfolding alive_ok_def by (metis less_irrefl)+
  then have gone: "rings s ?a = None" "?a \<notin> set (deleted h)" using parts(3) by (auto simp: alive_ok_def)
  have none: "?a \<notin># refs (objs s i)" for i using counts_okD(2) [OF parts(1) fresh(1)] by blast
  have "counts_ok {#?a#} s'"
    by (rule counts_ctl [OF parts(1), where c = ?a and z = "Some (1, map_option (\<lambda>_. ?a) m)"])
      (use none in \<open>auto simp: s'\<close>)
  moreover have "raw_ok s'"
    unfolding raw_ok_def
  proof (intro allI impI)
    fix i w d assume w: "objs s' i = Some w" "p_ctl w = Some d"
    then have "d \<noteq> ?a" using none [of i] by (auto simp: s')
    then show "map_option snd (ctls s' d) = Some (r_ptr w)"
      using raw_okD [OF parts(2), of i w d] w by (simp add: s')
  qed
  moreover have "alive_ok (h @ (if m = None then [] else [Made ?a])) s'"
  proof -
    have same: "{b. \<exists>n. ctls s' b = Some (n, Some b)} =
        {b. \<exists>n. ctls s b = Some (n, Some b)} \<union> (if m = None then {} else {?a})"
      "{b. rings s' b \<noteq> None} = {b. rings s b \<noteq> None} \<union> (if m = None then {} else {?a})"
      using fresh(1) gone(1) by (auto simp: s')
    have "b < next_id s'" if "ctls s' b \<noteq> None" for b
      using parts(3) that unfolding alive_ok_def by (cases "b = ?a") (simp_all add: s' less_SucI)
    moreover have "b < next_id s'" if "b \<in> set (made h)" for b
      using parts(3) that unfolding alive_ok_def by (simp add: s' less_SucI)
    ultimately show ?thesis
      using parts(3) fresh(2) gone(2) unfolding alive_ok_def same
      by (elim conjE) (intro conjI; auto simp: s')
  qed
  ultimately show ?thesis by (simp add: life_inv_def)
qed

lemma life_inv_Init_ret: "life_inv X (h @ [Init_ret rc]) s = life_inv X h s"
  by (simp add: life_inv_def alive_ok_def)

lemma life_inv_Init:
  assumes inv: "life_inv {#} h s" and call: "RingBuf_Init T E n sz i path prot flag s = (s', e)"
  shows "life_inv {#} (h @ e) s'"
proof (cases "GetRing (RingBufTypeTrait T :: unit trait) E n sz path prot flag (life_os s)")
  case None
  then show ?thesis using assms by (simp add: RingBuf_Init_def)
next
  case (Some x)
  obtain rc m os' where x: "x = (rc, m, os')" by (metis prod_cases3)
  let ?a = "next_id s"
  let ?r = "map_option (\<lambda>_. ?a) m"
  let ?s1 = "s\<lparr>life_os := os', next_id := ?a + 1, rings := (rings s)(?a := m), ctls := (ctls s)(?a \<mapsto> (1, ?r))\<rparr>"
  let ?w = "Some \<lparr>r_ptr = ?r, p_ctl = Some ?a\<rparr>"
  let ?m = "if m = None then [] else [Made ?a]"
  obtain e' where rel: "release T E (Option.bind (objs s i) p_ctl) (set_obj i ?w ?s1) = (s', e')"
    and e: "e = ?m @ e' @ [Init_ret rc]"
    using call by (auto simp: RingBuf_Init_def Some x Let_def split: prod.splits)
  have "life_inv (refs ?w) (h @ ?m) ?s1" using life_make [OF inv, where s' = ?s1 and os' = os' and m = m] by simp
  then have "life_inv {#} ((h @ ?m) @ e') s' \<and> made e' = []"
    by (rule life_replace) (use rel in auto)
  then show ?thesis using life_inv_Init_ret [of "{#}" "h @ ?m @ e'"] by (simp add: e)
qed

text \<open>Taking a further reference to what an object refers to, and leaving an object without its own.\<close>

lemma life_share:
  assumes inv: "life_inv {#} h s" and w: "objs s j = Some w"
  shows "life_inv (refs (Some w)) h (retain (p_ctl w) s)" "objs (retain (p_ctl w) s) = objs s"
    "p_ctl w = Some c \<Longrightarrow> map_option snd (ctls (retain (p_ctl w) s) c) = Some (r_ptr w)"
proof -
  show "life_inv (refs (Some w)) h (retain (p_ctl w) s)"
    using life_retain [OF inv, of "p_ctl w" None] life_raw [OF inv w] by fastforce
  show "objs (retain (p_ctl w) s) = objs s" by (simp add: retain_def split: option.split)
  have "map_option snd (ctls (retain (p_ctl w) s) c) = map_option snd (ctls s c)"
    by (auto simp: retain_def map_option_case split: option.split)
  then show "p_ctl w = Some c \<Longrightarrow> map_option snd (ctls (retain (p_ctl w) s) c) = Some (r_ptr w)"
    using life_raw [OF inv w] by simp
qed

lemma life_move_out:
  assumes inv: "life_inv {#} h s" and w: "objs s j = Some w"
  shows "life_inv (refs (Some w)) h (set_obj j (Some (w\<lparr>p_ctl := None\<rparr>)) s)"
    "p_ctl w = Some c \<Longrightarrow>
      map_option snd (ctls (set_obj j (Some (w\<lparr>p_ctl := None\<rparr>)) s) c) = Some (r_ptr w)"
proof -
  have "life_inv (refs (objs s j)) h (set_obj j (Some (w\<lparr>p_ctl := None\<rparr>)) s)"
    by (rule life_put) (use inv in auto)
  then show "life_inv (refs (Some w)) h (set_obj j (Some (w\<lparr>p_ctl := None\<rparr>)) s)" by (simp only: w)
  show "p_ctl w = Some c \<Longrightarrow>
      map_option snd (ctls (set_obj j (Some (w\<lparr>p_ctl := None\<rparr>)) s) c) = Some (r_ptr w)"
    using life_raw [OF inv w] by (simp add: set_obj_def)
qed

lemma life_inv_construct:
  assumes inv: "life_inv {#} h s" and none: "objs s i = None"
  shows "life_inv {#} h (set_obj i (Some \<lparr>r_ptr = None, p_ctl = None\<rparr>) s)"
    and "objs s j = Some w \<Longrightarrow> life_inv {#} h (set_obj i (Some w) (retain (p_ctl w) s))"
    and "objs s j = Some w \<Longrightarrow> life_inv {#} h (set_obj i (Some w) (set_obj j (Some (w\<lparr>p_ctl := None\<rparr>)) s))"
proof -
  have "life_inv (refs (objs s i)) h (set_obj i (Some \<lparr>r_ptr = None, p_ctl = None\<rparr>) s)"
    by (rule life_put) (use inv in auto)
  then show "life_inv {#} h (set_obj i (Some \<lparr>r_ptr = None, p_ctl = None\<rparr>) s)" using none by simp
next
  assume w: "objs s j = Some w"
  note share = life_share [OF inv w]
  have "life_inv (refs (objs (retain (p_ctl w) s) i)) h (set_obj i (Some w) (retain (p_ctl w) s))"
    by (rule life_put [OF share(1)]) (use share(3) in auto)
  then show "life_inv {#} h (set_obj i (Some w) (retain (p_ctl w) s))" using share(2) none by simp
next
  assume w: "objs s j = Some w"
  let ?s = "set_obj j (Some (w\<lparr>p_ctl := None\<rparr>)) s"
  note moved = life_move_out [OF inv w]
  have "life_inv (refs (objs ?s i)) h (set_obj i (Some w) ?s)"
    by (rule life_put [OF moved(1)]) (use moved(2) in auto)
  moreover have "objs ?s i = None" using w none by (auto simp: set_obj_def)
  ultimately show "life_inv {#} h (set_obj i (Some w) ?s)" by simp
qed

lemma life_inv_assign:
  assumes inv: "life_inv {#} h s" and w: "objs s j = Some w" "objs s i = Some v"
  shows "release T E (p_ctl v) (set_obj i (Some w) (retain (p_ctl w) s)) = (s', e) \<Longrightarrow> life_inv {#} (h @ e) s'"
    and "s'' = set_obj j (Some (w\<lparr>p_ctl := None\<rparr>)) s \<Longrightarrow>
      release T E (Option.bind (objs s'' i) p_ctl) (set_obj i (Some w) s'') = (s', e) \<Longrightarrow> life_inv {#} (h @ e) s'"
proof -
  note share = life_share [OF inv w(1)]
  assume "release T E (p_ctl v) (set_obj i (Some w) (retain (p_ctl w) s)) = (s', e)"
  then have "release T E (Option.bind (objs (retain (p_ctl w) s) i) p_ctl)
      (set_obj i (Some w) (retain (p_ctl w) s)) = (s', e)"
    using w share(2) by simp
  then have "life_inv {#} (h @ e) s' \<and> made e = []"
    by (rule life_replace [OF share(1)]) (use share(3) in auto)
  then show "life_inv {#} (h @ e) s'" ..
next
  note moved = life_move_out [OF inv w(1)]
  assume new: "s'' = set_obj j (Some (w\<lparr>p_ctl := None\<rparr>)) s"
  assume "release T E (Option.bind (objs s'' i) p_ctl) (set_obj i (Some w) s'') = (s', e)"
  then have "life_inv {#} (h @ e) s' \<and> made e = []"
    by (rule life_replace [OF moved(1), folded new]) (use moved(2) new in auto)
  then show "life_inv {#} (h @ e) s'" ..
qed

lemma life_inv_step:
  assumes inv: "life_inv {#} h s" and step: "life_step T E n sz s a = (s', e)"
  shows "life_inv {#} (h @ e) s'"
proof (cases a)
  case (Construct i)
  then show ?thesis using step inv life_inv_construct(1) [OF inv] by (cases "objs s i") auto
next
  case (Copy_construct i j)
  then show ?thesis using step inv life_inv_construct(2) [OF inv] by (auto split: option.splits if_splits)
next
  case (Move_construct i j)
  then show ?thesis using step inv life_inv_construct(3) [OF inv] by (auto split: option.splits if_splits)
next
  case (Copy_assign i j)
  then show ?thesis using step inv life_inv_assign(1) [OF inv] by (auto split: option.splits)
next
  case (Move_assign i j)
  then show ?thesis
    using step inv life_inv_assign(2) [OF inv _ _ refl] by (auto simp: Let_def split: option.splits)
next
  case (Destroy i)
  show ?thesis
  proof (cases "objs s i")
    case None
    then show ?thesis using step inv Destroy by simp
  next
    case (Some w)
    then show ?thesis using life_replace [of None h s T E i s' e] inv step Destroy by simp
  qed
next
  case (Init i path prot flag)
  then show ?thesis using life_inv_Init [OF inv] step inv by (auto split: if_splits)
qed

lemma life_inv_start: "life_inv {#} [] (life_start os)"
  by (simp add: life_inv_def counts_ok_def raw_ok_def alive_ok_def life_start_def)

interpretation life: history_system "life_step T E n sz" "life_inv {#}" "\<lambda>_. True" for T E n sz
  by unfold_locales (rule life_inv_step)

lemma release_objs: "objs (fst (release T E p s)) = objs s"
  by (simp add: release_def dter_def Let_def split: option.split)

lemma Init_other: "k \<noteq> i \<Longrightarrow> objs (fst (RingBuf_Init T E n sz i path prot flag s)) k = objs s k"
  by (simp add: RingBuf_Init_def Let_def release_objs set_obj_def split_beta split: option.split)

section \<open>Properties\<close>

text \<open>C13: Ownership is right. Whatever a program does with objects of the class, a ring is handed
  to its \<open>Del\<close> function at most once and only if \<open>Init\<close> made it; the raw pointer of an object that
  holds a reference is null or points to a ring that has not been deleted; and once all objects
  are destroyed every ring made has been deleted.\<close>

theorem wrapper_ownership:
  assumes "exec (life_step T E n sz) (life_start os) as = (s, h)"
  shows "distinct (deleted h) \<and> set (deleted h) \<subseteq> set (made h) \<and>
    (\<forall>i w c a. objs s i = Some w \<longrightarrow> p_ctl w = Some c \<longrightarrow> r_ptr w = Some a \<longrightarrow>
       rings s a \<noteq> None \<and> a \<notin> set (deleted h)) \<and>
    ((\<forall>i. objs s i = None) \<longrightarrow> set (deleted h) = set (made h))"
proof -
  have inv: "life_inv {#} h s" using life.inv_run [OF life_inv_start assms] by simp
  then have parts: "counts_ok {#} s" "raw_ok s" "alive_ok h s" by (simp_all add: life_inv_def)
  have "rings s a \<noteq> None" if "objs s i = Some w" "p_ctl w = Some c" "r_ptr w = Some a" for i w c a
  proof -
    have "map_option snd (ctls s c) = Some (Some a)" using raw_okD [OF parts(2) that(1,2)] that(3) by simp
    then obtain m where m: "ctls s c = Some (m, Some a)" by auto
    with counts_okD(1) [OF parts(1) m] have "a = c" by simp
    with m parts(3) show ?thesis unfolding alive_ok_def by blast
  qed
  moreover have "{a. rings s a \<noteq> None} = {}" if "\<And>i. objs s i = None"
  proof -
    have "ctls s c = None" for c
      using counts_okD(1) [OF parts(1), of c] that by (cases "ctls s c") auto
    then show ?thesis using parts(3) unfolding alive_ok_def by simp
  qed
  moreover from parts(3) have "distinct (deleted h)" unfolding alive_ok_def by (elim conjE)
  moreover from parts(3) have "set (made h) = {a. rings s a \<noteq> None} \<union> set (deleted h)"
    unfolding alive_ok_def by (elim conjE)
  moreover from parts(3) have "{a. rings s a \<noteq> None} \<inter> set (deleted h) = {}"
    unfolding alive_ok_def by (elim conjE)
  then have "a \<notin> set (deleted h)" if "rings s a \<noteq> None" for a using that by blast
  ultimately show ?thesis by (intro conjI allI impI; blast)
qed

theorem wrapper_ownership_witness:
  "(case exec (life_step Mpmc plain_env 4 8) (life_start os_start)
      [Construct 0, Init 0 None MAP_MALLOC 0, Copy_construct 1 0, Destroy 0] of
      (s, h) \<Rightarrow> made h = [0] \<and> rings s 0 \<noteq> None \<and> 0 \<notin> set (deleted h))"
proof -
  let ?run = "exec (life_step Mpmc plain_env 4 8) (life_start os_start)
    [Construct 0, Init 0 None MAP_MALLOC 0, Copy_construct 1 0, Destroy 0]"
  have "made (snd ?run) = [0]" by code_simp
  moreover have "map_option (\<lambda>w. (r_ptr w, p_ctl w)) (objs (fst ?run) 1) = Some (Some 0, Some 0)" by code_simp
  then obtain w where "objs (fst ?run) 1 = Some w" "p_ctl w = Some 0" "r_ptr w = Some 0" by auto
  then have "rings (fst ?run) 0 \<noteq> None \<and> 0 \<notin> set (deleted (snd ?run))"
    using wrapper_ownership [OF surjective_pairing] by blast
  ultimately show ?thesis by (simp only: split_beta simp_thms)
qed

text \<open>A moved-from object keeps its raw pointer. When the only owner of a ring is moved from and
  the new owner is destroyed, the ring is deleted, while the raw pointer of the object moved from
  still is its address: a call on that object would use freed memory.\<close>

lemma moved_from_dangles:
  assumes "exec (life_step T E n sz) (life_start os) as = (s, h)"
    and "objs s i = Some w" "r_ptr w = Some a" "p_ctl w = Some c"
    and "\<And>k v. objs s k = Some v \<Longrightarrow> p_ctl v = Some c \<Longrightarrow> k = i"
    and "objs s j = None"
  shows "case exec (life_step T E n sz) s [Move_construct j i, Destroy j] of (s', e) \<Rightarrow>
    objs s' i = Some \<lparr>r_ptr = Some a, p_ctl = None\<rparr> \<and> rings s' a = None \<and> deleted e = [a]"
proof -
  have inv: "life_inv {#} h s" using life.inv_run [OF life_inv_start assms(1)] by simp
  then have parts: "counts_ok {#} s" "raw_ok s" by (simp_all add: life_inv_def)
  obtain m where m: "ctls s c = Some (m, Some a)"
    using raw_okD [OF parts(2) assms(2,4)] assms(3) by auto
  have "{k. c \<in># refs (objs s k)} = {i}"
  proof (rule set_eqI)
    fix k show "k \<in> {k. c \<in># refs (objs s k)} \<longleftrightarrow> k \<in> {i}"
      using assms(2,4) assms(5) [of k] by (cases "objs s k") (auto split: option.splits)
  qed
  then have "m = 1" using counts_okD(1) [OF parts(1) m] by simp
  moreover have "j \<noteq> i" using assms(2,6) by auto
  moreover have "w\<lparr>p_ctl := None\<rparr> = \<lparr>r_ptr = Some a, p_ctl = None\<rparr>" using assms(3) by (cases w) simp
  ultimately show ?thesis
    using assms(2,4,6) m by (simp add: set_obj_def release_def dter_def Let_def)
qed

lemma moved_from_dangles_example:
  "(case exec (life_step Mpmc plain_env 4 8)
      (fst (exec (life_step Mpmc plain_env 4 8) (life_start os_start) [Construct 0, Init 0 None MAP_MALLOC 0]))
      [Move_construct 1 0, Destroy 1] of
      (s, h) \<Rightarrow> map_option r_ptr (objs s 0) = Some (Some 0) \<and> rings s 0 = None)"
proof -
  let ?run = "exec (life_step Mpmc plain_env 4 8) (life_start os_start) [Construct 0, Init 0 None MAP_MALLOC 0]"
  have "map_option (\<lambda>w. (r_ptr w, p_ctl w)) (objs (fst ?run) 0) = Some (Some 0, Some 0)" by code_simp
  then obtain w where w: "objs (fst ?run) 0 = Some w" "r_ptr w = Some 0" "p_ctl w = Some 0" by auto
  have others: "objs (fst ?run) k = None" if "k \<noteq> 0" for k
    using that by (simp add: life_start_def set_obj_def Let_def split_beta Init_other)
  show ?thesis
    using moved_from_dangles [OF surjective_pairing w, of 1] others by (fastforce simp: split_beta)
qed

end
