(* ===== verification/RB_Wrapper_Fifo.thy ===== *)
theory RB_Wrapper_Fifo
  imports RB_Wrapper
begin

text \<open>
  What a client of the class may rely on for every \<open>RingType\<close>, and so without knowing the variant
  behind it: the type of every \<open>Push\<close> and \<open>Pop\<close>, in any state whatever, and that an object of the
  class used by one thread is a first-in first-out queue of \<open>Obj\<close> values bounded by \<open>ObjNum\<close>. The
  second is the contract \<open>bounded_queue\<close>, here with the return codes of the library as the only
  thing the client looks at.
\<close>

section \<open>The type of a call\<close>

definition push_codes :: "int set" where
  "push_codes = {RINGBUF_PUSH_SIZE_TOO_LARGE, RINGBUF_FULL, RINGBUF_CONTENTION}"

definition pop_codes :: "int set" where
  "pop_codes = {RINGBUF_POP_SIZE_TOO_LARGE, RINGBUF_EMPTY, RINGBUF_CONTENTION, RINGBUF_SLOT_WRITING_DATA}"

text \<open>What a push may have done: nothing, or taken the position it returns, having written no byte
  outside the first \<open>n\<close> of that position's element and no slot but that element's.\<close>

definition push_result :: "ring \<Rightarrow> size_t \<Rightarrow> int \<Rightarrow> ring \<Rightarrow> bool" where
  "push_result r sz rc r' \<longleftrightarrow>
     rc \<in> push_codes \<and> r' = r \<or>
     rc = ssize_of (r_head r) \<and> sz \<le> r_objSize r \<and>
       geom r' = geom r \<and> r_head r' = r_head r + 1 \<and> r_tail r' = r_tail r \<and>
       {a. bytes r' a \<noteq> bytes r a} \<subseteq>
         (\<lambda>i. GET_BUFFER r (r_head r AND r_mask r) + of_nat i) ` {..<unat sz} \<and>
       {a. cells r' a \<noteq> cells r a} \<subseteq> {GET_SLOT r (r_head r AND r_mask r)}"

definition pop_result :: "ring \<Rightarrow> size_t \<Rightarrow> int \<Rightarrow> byte list option \<Rightarrow> ring \<Rightarrow> bool" where
  "pop_result r sz rc buf r' \<longleftrightarrow>
     rc \<in> pop_codes \<and> buf = None \<and> r' = r \<or>
     rc = ssize_of (r_tail r) \<and> sz \<le> r_objSize r \<and>
       buf = Some (memcpy_out r (GET_BUFFER r (r_tail r AND r_mask r)) (unat sz)) \<and>
       geom r' = geom r \<and> r_tail r' = r_tail r + 1 \<and> r_head r' = r_head r \<and> bytes r' = bytes r \<and>
       {a. cells r' a \<noteq> cells r a} \<subseteq> {GET_SLOT r (r_tail r AND r_mask r)}"

lemma bytes_memcpy_in:
  "{x. bytes (memcpy_in r a src n) x \<noteq> bytes r x} \<subseteq> (\<lambda>i. a + of_nat i) ` {..<n}"
proof (induction n)
  case (Suc n)
  have "{x. bytes (memcpy_in r a src (Suc n)) x \<noteq> bytes r x} \<subseteq>
      insert (a + of_nat n) {x. bytes (memcpy_in r a src n) x \<noteq> bytes r x}"
    by (auto simp: write_byte_def)
  with Suc show ?case by (auto simp: lessThan_Suc)
qed simp

lemma memcpy_in_written:
  "bytes (memcpy_in r a src n) x \<noteq> bytes r x \<Longrightarrow> x \<in> (\<lambda>i. a + of_nat i) ` {..<n}"
  using bytes_memcpy_in by blast

lemma bytes_memcpy_in_head [simp]:
  "bytes (memcpy_in (r\<lparr>r_head := h\<rparr>) a src n) = bytes (memcpy_in r a src n)"
  by (induction n) (simp_all add: write_byte_def)

lemma store_slot_fields [simp]:
  "bytes (store_slot r j v) = bytes r" "cells (store_slot r j v) = (cells r)(GET_SLOT r j := v)"
  by (simp_all add: store_slot_def)

lemma cells_memcpy_in [simp]: "cells (memcpy_in r a src n) = cells r"
  by (induction n) (simp_all add: write_byte_def)

lemmas result_defs = push_result_def pop_result_def push_codes_def pop_codes_def

lemma slot_update_cells [simp]: "{x. ((f :: size_t \<Rightarrow> size_t)(j := v)) x \<noteq> f x} \<subseteq> {j}"
  by auto

lemma GET_frame [simp]:
  "GET_SLOT (r\<lparr>r_head := h\<rparr>) = GET_SLOT r" "GET_SLOT (r\<lparr>r_tail := h\<rparr>) = GET_SLOT r"
  "GET_BUFFER (r\<lparr>r_head := h\<rparr>) = GET_BUFFER r" "GET_BUFFER (r\<lparr>r_tail := h\<rparr>) = GET_BUFFER r"
  "GET_SLOT (memcpy_in r a src n) = GET_SLOT r"
  by (simp_all add: GET_SLOT_def GET_BUFFER_def fun_eq_iff)

text \<open>One lemma for each C function.\<close>

lemma Push_Spsc_result: "Push_SpscRingBuf l r args sz = (rc, l', r') \<Longrightarrow> push_result r sz rc r'"
  by (auto simp: Push_SpscRingBuf_def Let_def result_defs not_less dest!: memcpy_in_written
      split: if_splits)

lemma Push_Mpsc_result: "Push_MpscRingBuf r args sz = (rc, r') \<Longrightarrow> push_result r sz rc r'"
  by (auto simp: Push_MpscRingBuf_def Let_def cas_head_def result_defs not_less
      dest!: memcpy_in_written split: if_splits)

lemma Push_Mpmc_result: "Push_MpmcRingBuf r args sz = Some (rc, r') \<Longrightarrow> push_result r sz rc r'"
  by (auto simp: Push_MpmcRingBuf_def Let_def cas_head_def result_defs not_less
      dest!: memcpy_in_written split: if_splits option.splits)

lemma Push_Block_result: "Push_BlockRingBuf r err args sz = Some (rc, err', r') \<Longrightarrow> push_result r sz rc r'"
  by (auto simp: Push_BlockRingBuf_def Let_def result_defs not_less
      dest!: memcpy_in_written split: if_splits)

lemma Pop_Spsc_result: "Pop_SpscRingBuf l r sz = (rc, buf, l', r') \<Longrightarrow> pop_result r sz rc buf r'"
  by (auto simp: Pop_SpscRingBuf_def Let_def result_defs not_less split: if_splits)

lemma Pop_Mpsc_result: "Pop_MpscRingBuf l r sz = (rc, buf, l', r') \<Longrightarrow> pop_result r sz rc buf r'"
  by (auto simp: Pop_MpscRingBuf_def Let_def result_defs not_less stat_flags(3) split: if_splits)

lemma Pop_Mpmc_result: "Pop_MpmcRingBuf r sz = Some (rc, buf, r') \<Longrightarrow> pop_result r sz rc buf r'"
  by (auto simp: Pop_MpmcRingBuf_def Let_def cas_tail_def result_defs not_less memcpy_out_def
      split: if_splits option.splits)

lemma Pop_Block_result: "Pop_BlockRingBuf r sz = Some (rc, buf, r') \<Longrightarrow> pop_result r sz rc buf r'"
  by (auto simp: Pop_BlockRingBuf_def Let_def result_defs not_less split: if_splits)

lemmas C_results = Push_Spsc_result Push_Mpsc_result Push_Mpmc_result Push_Block_result
  Pop_Spsc_result Pop_Mpsc_result Pop_Mpmc_result Pop_Block_result

lemma Push_raw_result: "Push_raw T l r data len = Value (rc, l', r') \<Longrightarrow> push_result r len rc r'"
  by (cases T) (auto simp: Push_raw_def traits intro: C_results split: prod.splits option.splits)

lemma Pop_raw_result: "Pop_raw T l r len = Value (rc, buf, l', r') \<Longrightarrow> pop_result r len rc buf r'"
  by (cases T) (auto simp: Pop_raw_def traits intro: C_results split: prod.splits option.splits)

lemma Push_raw_Waits: "Push_raw T l r data len = Waits \<Longrightarrow> T = Block"
  and Push_raw_Undefined: "Push_raw T l r data len = Undefined \<Longrightarrow> T = Mpmc"
  by (cases T; auto simp: Push_raw_def traits split: prod.splits option.splits)+

lemma Pop_raw_Waits: "Pop_raw T l r len = Waits \<Longrightarrow> T = Block"
  and Pop_raw_Undefined: "Pop_raw T l r len = Undefined \<Longrightarrow> T = Mpmc"
  by (cases T; auto simp: Pop_raw_def traits split: prod.splits option.splits)+

section \<open>The invariant and the queue of an object\<close>

fun variant_ok :: "ring_type \<Rightarrow> thread \<Rightarrow> ring \<Rightarrow> bool" where
  "variant_ok Spsc l r = spsc_ok (spsc_caches l) r"
| "variant_ok Mpsc l r = mpsc_ok r"
| "variant_ok Mpmc l r = mpmc_ok r"
| "variant_ok Block l r = (ring_wf r \<and> count r \<le> cap r)"

text \<open>The positions stay below the sign bit for \<open>n\<close> more operations, so that a return code is
  negative only when it is an error.\<close>

definition wrap_ok :: "ring_type \<Rightarrow> thread \<Rightarrow> ring \<Rightarrow> bool" where
  "wrap_ok T l r \<longleftrightarrow> variant_ok T l r \<and> r_tail r \<le> r_head r"

text \<open>The values of \<open>Obj\<close> stored: the objects without the padding to the cache line.\<close>

definition wrap_queue :: "size_t \<Rightarrow> ring \<Rightarrow> obj list" where
  "wrap_queue sz r = map (take (unat sz)) (ring_queue r)"

lemma variant_ok_bounded: "variant_ok T l r \<Longrightarrow> count r \<le> cap r"
  by (cases T) (auto simp: spsc_ok_def mpsc_ok_def mpmc_ok_def mpmc_at_def count_def unat_sub)

lemma Push_raw_cases:
  assumes ok: "variant_ok T l r" and room: "mpmc_room r (Suc n)" and fit: "\<not> r_objSize r < sz"
  shows "if count r = cap r
    then Push_raw T l r obj sz = Waits \<or>
      (\<exists>l'. Push_raw T l r obj sz = Value (RINGBUF_FULL, l', r) \<and> variant_ok T l' r)
    else \<exists>l' r'. Push_raw T l r obj sz = Value (ssize_of (r_head r), l', r') \<and> variant_ok T l' r' \<and>
      ring_queue r' = ring_queue r @ [map obj [0..<unat sz] @ drop (unat sz) (elem r (r_head r))]"
proof (cases T)
  case Spsc
  obtain rc c r' where call: "Push_SpscRingBuf (spsc_caches l) r obj sz = (rc, c, r')" by (metis prod_cases3)
  with Push_cases [OF _ call] ok fit show ?thesis by (auto simp: Spsc Push_raw_def traits)
next
  case Mpsc
  obtain rc r' where call: "Push_MpscRingBuf r obj sz = (rc, r')" by fastforce
  with Push_Mpsc_cases [OF _ call] ok fit show ?thesis by (simp add: Mpsc Push_raw_def traits)
next
  case Mpmc
  then have mpmc: "mpmc_ok r" using ok by simp
  from Push_Mpmc_cases [OF mpmc room, of obj sz] obtain rc r' where
    call: "Push_MpmcRingBuf r obj sz = Some (rc, r')" and cases: "mpmc_ok r'"
      "if r_objSize r < sz then rc = RINGBUF_PUSH_SIZE_TOO_LARGE \<and> r' = r
       else if count r = cap r then rc = RINGBUF_FULL \<and> r' = r
       else rc = ssize_of (r_head r) \<and> 0 \<le> rc \<and>
         ring_queue r' = ring_queue r @ [map obj [0..<unat sz] @ drop (unat sz) (elem r (r_head r))]"
    by blast
  then show ?thesis using fit by (auto simp: Mpmc Push_raw_def traits)
next
  case Block
  have wf: "ring_wf r" "count r \<le> cap r" using ok by (simp_all add: Block)
  have n: "unat sz \<le> osz r" using fit by (rule size_fits)
  show ?thesis
  proof (cases "count r = cap r")
    case True
    then show ?thesis by (simp add: Block Push_raw_def traits Push_BlockRingBuf_def fit full_by_count)
  next
    case False
    then have room: "count r < cap r" using wf(2) by simp
    then show ?thesis
      using wf ring_queue_push [OF wf(1) room n, of obj]
      by (simp add: Block Push_raw_def traits Push_BlockRingBuf_def fit full_by_count Let_def)
  qed
qed

lemma Pop_raw_cases:
  assumes ok: "variant_ok T l r" and room: "mpmc_room r (Suc n)" and fit: "\<not> r_objSize r < sz"
  shows "if count r = 0
    then Pop_raw T l r sz = Waits \<or>
      (\<exists>rc l'. Pop_raw T l r sz = Value (rc, None, l', r) \<and> rc \<in> pop_codes \<and> variant_ok T l' r)
    else \<exists>l' r'. Pop_raw T l r sz =
        Value (ssize_of (r_tail r), Some (take (unat sz) (hd (ring_queue r))), l', r') \<and>
      variant_ok T l' r' \<and> ring_queue r' = tl (ring_queue r)"
proof (cases T)
  case Spsc
  obtain rc buf c r' where call: "Pop_SpscRingBuf (spsc_caches l) r sz = (rc, buf, c, r')"
    by (metis prod_cases4)
  with Pop_cases [OF _ call] ok fit show ?thesis by (auto simp: Spsc Pop_raw_def traits pop_codes_def)
next
  case Mpsc
  obtain rc buf c r' where call: "Pop_MpscRingBuf (mpsc_cache l) r sz = (rc, buf, c, r')"
    by (metis prod_cases4)
  with Pop_Mpsc_cases [OF _ call] ok fit show ?thesis by (simp add: Mpsc Pop_raw_def traits pop_codes_def)
next
  case Mpmc
  then have mpmc: "mpmc_ok r" using ok by simp
  from Pop_Mpmc_cases [OF mpmc room, of sz] obtain rc buf r' where
    call: "Pop_MpmcRingBuf r sz = Some (rc, buf, r')" and cases: "mpmc_ok r'"
      "if r_objSize r < sz then rc = RINGBUF_POP_SIZE_TOO_LARGE \<and> buf = None \<and> r' = r
       else if count r = 0 then rc = RINGBUF_EMPTY \<and> buf = None \<and> r' = r
       else rc = ssize_of (r_tail r) \<and> 0 \<le> rc \<and>
         buf = Some (take (unat sz) (hd (ring_queue r))) \<and> ring_queue r' = tl (ring_queue r)"
    by blast
  then show ?thesis using fit by (auto simp: Mpmc Pop_raw_def traits pop_codes_def)
next
  case Block
  have wf: "ring_wf r" "count r \<le> cap r" using ok by (simp_all add: Block)
  have n: "unat sz \<le> osz r" using fit by (rule size_fits)
  have drained: "r_head r = r_tail r \<longleftrightarrow> count r = 0" by (simp add: count_def unat_0_iff)
  show ?thesis
  proof (cases "count r = 0")
    case True
    then show ?thesis by (simp add: Block Pop_raw_def traits Pop_BlockRingBuf_def fit drained)
  next
    case False
    then show ?thesis
      using wf ring_queue_pop [of r] n
      by (simp add: Block Pop_raw_def traits Pop_BlockRingBuf_def fit drained Let_def elem_def take_memcpy_out)
  qed
qed

section \<open>The class is a bounded queue\<close>

text \<open>
  A client on one thread. It takes a call for successful when the code is not negative, which is
  how the tests and the examples read it. A call that would wait for another thread counts as
  refused; undefined behaviour leaves no state.
\<close>

fun wrap_do :: "ring_type \<Rightarrow> size_t \<Rightarrow> (thread \<times> ring) option \<Rightarrow> qop \<Rightarrow> qres \<times> (thread \<times> ring) option" where
  "wrap_do T sz None x = (Popped None, None)"
| "wrap_do T sz (Some (l, r)) (Enq v) =
     (case Push_obj T sz l r ((!) v) of
        Value (rc, l', r') \<Rightarrow> (Pushed (0 \<le> rc), Some (l', r'))
      | Waits \<Rightarrow> (Pushed False, Some (l, r))
      | Undefined \<Rightarrow> (Pushed False, None))"
| "wrap_do T sz (Some (l, r)) Deq =
     (case Pop_obj T sz l r of
        Value (rc, obj, l', r') \<Rightarrow> (Popped (if 0 \<le> rc then obj else None), Some (l', r'))
      | Waits \<Rightarrow> (Popped None, Some (l, r))
      | Undefined \<Rightarrow> (Popped None, None))"

lemma obj_is_raw: "Push_obj T sz l r obj = Push_raw T l r obj sz" "Pop_obj T sz l r = Pop_raw T l r sz"
  by (simp_all add: Push_obj_def Push_raw_def Pop_obj_def Pop_raw_def)

lemma below_sign_positions:
  assumes "r_tail r \<le> r_head r" "mpmc_room r (Suc n)"
  shows "ssize_of (r_head r) = int (unat (r_head r))" "ssize_of (r_tail r) = int (unat (r_tail r))"
    "unat (r_head r + 1) = Suc (unat (r_head r))" "r_tail r \<le> r_head r + 1"
proof -
  have lt: "unat (r_head r) < 2 ^ 63" using assms(2) by (simp add: mpmc_room_def)
  have le: "unat (r_tail r) \<le> unat (r_head r)" using assms(1) by (simp add: word_le_nat_alt)
  show "ssize_of (r_head r) = int (unat (r_head r))" "ssize_of (r_tail r) = int (unat (r_tail r))"
    using lt le by (simp_all add: ssize_of_small)
  show suc: "unat (r_head r + 1) = Suc (unat (r_head r))"
    using lt unat_add_small [of "r_head r" 1] by simp
  show "r_tail r \<le> r_head r + 1" using le by (simp add: word_le_nat_alt suc)
qed

lemma result_codes_negative: "rc \<in> push_codes \<Longrightarrow> rc < 0" "rc \<in> pop_codes \<Longrightarrow> rc < 0"
  by (auto simp: push_codes_def pop_codes_def err_codes)

lemma count_tail_less: "count r \<noteq> 0 \<Longrightarrow> r_tail r \<le> r_head r \<Longrightarrow> r_tail r + 1 \<le> r_head r"
  by (metis count_def inc_le order_le_less right_minus_eq unat_0_iff)

lemma result_wrap_ok:
  assumes ok: "wrap_ok T l r" and room: "mpmc_room r (Suc n)" and ok': "variant_ok T l' r'"
    and moved: "push_result r sz rc r' \<or> count r \<noteq> 0 \<and> pop_result r sz rc buf r'"
  shows "wrap_ok T l' r' \<and> mpmc_room r' n \<and> geom r' = geom r"
proof -
  have le: "r_tail r \<le> r_head r" using ok by (simp add: wrap_ok_def)
  note pos = below_sign_positions [OF le room]
  show ?thesis
    using moved room le pos ok' count_tail_less [OF _ le] geom_eqD(6) [of r' r]
    by (auto simp: push_result_def pop_result_def wrap_ok_def mpmc_room_def)
qed

fun wrap_state :: "ring_type \<Rightarrow> size_t \<Rightarrow> (thread \<times> ring) option \<Rightarrow> bool" where
  "wrap_state T sz None = False"
| "wrap_state T sz (Some (l, r)) = (wrap_ok T l r \<and> sz \<le> r_objSize r)"

lemma wrap_do_Enq:
  assumes ok: "wrap_ok T l r" and fit: "sz \<le> r_objSize r" and room: "mpmc_room r (Suc n)"
    and v: "length v = unat sz"
  shows "\<exists>y l' r'. wrap_do T sz (Some (l, r)) (Enq v) = (y, Some (l', r')) \<and>
    wrap_ok T l' r' \<and> mpmc_room r' n \<and> geom r' = geom r \<and>
    spec_op (cap r) (wrap_queue sz r) (Enq v) = (y, wrap_queue sz r')"
proof -
  have var: "variant_ok T l r" and le: "r_tail r \<le> r_head r" and big: "\<not> r_objSize r < sz"
    using ok fit by (simp_all add: wrap_ok_def)
  have cnt: "count r \<le> cap r" using var by (rule variant_ok_bounded)
  have room': "mpmc_room r n" using room by (simp add: mpmc_room_def)
  have obj: "map ((!) v) [0..<unat sz] = v" using v by (auto intro: nth_equalityI)
  note cases = Push_raw_cases [OF var room big, of "(!) v"]
  show ?thesis
  proof (cases "count r = cap r")
    case True
    with cases ok le room' show ?thesis
      by (auto simp: obj_is_raw wrap_ok_def wrap_queue_def err_codes)
  next
    case False
    with cases obtain l' r' where call: "Push_raw T l r ((!) v) sz = Value (ssize_of (r_head r), l', r')"
      and var': "variant_ok T l' r'" and q: "ring_queue r' = ring_queue r @ [v @ drop (unat sz) (elem r (r_head r))]"
      by (auto simp: obj)
    have "wrap_queue sz r' = wrap_queue sz r @ [v]" using v by (simp add: wrap_queue_def q)
    with result_wrap_ok [OF ok room var' disjI1 [OF Push_raw_result [OF call]]] False cnt
    show ?thesis using below_sign_positions(1) [OF le room] by (simp add: obj_is_raw call wrap_queue_def)
  qed
qed

lemma wrap_do_Deq:
  assumes ok: "wrap_ok T l r" and fit: "sz \<le> r_objSize r" and room: "mpmc_room r (Suc n)"
  shows "\<exists>y l' r'. wrap_do T sz (Some (l, r)) Deq = (y, Some (l', r')) \<and>
    wrap_ok T l' r' \<and> mpmc_room r' n \<and> geom r' = geom r \<and>
    spec_op (cap r) (wrap_queue sz r) Deq = (y, wrap_queue sz r')"
proof -
  have var: "variant_ok T l r" and le: "r_tail r \<le> r_head r" and big: "\<not> r_objSize r < sz"
    using ok fit by (simp_all add: wrap_ok_def)
  have room': "mpmc_room r n" using room by (simp add: mpmc_room_def)
  note cases = Pop_raw_cases [OF var room big]
  show ?thesis
  proof (cases "count r = 0")
    case True
    then have "ring_queue r = []" using length_ring_queue [of r] by (simp del: length_ring_queue)
    with cases True ok le room' show ?thesis
      by (auto simp: obj_is_raw wrap_ok_def wrap_queue_def dest: result_codes_negative)
  next
    case False
    with cases obtain l' r' where call: "Pop_raw T l r sz =
        Value (ssize_of (r_tail r), Some (take (unat sz) (hd (ring_queue r))), l', r')"
      and var': "variant_ok T l' r'" and q: "ring_queue r' = tl (ring_queue r)"
      by auto
    obtain v vs where "ring_queue r = v # vs" using False length_ring_queue [of r] by (cases "ring_queue r") auto
    with result_wrap_ok [OF ok room var' disjI2 [OF conjI [OF False Pop_raw_result [OF call]]]]
    show ?thesis using below_sign_positions(2) [OF le room] by (simp add: obj_is_raw call wrap_queue_def q)
  qed
qed

lemma wrap_do_refines:
  assumes "wrap_state T sz s" "case s of None \<Rightarrow> False | Some (l, r) \<Rightarrow> mpmc_room r (Suc n)" "op_fits (unat sz) x"
  shows "\<exists>y l r l' r'. s = Some (l, r) \<and> wrap_do T sz s x = (y, Some (l', r')) \<and>
    wrap_state T sz (Some (l', r')) \<and> mpmc_room r' n \<and> cap r' = cap r \<and>
    spec_op (cap r) (wrap_queue sz r) x = (y, wrap_queue sz r')"
proof -
  obtain l r where s: "s = Some (l, r)" using assms(1) by (cases s) auto
  have ok: "wrap_ok T l r" "sz \<le> r_objSize r" and room: "mpmc_room r (Suc n)" using assms(1,2) by (simp_all add: s)
  have "\<exists>y l' r'. wrap_do T sz (Some (l, r)) x = (y, Some (l', r')) \<and> wrap_ok T l' r' \<and>
    mpmc_room r' n \<and> geom r' = geom r \<and> spec_op (cap r) (wrap_queue sz r) x = (y, wrap_queue sz r')"
  proof (cases x)
    case (Enq v)
    show ?thesis unfolding Enq by (rule wrap_do_Enq [OF ok room]) (use assms(3) in \<open>simp add: Enq\<close>)
  next
    case Deq
    show ?thesis unfolding Deq by (rule wrap_do_Deq [OF ok room])
  qed
  then obtain y l' r' where step: "wrap_do T sz (Some (l, r)) x = (y, Some (l', r'))" "wrap_ok T l' r'"
    "mpmc_room r' n" "geom r' = geom r" "spec_op (cap r) (wrap_queue sz r) x = (y, wrap_queue sz r')"
    by blast
  then show ?thesis using ok(2) geom_eqD(1,6) [OF step(4)] by (simp add: s del: wrap_do.simps)
qed

interpretation wrap: bounded_queue "wrap_state T sz"
  "\<lambda>s n. case s of None \<Rightarrow> False | Some (l, r) \<Rightarrow> mpmc_room r n"
  "\<lambda>s. case s of None \<Rightarrow> [] | Some (l, r) \<Rightarrow> wrap_queue sz r"
  "\<lambda>s. case s of None \<Rightarrow> 0 | Some (l, r) \<Rightarrow> cap r" "\<lambda>_. unat sz" "wrap_do T sz"
  for T sz
proof (unfold_locales, goal_cases)
  case (1 s n x)
  then show ?case using wrap_do_refines [OF 1] by auto
next
  case (2 s n x)
  then show ?case using wrap_do_refines [OF 2] by auto
next
  case (3 s n x)
  then show ?case using wrap_do_refines [OF 3] by auto
next
  case (4 s)
  then show ?case using variant_ok_bounded by (cases s) (auto simp: wrap_queue_def wrap_ok_def)
qed

section \<open>A new object\<close>

lemma with_code_ring: "with_code x = Some (rc, Some r, s') \<Longrightarrow> x = Some (Some r, s')"
  by (auto simp: with_code_def split: option.splits)

lemma fresh_state:
  assumes ring: "variant_ok T new_thread r" "r_head r = 0" "r_tail r = 0" and size: "osz r = align_nat 64 (unat sz)"
  shows "wrap_state T sz (Some (new_thread, r))" "wrap_queue sz r = []"
proof -
  have "unat sz \<le> unat (r_objSize r)" using size by (simp add: osz_def align_nat_ge)
  then show "wrap_state T sz (Some (new_thread, r))" using ring by (simp add: wrap_ok_def word_le_nat_alt)
  show "wrap_queue sz r = []" using ring by (simp add: wrap_queue_def ring_queue_Nil_iff)
qed

lemma GetRing_fresh:
  assumes fits: "layout_fits n sz"
      "sizeof_BRingBuf (mutex_size E) (cond_size E) + unat n * align_nat 64 (unat sz) < 2 ^ 64"
    and new: "prot AND MAP_MALLOC \<noteq> 0 \<or> prot AND MAP_EXISTS = 0"
    and get: "GetRing (RingBufTypeTrait T :: unit trait) E n sz path prot flag s = Some (rc, Some r, s')"
  shows "variant_ok T new_thread r \<and> r_head r = 0 \<and> r_tail r = 0 \<and> osz r = align_nat 64 (unat sz) \<and>
    cap r = unat n"
proof (cases "T = Block")
  case True
  then have "get_block_buf E n sz path prot flag s = Some (Some r, s')"
    using get by (auto simp: traits Get_BlockRingBuf_e_def dest: with_code_ring)
  from get_block_buf_new [OF this new layout_fitsD(1) [OF fits(1)] fits(2)] show ?thesis
    by (simp add: True block_ok_def count_def)
next
  case False
  define u where "u = (case T of Spsc \<Rightarrow> NO_SLOT | Mpsc \<Rightarrow> MPSC_SLOT | _ \<Rightarrow> MPMC_SLOT)"
  have "get_buf E n sz path prot flag u s = Some (Some r, s')"
    using get False by (cases T) (auto simp: u_def traits Get_SpscRingBuf_e_def Get_MpscRingBuf_e_def
        Get_MpmcRingBuf_e_def dest: with_code_ring)
  from get_buf_new [OF this new] obtain p m fd where
    cap: "good_capacity n" and r: "r = init_ring p (get_total_size n sz u) n m fd u" by blast
  have "osz r = align_nat 64 (unat sz)"
    using aligned_obj_size [OF fits(1)] by (simp add: r osz_def get_total_size_def Let_def)
  moreover have "variant_ok T new_thread r"
    using False spsc_ok_init [OF cap fits(1)] mpsc_ok_init [OF cap fits(1)] mpmc_ok_init [OF cap fits(1)]
    by (cases T) (simp_all add: r u_def new_thread_def)
  ultimately show ?thesis by (simp add: r)
qed

lemma layout_capacity: "layout_fits n sz \<Longrightarrow> unat n \<le> 2 ^ 58"
proof -
  assume "layout_fits n sz"
  moreover have "64 * unat n \<le> (align_nat 64 (unat sz) + 64) * unat n" by (rule mult_le_mono1) simp
  ultimately have "64 * unat n \<le> 2 ^ 64" unfolding layout_fits_def by linarith
  then show ?thesis by simp
qed

section \<open>Properties\<close>

text \<open>C21: Every \<open>Push\<close> and \<open>Pop\<close> of the class has its documented type, in any state of the ring and
  the thread, sound or not. A push gives one of three codes and changes nothing, or the position of
  the head and then moves the head by one, leaves the tail and the geometry alone and writes at
  most the bytes it was given, into the head's element, and that element's slot. A pop gives one of
  four codes, writes nothing and changes nothing, or the position of the tail and exactly as many
  bytes as asked for, read from the tail's element, and then moves the tail by one and touches no
  byte of the block and no slot but that element's. Both only succeed if the size does not exceed
  the object size. Only a blocking ring waits, only an MPMC ring can have undefined behaviour.
  \<open>RINGBUF_SLOT_STAT_UNKNOWN\<close> is not among the codes.\<close>

theorem ring_calls_typed:
  "(case Push_raw T l r data len of
      Value (rc, l', r') \<Rightarrow> push_result r len rc r' | Waits \<Rightarrow> T = Block | Undefined \<Rightarrow> T = Mpmc) \<and>
   (case Pop_raw T l r len of
      Value (rc, buf, l', r') \<Rightarrow> pop_result r len rc buf r' | Waits \<Rightarrow> T = Block | Undefined \<Rightarrow> T = Mpmc)"
  using Push_raw_result [of T l r data len] Pop_raw_result [of T l r len]
    Push_raw_Waits Push_raw_Undefined Pop_raw_Waits Pop_raw_Undefined
  by (simp split: outcome.split)

text \<open>C20: An object of the class is a first-in first-out queue of \<open>Obj\<close> values, whichever the ring
  type. From a ring that \<open>GetRing\<close> made anew for \<open>ObjNum\<close> objects of \<open>sizeof(Obj)\<close> bytes, up to
  \<open>2 ^ 62\<close> pushes and pops by one thread have, judged by the sign of their return codes, exactly
  the results they have on an empty list bounded by \<open>ObjNum\<close>: every value that was taken comes out
  again once, unchanged and in order, though the element it lay in is larger.\<close>

theorem wrapper_fifo:
  assumes "layout_fits n sz"
      "sizeof_BRingBuf (mutex_size E) (cond_size E) + unat n * align_nat 64 (unat sz) < 2 ^ 64"
    and "prot AND MAP_MALLOC \<noteq> 0 \<or> prot AND MAP_EXISTS = 0"
    and "GetRing (RingBufTypeTrait T :: unit trait) E n sz path prot flag s = Some (rc, Some r, s')"
    and ops: "list_all (op_fits (unat sz)) xs" "length xs \<le> 2 ^ 62"
  shows "\<exists>l' r'. run_ops (wrap_do T sz) (Some (new_thread, r)) xs =
      (fst (run_ops (spec_op (unat n)) [] xs), Some (l', r')) \<and>
    wrap_queue sz r' = snd (run_ops (spec_op (unat n)) [] xs)"
proof -
  note fresh = GetRing_fresh [OF assms(1-4)]
  then have st: "wrap_state T sz (Some (new_thread, r))" "wrap_queue sz r = []"
    using fresh_state [of T r sz] by blast+
  have "mpmc_room r (length xs)" using fresh ops(2) layout_capacity [OF assms(1)] by (simp add: mpmc_room_def)
  then have run: "run_ops (spec_op (unat n)) [] xs =
      (fst (run_ops (wrap_do T sz) (Some (new_thread, r)) xs),
       case snd (run_ops (wrap_do T sz) (Some (new_thread, r)) xs) of None \<Rightarrow> [] | Some (l, r) \<Rightarrow> wrap_queue sz r)"
    "wrap_state T sz (snd (run_ops (wrap_do T sz) (Some (new_thread, r)) xs))"
    using wrap.run_refines [OF st(1), of xs] fresh ops(1) st(2) by simp_all
  then obtain l' r' where "snd (run_ops (wrap_do T sz) (Some (new_thread, r)) xs) = Some (l', r')"
    by (metis wrap_state.simps(1) not_None_eq surj_pair)
  then show ?thesis using run(1) by (auto simp: prod_eq_iff)
qed

theorem wrapper_fifo_witness:
  "\<exists>r s' l' r'. GetRing (RingBufTypeTrait Block :: unit trait) (plain_env\<lparr>ret_of := \<lambda>_. 0\<rparr>) 4 8 None MAP_MALLOC 0 os_start =
      Some (RINGBUF_SUCCESS, Some r, s') \<and>
    run_ops (wrap_do Block 8) (Some (new_thread, r)) [Enq (replicate 8 1), Enq (replicate 8 2), Deq, Deq, Deq] =
      ([Pushed True, Pushed True, Popped (Some (replicate 8 1)), Popped (Some (replicate 8 2)), Popped None],
       Some (l', r'))"
proof -
  have info: "memory plain_env c = Some blank_block" for c
    by (simp add: plain_env_def)
  have cap: "\<not> (4 < (2::size_t) \<or> (4::size_t) AND (4 - 1) \<noteq> 0)" by simp
  have mal: "MAP_MALLOC AND MAP_MALLOC \<noteq> 0" by (simp add: map_flags)
  obtain r s' where made: "GetRing (RingBufTypeTrait Block :: unit trait) (plain_env\<lparr>ret_of := \<lambda>_. 0\<rparr>) 4 8 None MAP_MALLOC 0 os_start =
      Some (RINGBUF_SUCCESS, Some r, s')"
    unfolding RingBufTypeTrait.simps traits trait.simps Get_BlockRingBuf_e_def get_block_buf_def if_not_P [OF cap]
    by (simp add: obtain_memory_malloc [OF mal] get_buf_malloc_eq info Let_def init_sync_def os_do_def with_code_def
        split: prod.splits)
  have size: "sizeof_BRingBuf (mutex_size (plain_env\<lparr>ret_of := \<lambda>_. 0\<rparr>)) (cond_size (plain_env\<lparr>ret_of := \<lambda>_. 0\<rparr>)) + unat (4::size_t) * align_nat 64 (unat (8::size_t)) < 2 ^ 64"
    by (simp add: plain_env_def struct_sizes)
  show ?thesis
    using wrapper_fifo [OF make_ring_4_8(2) size disjI1 [OF mal] made,
        of "[Enq (replicate 8 1), Enq (replicate 8 2), Deq, Deq, Deq]"] made
    by auto
qed

end
