(* ===== verification/RB_Shared.thy ===== *)
theory RB_Shared
  imports RB_Wrapper_Fifo
begin

text \<open>
  Two processes and one ring in shared memory: one creates it and pushes, the other attaches to it
  with \<^verbatim>\<open>MAP_EXISTS\<close> and pops with thread-local variables of its own, which are zero. The
  processes share the block and nothing else; the environment of the second answers a mapping with
  the block as the first has left it.
\<close>

section \<open>Attaching\<close>

lemma get_block_buf_obtained:
  assumes "get_block_buf E n sz path prot flag s = Some (Some r, s')" "prot AND MAP_MALLOC = 0"
    "prot AND MAP_EXISTS \<noteq> 0"
  shows "\<exists>k fd useMalloc needNew. obtain_memory E k prot flag path s = Some (Some r, fd, useMalloc, needNew, s')"
proof -
  have cap: "\<not> (n < 2 \<or> n AND (n - 1) \<noteq> 0)"
    using assms(1) get_block_buf_bad_capacity by (metis not_None_eq option.inject prod.inject)
  let ?k = "of_nat (sizeof_BRingBuf (mutex_size E) (cond_size E)) + get_aligned_offset sz CACHE_LINE_SIZE * n"
  note eq = assms(1) [unfolded get_block_buf_def Let_def if_not_P [OF cap]]
  show ?thesis
  proof (cases "obtain_memory E ?k prot flag path s")
    case None
    with eq show ?thesis by simp
  next
    case (Some x)
    obtain q fd m needNew s1 where x: "x = (q, fd, m, needNew, s1)" by (metis prod_cases5)
    obtain p where q: "q = Some p" using eq unfolding Some x by (cases q) simp_all
    have "\<not> needNew" using obtain_memory_shm_only [OF Some [unfolded x q] assms(2)] assms(3) by simp
    with eq Some show ?thesis unfolding x q by auto
  qed
qed

text \<open>Whatever the ring type, attaching returns the mapped block as it is.\<close>

lemma GetRing_attached:
  assumes get: "GetRing (RingBufTypeTrait T :: unit trait) E n sz path prot flag s = Some (rc, Some r, s')"
    and exists: "prot AND MAP_MALLOC = 0" "prot AND MAP_EXISTS \<noteq> 0"
  shows "\<exists>k fl fd. memory E (Mmap k fl fd) = Some r"
proof -
  have "\<exists>k fd m needNew. obtain_memory E k prot flag path s = Some (Some r, fd, m, needNew, s')"
  proof (cases "T = Block")
    case True
    then have "get_block_buf E n sz path prot flag s = Some (Some r, s')"
      using get by (auto simp: traits Get_BlockRingBuf_e_def dest: with_code_ring)
    from get_block_buf_obtained [OF this exists] show ?thesis by blast
  next
    case False
    define u where "u = (case T of Spsc \<Rightarrow> NO_SLOT | Mpsc \<Rightarrow> MPSC_SLOT | _ \<Rightarrow> MPMC_SLOT)"
    have "get_buf E n sz path prot flag u s = Some (Some r, s')"
      using get False by (cases T) (auto simp: u_def traits Get_SpscRingBuf_e_def Get_MpscRingBuf_e_def
          Get_MpmcRingBuf_e_def dest: with_code_ring)
    from get_buf_obtained [OF this] obtain p fd m needNew where
      got: "obtain_memory E (total_size (get_total_size n sz u)) prot flag path s = Some (Some p, fd, m, needNew, s')"
      and r: "r = (if needNew then init_ring p (get_total_size n sz u) n m fd u else p)"
      by blast
    have "\<not> needNew" using obtain_memory_shm_only [OF got exists(1)] exists(2) by simp
    with got r show ?thesis by auto
  qed
  then obtain k fd m needNew where
    "obtain_memory E k prot flag path s = Some (Some r, fd, m, needNew, s')" by blast
  from conjunct1 [OF obtain_memory_shm_only [OF this exists(1)]]
  show ?thesis using get_buf_shm_mapped by blast
qed

section \<open>Pushes alone leave the ring ready for another thread\<close>

lemma wrap_do_None: "run_ops (wrap_do T sz) None xs = (replicate (length xs) (Popped None), None)"
  by (induction xs) simp_all

lemma pushes_keep_tail:
  "run_ops (wrap_do T sz) (Some (l, r)) (map Enq vs) = (ys, Some (l', r')) \<Longrightarrow> r_tail r' = r_tail r"
proof (induction vs arbitrary: l r ys)
  case (Cons v vs)
  show ?case
  proof (cases "Push_obj T sz l r ((!) v)")
    case (Value x)
    obtain rc l1 r1 where x: "x = (rc, l1, r1)" by (metis prod_cases3)
    have "r_tail r1 = r_tail r"
      using Push_raw_result [of T l r "(!) v" sz rc l1 r1] Value by (auto simp: obj_is_raw x push_result_def)
    with Cons Value x show ?thesis by (auto split: prod.splits)
  qed (use Cons in \<open>auto simp: wrap_do_None split: prod.splits\<close>)
qed simp

text \<open>The caches of a new thread are right as long as nothing has been popped.\<close>

lemma new_thread_ok:
  assumes "variant_ok T l r" "r_tail r = 0"
  shows "variant_ok T new_thread r"
  using assms by (cases T) (auto simp: spsc_defs new_thread_def spsc_tls_init_def count_def)

section \<open>Properties\<close>

text \<open>C19: What one process pushes, another pops. One process makes a ring of any type and pushes a
  batch no longer than the capacity; every push succeeds. Another attaches to the block, with
  whatever capacity it asks for, and its pops, as many as there were pushes, return the batch
  unchanged and in order and leave the ring empty.\<close>

theorem shared_ring_roundtrip:
  assumes "layout_fits n sz"
      "sizeof_BRingBuf (mutex_size E) (cond_size E) + unat n * align_nat 64 (unat sz) < 2 ^ 64"
    and create: "prot AND MAP_MALLOC \<noteq> 0 \<or> prot AND MAP_EXISTS = 0"
      "GetRing (RingBufTypeTrait T :: unit trait) E n sz path prot flag s = Some (c, Some r, s')"
    and batch: "length vs \<le> unat n" "\<forall>v \<in> set vs. length v = unat sz"
    and push: "run_ops (wrap_do T sz) (Some (new_thread, r)) (map Enq vs) = (ys, Some (l, r'))"
    and attach: "prot' AND MAP_MALLOC = 0" "prot' AND MAP_EXISTS \<noteq> 0"
      "GetRing (RingBufTypeTrait T :: unit trait) F n' sz path' prot' flag' u = Some (c', Some q, u')"
    and shared: "\<forall>k fl fd. memory F (Mmap k fl fd) \<in> {None, Some r'}"
  shows "ys = replicate (length vs) (Pushed True) \<and>
    (\<exists>l' q'. run_ops (wrap_do T sz) (Some (new_thread, q)) (replicate (length vs) Deq) =
      (map (Popped \<circ> Some) vs, Some (l', q')) \<and> wrap_queue sz q' = [])"
proof -
  let ?A = "Some (new_thread, r)" and ?B = "Some (new_thread, r')"
  obtain k fl fd where "memory F (Mmap k fl fd) = Some q" using GetRing_attached [OF attach(3,1,2)] by blast
  then have q: "q = r'" using shared [rule_format, of k fl fd] by simp
  note fresh = GetRing_fresh [OF assms(1-4)]
  then have A: "wrap_state T sz ?A" "wrap_queue sz r = []" using fresh_state [of T r sz] by blast+
  have n: "unat n \<le> 2 ^ 58" by (rule layout_capacity [OF assms(1)])
  have ops: "list_all (op_fits (unat sz)) (map Enq vs)" "list_all (op_fits (unat sz)) (replicate (length vs) Deq)"
    using batch(2) by (auto simp: list_all_iff)
  have "mpmc_room r (length vs)" using fresh batch(1) n by (simp add: mpmc_room_def)
  then have pushed: "run_ops (spec_op (unat n)) [] (map Enq vs) = (ys, wrap_queue sz r')"
    "wrap_state T sz (Some (l, r'))" "cap r' = unat n"
    using wrap.run_refines [OF A(1) _ ops(1)] fresh A(2) push by simp_all
  have "run_ops (spec_op (unat n)) [] (map Enq vs) = (replicate (length vs) (Pushed True), vs)"
    using spec_enq_all [of "[]" vs "unat n"] batch(1) by simp
  then have ys: "ys = replicate (length vs) (Pushed True)" and vs: "wrap_queue sz r' = vs"
    using pushed(1) by auto
  have tail: "r_tail r' = 0" using pushes_keep_tail [OF push] fresh by simp
  then have B: "wrap_state T sz ?B" using pushed(2) new_thread_ok [of T l r'] by (simp add: wrap_ok_def)
  have "unat (r_head r') = length vs"
    using arg_cong [OF vs, of length] by (simp add: wrap_queue_def count_def tail)
  then have "mpmc_room r' (length vs)" using pushed(3) batch(1) n by (simp add: mpmc_room_def)
  then have popped: "run_ops (spec_op (unat n)) vs (replicate (length vs) Deq) =
      (fst (run_ops (wrap_do T sz) ?B (replicate (length vs) Deq)),
       case snd (run_ops (wrap_do T sz) ?B (replicate (length vs) Deq)) of None \<Rightarrow> [] | Some (l, r) \<Rightarrow> wrap_queue sz r)"
    "wrap_state T sz (snd (run_ops (wrap_do T sz) ?B (replicate (length vs) Deq)))"
    using wrap.run_refines [OF B _ ops(2)] pushed(3) vs by simp_all
  then obtain l' q' where "snd (run_ops (wrap_do T sz) ?B (replicate (length vs) Deq)) = Some (l', q')"
    by (metis wrap_state.simps(1) not_None_eq surj_pair)
  with popped(1) have "run_ops (wrap_do T sz) ?B (replicate (length vs) Deq) = (map (Popped \<circ> Some) vs, Some (l', q'))"
    "wrap_queue sz q' = []"
    using spec_deq_all [of "unat n" vs "[]"] by (auto simp: prod_eq_iff)
  then show ?thesis using ys q by auto
qed

text \<open>An operating system that maps the block it is given.\<close>

definition mapping_env :: "ring \<Rightarrow> env" where
  "mapping_env p = plain_env\<lparr>memory := \<lambda>_. Some p\<rparr>"

lemma mapping_env_get:
  assumes "prot = MAP_SHM \<or> prot = MAP_SHM OR MAP_EXISTS"
  shows "\<exists>q s'. GetRing (RingBufTypeTrait Spsc :: unit trait) (mapping_env p) 4 8 (Some ''ring'') prot 0 os_start =
    Some (RINGBUF_SUCCESS, Some q, s')"
proof -
  have cap: "\<not> (4 < (2::size_t) \<or> (4::size_t) AND (4 - 1) \<noteq> 0)" by simp
  have mode: "\<not> NO_SLOT AND (MPSC_SLOT OR MPMC_SLOT OR NO_SLOT) = 0" by (simp add: slot_flags)
  have shm: "prot AND MAP_MALLOC = 0" "prot AND MAP_SHM \<noteq> 0" using assms by (auto simp: map_flags)
  have E: "ret_of (mapping_env p) c = 3" "st_size (mapping_env p) x = 448" "memory (mapping_env p) c = Some p" for c x
    by (simp_all add: mapping_env_def plain_env_def)
  have info: "total_size (get_total_size 4 8 NO_SLOT) = 448" by code_simp
  have bytes: "shm_bytes 448 0 = Some 448" by simp
  have opens: "os_do (mapping_env p) (shm_open_call (Some ''ring'')) os_start =
      (3, os_start\<lparr>os_calls := [Open ''ring'']\<rparr>)"
    by (simp add: os_do_def E os_start_def)
  note step = get_buf_shm_steps [OF disjI2 bytes opens, unfolded size_shm_def]
  show ?thesis
    unfolding RingBufTypeTrait.simps traits trait.simps Get_SpscRingBuf_e_def get_buf_def if_not_P [OF cap]
      if_not_P [OF mode]
    by (cases "prot AND MAP_EXISTS = 0")
      (simp_all add: obtain_memory_shm [OF shm] info step os_do_def E Let_def with_code_def)
qed

theorem shared_ring_roundtrip_witness:
  "\<exists>r s' l r' q u' l' q'.
    GetRing (RingBufTypeTrait Spsc :: unit trait) (mapping_env blank_block) 4 8 (Some ''ring'') MAP_SHM 0 os_start =
      Some (RINGBUF_SUCCESS, Some r, s') \<and>
    run_ops (wrap_do Spsc 8) (Some (new_thread, r)) [Enq (replicate 8 1), Enq (replicate 8 2)] =
      ([Pushed True, Pushed True], Some (l, r')) \<and>
    GetRing (RingBufTypeTrait Spsc :: unit trait) (mapping_env r') 4 8 (Some ''ring'') (MAP_SHM OR MAP_EXISTS) 0 os_start =
      Some (RINGBUF_SUCCESS, Some q, u') \<and>
    run_ops (wrap_do Spsc 8) (Some (new_thread, q)) [Deq, Deq] =
      ([Popped (Some (replicate 8 1)), Popped (Some (replicate 8 2))], Some (l', q'))"
proof -
  let ?vs = "[replicate 8 1, replicate 8 2] :: obj list"
  obtain r s' where made: "GetRing (RingBufTypeTrait Spsc :: unit trait) (mapping_env blank_block) 4 8
      (Some ''ring'') MAP_SHM 0 os_start = Some (RINGBUF_SUCCESS, Some r, s')"
    using mapping_env_get by blast
  have size: "sizeof_BRingBuf (mutex_size (mapping_env blank_block)) (cond_size (mapping_env blank_block)) +
      unat (4::size_t) * align_nat 64 (unat (8::size_t)) < 2 ^ 64"
    by (simp add: mapping_env_def plain_env_def struct_sizes)
  have new: "MAP_SHM AND MAP_EXISTS = 0" "(MAP_SHM OR MAP_EXISTS) AND MAP_MALLOC = 0"
    "(MAP_SHM OR MAP_EXISTS) AND MAP_EXISTS \<noteq> 0" by (simp_all add: map_flags)
  note fresh = GetRing_fresh [OF make_ring_4_8(2) size disjI2 [OF new(1)] made]
  have "wrap_state Spsc 8 (Some (new_thread, r))" using fresh fresh_state [of Spsc r 8] by blast
  moreover have "mpmc_room r (length (map Enq ?vs))" using fresh by (simp add: mpmc_room_def)
  ultimately have "wrap_state Spsc 8 (snd (run_ops (wrap_do Spsc 8) (Some (new_thread, r)) (map Enq ?vs)))"
    using wrap.run_refines [of Spsc 8 "Some (new_thread, r)" "map Enq ?vs"]
    by (simp del: run_ops.simps wrap_state.simps)
  then obtain ys l r' where push: "run_ops (wrap_do Spsc 8) (Some (new_thread, r)) (map Enq ?vs) = (ys, Some (l, r'))"
    by (metis wrap_state.simps(1) not_None_eq surj_pair snd_conv)
  obtain q u' where attached: "GetRing (RingBufTypeTrait Spsc :: unit trait) (mapping_env r') 4 8
      (Some ''ring'') (MAP_SHM OR MAP_EXISTS) 0 os_start = Some (RINGBUF_SUCCESS, Some q, u')"
    using mapping_env_get by blast
  have mapped: "\<forall>k fl fd. memory (mapping_env r') (Mmap k fl fd) \<in> {None, Some r'}"
    by (simp add: mapping_env_def)
  have "ys = replicate (length ?vs) (Pushed True) \<and>
    (\<exists>l' q'. run_ops (wrap_do Spsc 8) (Some (new_thread, q)) (replicate (length ?vs) Deq) =
      (map (Popped \<circ> Some) ?vs, Some (l', q')) \<and> wrap_queue 8 q' = [])"
    by (rule shared_ring_roundtrip [OF make_ring_4_8(2) size disjI2 [OF new(1)] made _ _ push new(2,3) attached mapped])
      simp_all
  then have both: "ys = [Pushed True, Pushed True]" "\<exists>l' q'. run_ops (wrap_do Spsc 8) (Some (new_thread, q)) [Deq, Deq] =
      ([Popped (Some (replicate 8 1)), Popped (Some (replicate 8 2))], Some (l', q'))"
    by (auto simp del: run_ops.simps simp: numeral_2_eq_2)
  with both made push attached show ?thesis by (simp del: run_ops.simps)
qed

end
