(* ===== verification/RB_Debug.thy ===== *)
theory RB_Debug
  imports RB_Wrapper_Fifo
begin

text \<open>
  \<^verbatim>\<open>RingBuf_debug.h\<close> and the code under \<^verbatim>\<open>#if DEBUG\<close>: the test record \<open>Obj\<close> with its image in
  memory, and the four \<open>Push\<close> functions with the hook they call once they have their place and
  before they copy. The hook may write to the caller's memory, and what it writes is what gets
  copied, so this memory is explicit here: a pointer is an address in it.
\<close>

section \<open>The caller's memory\<close>

type_synonym mem = "size_t \<Rightarrow> byte"

definition src_at :: "mem \<Rightarrow> size_t \<Rightarrow> src" where
  "src_at M p i = M (p + of_nat i)"

definition mem_read :: "mem \<Rightarrow> size_t \<Rightarrow> nat \<Rightarrow> byte list" where
  "mem_read M p n = map (src_at M p) [0..<n]"

definition mem_write :: "mem \<Rightarrow> size_t \<Rightarrow> byte list \<Rightarrow> mem" where
  "mem_write M p bs = (\<lambda>a. if unat (a - p) < length bs then bs ! unat (a - p) else M a)"

lemma length_mem_read [simp]: "length (mem_read M p n) = n"
  by (simp add: mem_read_def)

lemma mem_read_write_same:
  assumes "length bs < 2 ^ 64"
  shows "mem_read (mem_write M p bs) p (length bs) = bs"
  using assms by (intro nth_equalityI) (simp_all add: mem_read_def src_at_def mem_write_def unat_of_nat64)

text \<open>A read next to a write, at a distance that does not wrap around.\<close>

lemma mem_read_write_other:
  assumes "\<And>i. i < n \<Longrightarrow> length bs \<le> unat (p + of_nat i - q)"
  shows "mem_read (mem_write M q bs) p n = mem_read M p n"
  using assms by (auto simp: mem_read_def src_at_def mem_write_def not_less [symmetric])

section \<open>The test record\<close>

text \<open>\<open>uint64_t\<close> in memory, the least significant byte first.\<close>

definition le_bytes :: "64 word \<Rightarrow> byte list" where
  "le_bytes w = map (\<lambda>i. ucast (drop_bit (8 * i) w)) [0..<8]"

primrec of_le :: "byte list \<Rightarrow> 64 word" where
  "of_le [] = 0"
| "of_le (b # bs) = ucast b OR push_bit 8 (of_le bs)"

lemma of_le_upt:
  "of_le (map (\<lambda>i. ucast (drop_bit (8 * i) w)) [k..<k + j]) = take_bit (8 * j) (drop_bit (8 * k) w)"
proof (induction j arbitrary: k)
  case (Suc j)
  have "[k..<k + Suc j] = k # [Suc k..<Suc k + j]" by (simp add: upt_conv_Cons)
  then have "of_le (map (\<lambda>i. ucast (drop_bit (8 * i) w)) [k..<k + Suc j]) =
      ucast (ucast (drop_bit (8 * k) w) :: byte) OR push_bit 8 (take_bit (8 * j) (drop_bit (8 * Suc k) w))"
    using Suc.IH [of "Suc k"] by simp
  also have "\<dots> = take_bit (8 * Suc j) (drop_bit (8 * k) w)"
    by (rule bit_word_eqI) (auto simp: bit_simps not_less)
  finally show ?case .
qed simp

lemma of_le_bytes [simp]: "of_le (le_bytes w) = w"
  using of_le_upt [of w 0 8] by (simp add: le_bytes_def bit_eq_iff bit_simps)

lemma length_le_bytes [simp]: "length (le_bytes w) = 8"
  by (simp add: le_bytes_def)

text \<open>\<open>Obj\<close> is packed, and aligned to a cache line; its size includes the padding at the end.\<close>

record Obj =
  magH :: "64 word"
  obj_buf :: "byte list"
  magT :: "64 word"
  seq :: "64 word"

definition sizeof_Obj :: nat where
  "sizeof_Obj = align_nat 64 (8 + 1024 + 8 + 8)"

definition Obj_bytes :: "Obj \<Rightarrow> byte list" where
  "Obj_bytes x = le_bytes (magH x) @ obj_buf x @ le_bytes (magT x) @ le_bytes (seq x)"

definition Obj_of :: "byte list \<Rightarrow> Obj" where
  "Obj_of bs = \<lparr>magH = of_le (take 8 bs), obj_buf = take 1024 (drop 8 bs),
     magT = of_le (take 8 (drop 1032 bs)), seq = of_le (take 8 (drop 1040 bs))\<rparr>"

lemma sizeof_Obj [simp]: "sizeof_Obj = 1088"
  by (simp add: sizeof_Obj_def align_nat_def)

lemma Obj_of_bytes: "length (obj_buf x) = 1024 \<Longrightarrow> Obj_of (Obj_bytes x @ pad) = x"
  by (simp add: Obj_of_def Obj_bytes_def)

text \<open>\<open>Time_diff_t\<close>: two times of two 64-bit members, each padded to a cache line.\<close>

definition sizeof_Time_diff :: nat where
  "sizeof_Time_diff = 16 + (64 - 16) + 16 + (64 - 16)"

text \<open>\<open>testFunc\<close>: \<open>arr\<close>, the position, the two remaining pointers, and what it makes of memory.\<close>

type_synonym testFunc = "size_t \<Rightarrow> size_t \<Rightarrow> size_t \<Rightarrow> size_t \<Rightarrow> mem \<Rightarrow> mem"

section \<open>Push with the hook\<close>

text \<open>SPSC and MPSC pass \<open>o\<close> to the hook, MPMC and the blocking ring the object pushed.\<close>

definition Push_SpscRingBuf_debug ::
    "spsc_tls \<Rightarrow> ring \<Rightarrow> mem \<Rightarrow> size_t \<Rightarrow> testFunc \<Rightarrow> size_t \<Rightarrow> size_t \<Rightarrow> size_t \<Rightarrow> size_t \<Rightarrow>
     int \<times> spsc_tls \<times> ring \<times> mem" where
  "Push_SpscRingBuf_debug l r M args cb arr buf ob sz =
     (if r_objSize r < sz then (RINGBUF_PUSH_SIZE_TOO_LARGE, l, r, M)
      else
        let curr_head = r_head r;
            full = (r_objNum r \<le> curr_head - local_tail l);
            l' = (if full then l\<lparr>local_tail := r_tail r\<rparr> else l)
        in if full \<and> r_objNum r \<le> curr_head - local_tail l' then (RINGBUF_FULL, l', r, M)
           else
             let M = cb arr curr_head buf ob M;
                 idx = curr_head AND r_mask r;
                 r' = memcpy_in r (GET_BUFFER r idx) (src_at M args) (unat sz)
             in (ssize_of curr_head, l', r'\<lparr>r_head := curr_head + 1\<rparr>, M))"

definition Push_MpscRingBuf_debug ::
    "ring \<Rightarrow> mem \<Rightarrow> size_t \<Rightarrow> testFunc \<Rightarrow> size_t \<Rightarrow> size_t \<Rightarrow> size_t \<Rightarrow> size_t \<Rightarrow> int \<times> ring \<times> mem" where
  "Push_MpscRingBuf_debug r M args cb arr buf ob sz =
     (if r_objSize r < sz then (RINGBUF_PUSH_SIZE_TOO_LARGE, r, M)
      else
        let curr_head = r_head r;
            curr_tail = r_tail r
        in if r_objNum r \<le> curr_head - curr_tail then (RINGBUF_FULL, r, M)
           else
             let (success, curr_head, r) = cas_head r curr_head (curr_head + 1)
             in if \<not> success then (RINGBUF_CONTENTION, r, M)
                else
                  let M = cb arr curr_head buf ob M;
                      idx = curr_head AND r_mask r;
                      r = memcpy_in r (GET_BUFFER r idx) (src_at M args) (unat sz);
                      r = store_slot r idx (ucast SLOT_VALID)
                  in (ssize_of curr_head, r, M))"

definition Push_MpmcRingBuf_debug ::
    "ring \<Rightarrow> mem \<Rightarrow> size_t \<Rightarrow> testFunc \<Rightarrow> size_t \<Rightarrow> size_t \<Rightarrow> size_t \<Rightarrow> size_t \<Rightarrow> (int \<times> ring \<times> mem) option" where
  "Push_MpmcRingBuf_debug r M args cb arr buf ob sz =
     (if r_objSize r < sz then Some (RINGBUF_PUSH_SIZE_TOO_LARGE, r, M)
      else
        let expected_head = r_head r;
            idx = expected_head AND r_mask r;
            seq = load_slot r idx
        in case intptr_diff seq expected_head of
             None \<Rightarrow> None
           | Some dif \<Rightarrow>
               if 0 < dif then Some (RINGBUF_CONTENTION, r, M)
               else if dif < 0 then Some (RINGBUF_FULL, r, M)
               else
                 let desired = expected_head + 1;
                     (success, expected_head, r) = cas_head r expected_head desired
                 in if \<not> success then Some (RINGBUF_CONTENTION, r, M)
                    else
                      let M = cb arr expected_head buf args M;
                          r = memcpy_in r (GET_BUFFER r idx) (src_at M args) (unat sz);
                          r = store_slot r idx (expected_head + 1)
                      in Some (ssize_of expected_head, r, M))"

definition Push_BlockRingBuf_debug ::
    "ring \<Rightarrow> int \<Rightarrow> mem \<Rightarrow> size_t \<Rightarrow> testFunc \<Rightarrow> size_t \<Rightarrow> size_t \<Rightarrow> size_t \<Rightarrow> size_t \<Rightarrow>
     (int \<times> int \<times> ring \<times> mem) option" where
  "Push_BlockRingBuf_debug r err M args cb arr buf ob sz =
     (if r_objSize r < sz
      then let err = RINGBUF_PUSH_SIZE_TOO_LARGE in Some (err, err, r, M)
      else if r_objNum r \<le> r_head r - r_tail r then None
      else
        let M = cb arr (r_head r) buf args M;
            r = memcpy_in r (GET_BUFFER r (r_head r AND r_mask r)) (src_at M args) (unat sz);
            head = r_head r;
            r = r\<lparr>r_head := r_head r + 1\<rparr>
        in Some (ssize_of head, err, r, M))"

text \<open>The test producer selects one of the four at compile time.\<close>

fun producer_push ::
    "ring_type \<Rightarrow> thread \<Rightarrow> ring \<Rightarrow> mem \<Rightarrow> size_t \<Rightarrow> testFunc \<Rightarrow> size_t \<Rightarrow> size_t \<Rightarrow> size_t \<Rightarrow> size_t \<Rightarrow>
     (int \<times> thread \<times> ring \<times> mem) outcome" where
  "producer_push Spsc l r M args cb arr buf ob sz =
     (let (rc, c, r, M) = Push_SpscRingBuf_debug (spsc_caches l) r M args cb arr buf ob sz
      in Value (rc, l\<lparr>spsc_caches := c\<rparr>, r, M))"
| "producer_push Mpsc l r M args cb arr buf ob sz =
     (let (rc, r, M) = Push_MpscRingBuf_debug r M args cb arr buf ob sz in Value (rc, l, r, M))"
| "producer_push Mpmc l r M args cb arr buf ob sz =
     (case Push_MpmcRingBuf_debug r M args cb arr buf ob sz of
        None \<Rightarrow> Undefined | Some (rc, r, M) \<Rightarrow> Value (rc, l, r, M))"
| "producer_push Block l r M args cb arr buf ob sz =
     (case Push_BlockRingBuf_debug r (thread_errno l) M args cb arr buf ob sz of
        None \<Rightarrow> Waits | Some (rc, err, r, M) \<Rightarrow> Value (rc, l\<lparr>thread_errno := err\<rparr>, r, M))"

lemma head_moved [simp]: "(x :: size_t) + 1 \<noteq> x" "x \<noteq> x + 1"
  by simp_all

lemma producer_push_release:
  "producer_push T l r M args cb arr buf ob sz =
    (let M' = cb arr (r_head r) buf (if T = Spsc \<or> T = Mpsc then ob else args) M
     in case Push_raw T l r (src_at M' args) sz of
          Value (rc, l', r') \<Rightarrow> Value (rc, l', r', if r_head r' = r_head r then M else M')
        | Waits \<Rightarrow> Waits | Undefined \<Rightarrow> Undefined)"
proof (cases T)
  case Spsc
  then show ?thesis
    by (simp add: Push_raw_def traits Push_SpscRingBuf_debug_def Push_SpscRingBuf_def Let_def)
next
  case Mpsc
  then show ?thesis
    by (simp add: Push_raw_def traits Push_MpscRingBuf_debug_def Push_MpscRingBuf_def Let_def cas_head_def)
next
  case Mpmc
  then show ?thesis
    by (simp add: Push_raw_def traits Push_MpmcRingBuf_debug_def Push_MpmcRingBuf_def Let_def cas_head_def
        split: option.split)
next
  case Block
  then show ?thesis
    by (simp add: Push_raw_def traits Push_BlockRingBuf_debug_def Push_BlockRingBuf_def Let_def)
qed

section \<open>Properties\<close>

text \<open>C22: A debug build does what a release build does on the memory the hook leaves. Each of the
  four \<open>Push\<close> functions calls the hook at most once, exactly when it has obtained its place,
  with the position it obtained, and before it copies; its result, the ring and the thread are
  those of the release function on the object as the hook left it. Where the functions differ is
  the record the hook gets: the one passed for it, or the object pushed.\<close>

theorem debug_push_is_release:
  "producer_push T l r M args cb arr buf ob sz =
    (let M' = cb arr (r_head r) buf (if T = Spsc \<or> T = Mpsc then ob else args) M
     in case Push_raw T l r (src_at M' args) sz of
          Value (rc, l', r') \<Rightarrow> Value (rc, l', r', if r_head r' = r_head r then M else M')
        | Waits \<Rightarrow> Waits | Undefined \<Rightarrow> Undefined)"
  by (rule producer_push_release)

end
