(* ===== verification/RB_Harness.thy ===== *)
theory RB_Harness
  imports RB_Debug
begin

text \<open>
  The test programs \<^verbatim>\<open>producer.c\<close> and \<^verbatim>\<open>consumer.c\<close> as far as they decide whether a test passes: the
  record a producer fills, the hook it gives to the debug \<open>Push\<close>, and the consumer's \<open>check\<close>. Shown
  are what \<open>check\<close> accepts, and that it accepts whatever travels through a ring of any type. The
  settings of \<^verbatim>\<open>common.h\<close> are arguments or constants; forks, threads, sleeps and output are left out.
\<close>

section \<open>Reading next to writing\<close>

definition apart :: "size_t \<Rightarrow> nat \<Rightarrow> size_t \<Rightarrow> nat \<Rightarrow> bool" where
  "apart p n q m \<longleftrightarrow> (\<forall>i < n. \<forall>j < m. p + of_nat i \<noteq> q + of_nat j)"

lemma mem_read_apart:
  assumes "apart p n q m" "length bs \<le> m"
  shows "mem_read (mem_write M q bs) p n = mem_read M p n"
proof (rule mem_read_write_other)
  fix i assume i: "i < n"
  show "length bs \<le> unat (p + of_nat i - q)"
  proof (rule ccontr)
    assume "\<not> length bs \<le> unat (p + of_nat i - q)"
    then have "unat (p + of_nat i - q) < m" using assms(2) by simp
    then have "p + of_nat i \<noteq> q + of_nat (unat (p + of_nat i - q))"
      using assms(1) i unfolding apart_def by blast
    then show False by simp
  qed
qed

lemma apart_inside:
  "apart p n q m \<Longrightarrow> a + k \<le> n \<Longrightarrow> b + l \<le> m \<Longrightarrow> apart (p + of_nat a) k (q + of_nat b) l"
  unfolding apart_def
  by (metis (no_types, opaque_lifting) add.assoc add_less_cancel_left of_nat_add order_less_le_trans)

lemma apart_sym: "apart p n q m \<Longrightarrow> apart q m p n"
  by (metis apart_def)

text \<open>Two fields of one record.\<close>

lemma apart_fields:
  assumes "a + k \<le> b \<or> b + l \<le> a" "a + k \<le> 2 ^ 64" "b + l \<le> 2 ^ 64"
  shows "apart (p + of_nat a) k (p + of_nat b) l"
proof -
  have "(of_nat (a + i) :: size_t) \<noteq> of_nat (b + j)" if "i < k" "j < l" for i j
  proof -
    have "a + i < 2 ^ 64" "b + j < 2 ^ 64" "a + i \<noteq> b + j" using that assms by auto
    then show ?thesis by (metis unat_of_nat64)
  qed
  then show ?thesis by (auto simp: apart_def add.assoc)
qed

lemma mem_read_part:
  "a + n \<le> m \<Longrightarrow> take n (drop a (mem_read M p m)) = mem_read M (p + of_nat a) n"
  by (auto intro!: nth_equalityI simp: mem_read_def src_at_def add.assoc)

text \<open>The record at an address, field by field.\<close>

definition load_Obj :: "mem \<Rightarrow> size_t \<Rightarrow> Obj" where
  "load_Obj M p = Obj_of (mem_read M p sizeof_Obj)"

lemma load_Obj_fields:
  "load_Obj M p =
    \<lparr>magH = of_le (mem_read M p 8), obj_buf = mem_read M (p + of_nat 8) 1024,
     magT = of_le (mem_read M (p + of_nat 1032) 8), seq = of_le (mem_read M (p + of_nat 1040) 8)\<rparr>"
  using mem_read_part [of 0 8 1088 M p] mem_read_part [of 8 1024 1088 M p]
    mem_read_part [of 1032 8 1088 M p] mem_read_part [of 1040 8 1088 M p]
  by (simp add: load_Obj_def Obj_of_def)

lemma mem_read_field:
  assumes "a + k \<le> b \<or> b + length bs \<le> a" "a + k \<le> 2 ^ 64" "b + length bs \<le> 2 ^ 64"
  shows "mem_read (mem_write M (p + of_nat b) bs) (p + of_nat a) k = mem_read M (p + of_nat a) k"
  by (rule mem_read_apart [OF apart_fields [OF assms] order_refl])

lemma mem_read_overwrite:
  assumes "length bs \<le> n" "n < 2 ^ 64"
  shows "mem_read (mem_write M p bs) p n = bs @ drop (length bs) (mem_read M p n)"
proof (rule nth_equalityI)
  fix i assume "i < length (mem_read (mem_write M p bs) p n)"
  then have "i < n" "unat (of_nat i :: size_t) = i" using assms(2) by (simp_all add: unat_of_nat64)
  then show "mem_read (mem_write M p bs) p n ! i = (bs @ drop (length bs) (mem_read M p n)) ! i"
    using assms(1) by (simp add: mem_read_def src_at_def mem_write_def nth_append)
qed (use assms in simp)

lemma load_Obj_magH: "load_Obj (mem_write M p (le_bytes w)) p = (load_Obj M p)\<lparr>magH := w\<rparr>"
  using mem_read_field [of 8 1024 0 "le_bytes w" M p] mem_read_field [of 1032 8 0 "le_bytes w" M p]
    mem_read_field [of 1040 8 0 "le_bytes w" M p] mem_read_overwrite [of "le_bytes w" 8 M p]
  by (simp add: load_Obj_fields)

lemma load_Obj_buf:
  assumes "length bs \<le> 1024"
  shows "load_Obj (mem_write M (p + 8) bs) p =
    (load_Obj M p)\<lparr>obj_buf := bs @ drop (length bs) (obj_buf (load_Obj M p))\<rparr>"
  using mem_read_field [of 0 8 8 bs M p] mem_read_field [of 1032 8 8 bs M p]
    mem_read_field [of 1040 8 8 bs M p] mem_read_overwrite [of bs 1024 M "p + 8"] assms
  by (simp add: load_Obj_fields)

lemma load_Obj_magT: "load_Obj (mem_write M (p + 1032) (le_bytes w)) p = (load_Obj M p)\<lparr>magT := w\<rparr>"
  using mem_read_field [of 8 1024 1032 "le_bytes w" M p] mem_read_field [of 0 8 1032 "le_bytes w" M p]
    mem_read_field [of 1040 8 1032 "le_bytes w" M p] mem_read_overwrite [of "le_bytes w" 8 M "p + 1032"]
  by (simp add: load_Obj_fields)

lemma load_Obj_seq: "load_Obj (mem_write M (p + 1040) (le_bytes w)) p = (load_Obj M p)\<lparr>seq := w\<rparr>"
  using mem_read_field [of 8 1024 1040 "le_bytes w" M p] mem_read_field [of 0 8 1040 "le_bytes w" M p]
    mem_read_field [of 1032 8 1040 "le_bytes w" M p] mem_read_overwrite [of "le_bytes w" 8 M "p + 1040"]
  by (simp add: load_Obj_fields)

lemmas load_Obj_writes = load_Obj_magH load_Obj_buf load_Obj_magT load_Obj_seq

lemma load_Obj_apart:
  "apart p 1088 q m \<Longrightarrow> length bs \<le> m \<Longrightarrow> load_Obj (mem_write M q bs) p = load_Obj M p"
  using mem_read_apart [of p 1088 q m bs M] by (simp add: load_Obj_def)

lemma length_load_buf [simp]: "length (obj_buf (load_Obj M p)) = 1024"
  by (simp add: load_Obj_fields)

section \<open>The producer's record and the consumer's check\<close>

definition magichead :: "64 word" where "magichead = 0xDEADBEEF"
definition magictail :: "64 word" where "magictail = 0xBEEFDEAD"
definition PRIME :: "64 word" where "PRIME = 3571"

text \<open>The message both sides build before their loops.\<close>

definition message :: "byte list" where
  "message = map (\<lambda>i. of_nat (97 + i mod 97 mod 26)) [0..<1023] @ [0]"

text \<open>The first letter, computed in \<open>size_t\<close> from a \<open>char\<close>, which is signed.\<close>

definition letter :: "byte \<Rightarrow> 64 word \<Rightarrow> byte" where
  "letter c k = ucast ((scast c + k) * PRIME mod 97 mod 26 + 97)"

definition fill_obj :: "mem \<Rightarrow> size_t \<Rightarrow> size_t \<Rightarrow> 64 word \<Rightarrow> mem" where
  "fill_obj M ob buf pushed =
     (let M = mem_write M ob (le_bytes magichead);
          M = mem_write M (ob + 1032) (le_bytes magictail);
          M = mem_write M (ob + 8) (mem_read M buf 1024);
          M = mem_write M (ob + 8) [letter (M (ob + 8)) pushed]
      in mem_write M (ob + 1040) (le_bytes pushed))"

text \<open>\<open>strncmp (a, b, n) == 0\<close> for arrays of \<open>n\<close> characters.\<close>

fun strncmp_eq :: "byte list \<Rightarrow> byte list \<Rightarrow> bool" where
  "strncmp_eq (a # as) (b # bs) = (a = b \<and> (a = 0 \<or> strncmp_eq as bs))"
| "strncmp_eq _ _ = True"

definition check :: "mem \<Rightarrow> size_t \<Rightarrow> size_t \<Rightarrow> bool \<times> mem" where
  "check M ob buf =
     (let newchar = letter (M buf) (seq (load_Obj M ob));
          tmp = M buf;
          M = mem_write M buf [newchar];
          rc = (if \<not> strncmp_eq (obj_buf (load_Obj M ob)) (mem_read M buf 1024) then False
                else magH (load_Obj M ob) = magichead \<and> magT (load_Obj M ob) = magictail)
      in (rc, mem_write M buf [tmp]))"

text \<open>The record made for \<open>k\<close>.\<close>

definition filled :: "byte list \<Rightarrow> 64 word \<Rightarrow> Obj" where
  "filled pat k = \<lparr>magH = magichead, obj_buf = letter (hd pat) k # tl pat, magT = magictail, seq = k\<rparr>"

lemma mem_read_head: "mem_read M p (Suc n) = M p # mem_read M (p + 1) n"
  by (simp add: mem_read_def src_at_def upt_conv_Cons comp_def add.assoc del: upt_Suc flip: map_Suc_upt)

lemma load_fill_obj:
  assumes "apart buf 1024 ob 1088"
  shows "load_Obj (fill_obj M ob buf k) ob = filled (mem_read M buf 1024) k"
proof -
  have away: "apart buf 1024 ob 8" "apart buf 1024 (ob + 1032) 8"
    using apart_inside [OF assms, of 0 1024 0 8] apart_inside [OF assms, of 0 1024 1032 8] by simp_all
  define N where "N = mem_write (mem_write M ob (le_bytes magichead)) (ob + 1032) (le_bytes magictail)"
  have same: "mem_read N buf 1024 = mem_read M buf 1024"
    by (simp add: N_def mem_read_apart [OF away(1)] mem_read_apart [OF away(2)])
  define P where "P = mem_write N (ob + 8) (mem_read N buf 1024)"
  have "mem_read P (ob + 8) 1024 = mem_read M buf 1024"
    using mem_read_write_same [of "mem_read N buf 1024" N "ob + 8"] by (simp add: P_def same)
  then have head: "P (ob + 8) = hd (mem_read M buf 1024)"
    using mem_read_head [of P "ob + 8" 1023] by simp
  have "fill_obj M ob buf k = mem_write (mem_write P (ob + 8) [letter (P (ob + 8)) k]) (ob + 1040) (le_bytes k)"
    by (simp add: fill_obj_def P_def N_def Let_def)
  then show ?thesis
    using same length_load_buf [of M ob] by (cases "load_Obj M ob")
      (simp add: load_Obj_writes P_def N_def head [unfolded P_def N_def] filled_def drop_Suc)
qed

lemma letter_nonzero: "letter c k \<noteq> 0"
proof -
  define y where "y = (scast c + k) * PRIME mod 97 mod 26"
  have y: "unat y < 26" by (simp add: y_def unat_mod)
  then have "unat (y + 97) = unat y + 97" using unat_add_small [of y 97] by simp
  then have "unat (ucast (y + 97) :: byte) = unat y + 97" using y by (simp add: unsigned_ucast_eq take_bit_eq_mod)
  then show ?thesis unfolding letter_def y_def [symmetric] by (metis add_is_0 unat_0 zero_neq_numeral)
qed

lemma strncmp_eq_exact:
  "length as = length bs \<Longrightarrow> 0 \<notin> set (butlast bs) \<Longrightarrow> strncmp_eq as bs \<longleftrightarrow> as = bs"
  by (induction as bs rule: list_induct2') (auto split: if_splits)

lemma nonzero_but_last: "x \<noteq> 0 \<Longrightarrow> (\<And>i. f i \<noteq> 0) \<Longrightarrow> 0 \<notin> set (butlast (x # map f ks @ [y]))"
  by (auto simp: butlast_append dest: sym)

lemma message_letters: "0 \<notin> set (butlast (letter c k # tl message))"
proof -
  have upt: "[0..<1023] = 0 # [Suc 0..<1023]" by (rule upt_conv_Cons) simp
  have tl: "tl message = map (\<lambda>i. of_nat (97 + i mod 97 mod 26)) [Suc 0..<1023] @ [0]"
    unfolding message_def upt list.map append_Cons list.sel(3) ..
  have "(of_nat (97 + i mod 97 mod 26) :: byte) \<noteq> 0" for i
  proof -
    have "i mod 97 mod 26 < 26" by simp
    then have "unat (of_nat (97 + i mod 97 mod 26) :: byte) = 97 + i mod 97 mod 26"
      by (simp add: unat_of_nat del: of_nat_add)
    then show ?thesis by (metis add_is_0 unat_0 zero_neq_numeral)
  qed
  then show ?thesis unfolding tl by (rule nonzero_but_last [OF letter_nonzero])
qed

text \<open>The check is exact: it accepts a record if and only if every byte of its four fields is what
  \<open>fill_obj\<close> makes for the number in its \<open>seq\<close> field.\<close>

lemma check_equation:
  assumes "mem_read M buf 1024 = message" "apart ob 1088 buf 1024"
  shows "check M ob buf =
    (load_Obj M ob = filled message (seq (load_Obj M ob)), M)"
proof -
  let ?x = "load_Obj M ob"
  let ?c = "letter (M buf) (seq (load_Obj M ob))"
  let ?N = "mem_write M buf [?c]"
  have "mem_read M buf 1024 = M buf # mem_read M (buf + 1) 1023" using mem_read_head [of M buf 1023] by simp
  then have first: "M buf = hd message" unfolding assms(1) by (metis list.sel(1))
  have x: "load_Obj ?N ob = ?x" by (rule load_Obj_apart [OF assms(2)]) simp
  have pat: "mem_read ?N buf 1024 = ?c # tl message"
    using mem_read_overwrite [of "[?c]" 1024 M buf] assms(1) by (simp add: drop_Suc)
  have restored: "mem_write ?N buf [M buf] = M"
    by (auto simp: mem_write_def fun_eq_iff unat_0_iff less_Suc_eq)
  have "length (obj_buf ?x) = length (?c # tl message)"
    using assms(1) length_mem_read [of M buf 1024] by (simp add: load_Obj_fields)
  from strncmp_eq_exact [OF this message_letters]
  have "strncmp_eq (obj_buf ?x) (?c # tl message) \<longleftrightarrow> obj_buf ?x = ?c # tl message" .
  moreover have "?x = filled message (seq ?x) \<longleftrightarrow>
      obj_buf ?x = ?c # tl message \<and> magH ?x = magichead \<and> magT ?x = magictail"
    by (cases ?x) (auto simp: filled_def first)
  ultimately show ?thesis by (simp add: check_def Let_def x pat restored)
qed

section \<open>The hook and one round of the producer\<close>

text \<open>\<open>arr[pushed].s\<close> gets the time stamp, a count of cycles, and the record its position.\<close>

definition do_timestemp :: "64 word \<Rightarrow> testFunc" where
  "do_timestemp now arr pushed buf ob M =
     (let M = mem_write M (arr + pushed * of_nat sizeof_Time_diff) (le_bytes 0);
          M = mem_write M (arr + pushed * of_nat sizeof_Time_diff + 8) (le_bytes now)
      in mem_write M (ob + 1040) (le_bytes pushed))"

text \<open>\<open>TIME_TEST\<close> is 0 for a test of integrity, 1 for a time stamp before the push, 2 for one taken
  inside.\<close>

definition chose_test_type_producer :: "nat \<Rightarrow> 64 word \<Rightarrow> testFunc" where
  "chose_test_type_producer time_test now arr pushed buf ob M =
     (if time_test = 2 then do_timestemp now arr pushed buf ob M else M)"

definition produce :: "nat \<Rightarrow> 64 word \<Rightarrow> mem \<Rightarrow> size_t \<Rightarrow> size_t \<Rightarrow> size_t \<Rightarrow> 64 word \<Rightarrow> mem" where
  "produce time_test now M ob buf arr pushed =
     (let M = fill_obj M ob buf pushed
      in if time_test = 1 then do_timestemp now arr pushed 0 ob M else M)"

lemma load_do_timestemp:
  assumes "apart ob 1088 (arr + k * 128) 16"
  shows "load_Obj (do_timestemp now arr k b ob M) ob = (load_Obj M ob)\<lparr>seq := k\<rparr>"
proof -
  have "apart ob 1088 (arr + k * 128) 8" "apart ob 1088 (arr + k * 128 + 8) 8"
    using apart_inside [OF assms, of 0 1088 0 8] apart_inside [OF assms, of 0 1088 8 8] by simp_all
  then show ?thesis
    by (simp add: do_timestemp_def sizeof_Time_diff_def load_Obj_seq load_Obj_apart [of _ _ 8])
qed

lemma load_produce:
  assumes "mem_read M buf 1024 = message" "apart buf 1024 ob 1088" "apart ob 1088 (arr + k * 128) 16"
  shows "load_Obj (produce tt now M ob buf arr k) ob = filled message k"
  using load_fill_obj [OF assms(2), of M k] load_do_timestemp [OF assms(3)] assms(1)
  by (simp add: produce_def filled_def Let_def)

section \<open>Properties\<close>

lemma fill_obj_keeps:
  assumes "apart buf 1024 ob 1088"
  shows "mem_read (fill_obj M ob buf k) buf 1024 = mem_read M buf 1024"
  using mem_read_apart [OF apart_inside [OF assms, of 0 1024 0 8]]
    mem_read_apart [OF apart_inside [OF assms, of 0 1024 8 1024]]
    mem_read_apart [OF apart_inside [OF assms, of 0 1024 1032 8]]
    mem_read_apart [OF apart_inside [OF assms, of 0 1024 1040 8]]
  by (simp add: fill_obj_def Let_def)

text \<open>A memory with the record's place at 0, the message at 2048 and the time stamps from 4096 on.\<close>

definition test_memory :: mem where
  "test_memory = mem_write (\<lambda>_. 0) 2048 message"

lemma test_memory_places:
  "mem_read test_memory 2048 1024 = message" "apart 2048 1024 0 1088" "apart 0 1088 2048 1024"
proof -
  have "length message = 1024" by (simp only: message_def length_append length_map length_upt) simp
  then show "mem_read test_memory 2048 1024 = message"
    using mem_read_write_same [of message "\<lambda>_. 0" 2048] by (simp add: test_memory_def)
  show "apart 0 1088 2048 1024" using apart_fields [of 0 1088 2048 1024 0] by simp
  then show "apart 2048 1024 0 1088" by (rule apart_sym)
qed

text \<open>C40: The test finds nothing wrong with a ring that is right. Let a producer fill the record for
  \<open>k\<close> and push it with the debug \<open>Push\<close> of any ring type, the ring being in a sound state, and let
  the push succeed. Then the ring's queue has got exactly one more object, whose record is the one
  for \<open>k\<close>, except that with \<open>TIME_TEST 2\<close> its \<open>seq\<close> is the position it got in the ring: the hook
  runs after the place is taken and before the copy. Without \<open>TIME_TEST 2\<close> a consumer that has this
  object in its record finds it correct.\<close>

theorem harness_end_to_end:
  assumes "wrap_ok T l r" "mpmc_room r (Suc n)" "1088 \<le> r_objSize r"
    and "mem_read M buf 1024 = message" "apart buf 1024 ob 1088"
      "apart ob 1088 (arr + k * 128) 16" "apart ob 1088 (arr + r_head r * 128) 16"
    and push: "producer_push T l r (produce tt t1 M ob buf arr k) ob (chose_test_type_producer tt t2) arr buf ob 1088 =
      Value (rc, l', r', M')" "0 \<le> rc"
  shows "\<exists>bs. wrap_queue 1088 r' = wrap_queue 1088 r @ [bs] \<and>
    Obj_of bs = (filled message k)\<lparr>seq := if tt = 2 then r_head r else k\<rparr> \<and>
    (tt \<noteq> 2 \<longrightarrow> (\<forall>N ob2 buf2. mem_read N ob2 1088 = bs \<longrightarrow> mem_read N buf2 1024 = message \<longrightarrow>
      apart ob2 1088 buf2 1024 \<longrightarrow> check N ob2 buf2 = (True, N)))"
proof -
  define P where "P = produce tt t1 M ob buf arr k"
  define Q where "Q = chose_test_type_producer tt t2 arr (r_head r) buf ob P"
  have call: "Push_raw T l r (src_at Q ob) 1088 = Value (rc, l', r')"
    using push(1) unfolding producer_push_release P_def [symmetric] Q_def
    by (auto simp: Let_def split: outcome.splits prod.splits)
  have P: "load_Obj P ob = filled message k"
    unfolding P_def by (rule load_produce) (use assms in simp_all)
  have Q: "load_Obj Q ob = (filled message k)\<lparr>seq := if tt = 2 then r_head r else k\<rparr>"
    using load_do_timestemp [OF assms(7), where now = t2 and b = buf and M = P]
    by (simp add: Q_def chose_test_type_producer_def P filled_def)
  have ok: "variant_ok T l r" and fit: "\<not> r_objSize r < 1088" using assms(1,3) by (simp_all add: wrap_ok_def)
  have "wrap_queue 1088 r' = wrap_queue 1088 r @ [mem_read Q ob 1088]"
    using Push_raw_cases [OF ok assms(2) fit, of "src_at Q ob"] call push(2)
    by (auto simp: wrap_queue_def mem_read_def err_codes split: if_splits)
  moreover have "check N ob2 buf2 = (True, N)"
    if "tt \<noteq> 2" "mem_read N ob2 1088 = mem_read Q ob 1088" "mem_read N buf2 1024 = message"
      "apart ob2 1088 buf2 1024" for N ob2 buf2
  proof -
    have "load_Obj N ob2 = filled message k" using that(1,2) Q by (simp add: load_Obj_def filled_def)
    then show ?thesis unfolding check_equation [OF that(3,4)] by (simp add: filled_def)
  qed
  ultimately show ?thesis using Q by (intro exI [of _ "mem_read Q ob 1088"]) (simp add: load_Obj_def)
qed

lemma producer_push_succeeds:
  assumes "\<And>src. \<exists>l' r'. Push_raw T l r src sz = Value (rc, l', r')"
  shows "\<exists>l' r' M'. producer_push T l r M args cb arr buf ob sz = Value (rc, l', r', M')"
proof -
  define M1 where "M1 = cb arr (r_head r) buf (if T = Spsc \<or> T = Mpsc then ob else args) M"
  obtain l' r' where "Push_raw T l r (src_at M1 args) sz = Value (rc, l', r')" using assms by blast
  then show ?thesis unfolding producer_push_release M1_def [symmetric] Let_def by simp
qed

theorem harness_end_to_end_witness:
  "\<exists>rc l' r' M'. producer_push Mpmc new_thread (make_ring 4 1088 MPMC_SLOT) (produce 2 5 test_memory 0 2048 4096 9) 0
      (chose_test_type_producer 2 6) 4096 2048 0 1088 = Value (rc, l', r', M') \<and>
    (\<exists>bs. wrap_queue 1088 r' = [bs] \<and> Obj_of bs = (filled message 9)\<lparr>seq := 0\<rparr>)"
proof -
  let ?r = "make_ring 4 1088 MPMC_SLOT"
  have new: "good_capacity 4" "layout_fits 4 1088"
    by (simp_all add: good_capacity_def layout_fits_def align_nat_def)
  have size: "osz ?r = 1088"
    using aligned_obj_size [OF new(2)] by (simp add: make_ring_def osz_def get_total_size_def Let_def align_nat_def)
  have r: "r_head ?r = 0" "r_tail ?r = 0" "cap ?r = 4" "count ?r = 0" by (simp_all add: make_ring_def)
  have ok: "variant_ok Mpmc new_thread ?r" using mpmc_ok_init [OF new] by (simp add: make_ring_def)
  have room: "mpmc_room ?r (Suc 0)" by (simp add: mpmc_room_def r)
  have fit: "1088 \<le> r_objSize ?r" using size by (simp add: osz_def word_le_nat_alt)
  have wrap: "wrap_ok Mpmc new_thread ?r" using ok r by (simp add: wrap_ok_def)
  have arr: "apart 0 1088 (4096 + 9 * 128) 16" "apart 0 1088 (4096 + r_head ?r * 128) 16"
    using apart_fields [of 0 1088 5248 16 0] apart_fields [of 0 1088 4096 16 0] by (simp_all add: r)
  have "\<not> r_objSize ?r < 1088" using fit by simp
  have taken: "\<exists>l' r'. Push_raw Mpmc new_thread ?r src 1088 = Value (ssize_of (r_head ?r), l', r')" for src
    using Push_raw_cases [OF ok room \<open>\<not> r_objSize ?r < 1088\<close>, of src] by (auto simp: r)
  have zero: "ssize_of 0 = 0" by (simp add: ssize_of_def)
  from producer_push_succeeds [OF taken] obtain l' r' M' where
    push: "producer_push Mpmc new_thread ?r (produce 2 5 test_memory 0 2048 4096 9) 0
      (chose_test_type_producer 2 6) 4096 2048 0 1088 = Value (0, l', r', M')"
    unfolding r(1) zero by blast
  from harness_end_to_end [OF wrap room fit test_memory_places(1,2) arr push]
  show ?thesis using push r by (auto simp: wrap_queue_def ring_queue_Nil_iff)
qed

end
