(* ===== verification/RB_Cpp_Test.thy ===== *)
theory RB_Cpp_Test
  imports RB_Wrapper_Fifo
begin

text \<open>
  The test program of the wrapper, \<^verbatim>\<open>src/test/cpp/main.cpp\<close>: the body of the loop in \<open>func\<close>, which
  calls every form of \<open>Push\<close>, \<open>Pop\<close> and \<open>Pop_w_cb\<close> on one object (the second object is a copy
  that shares its ring), and the calls at the end of \<open>main\<close> that the ring types have in common.
  The program looks at none of the results; what they are is shown here.
\<close>

section \<open>The program\<close>

definition ObjNum :: size_t where "ObjNum = 1024"

definition SHM :: string where "SHM = ''/dev/shm/test''"

definition Loop :: nat where "Loop = 100000"

text \<open>\<open>class A\<close>: an \<open>int\<close> and 1024 bytes.\<close>

definition sizeof_A :: size_t where "sizeof_A = 4 + 1024"

text \<open>
  A call of the program. \<open>Pop_w_cb\<close> is given what the compiler knows: the number of arguments after
  the callback, whether the first converts to \<open>void *\<close>, and whether the callback converts to
  \<open>Pop_cb\<close>.
\<close>

datatype cpp_call = PushObj | PushRaw | PopObj | PopRaw | PopCb nat bool bool

text \<open>
  All callbacks are alike: they ignore the object and return \<open>rand()\<close>, a function of the library
  whose state is \<open>'g\<close>.
\<close>

definition test_cb :: "('g \<Rightarrow> int \<times> 'g) \<Rightarrow> 'g cpp_callback" where
  "test_cb rand p g = (let (i, g) = rand g in (i, g))"

type_synonym 'g test_state = "thread \<times> ring \<times> 'g"

text \<open>A call gives \<open>x\<close> and, for a pop without callback, the bytes written to \<open>j\<close> or \<open>buf\<close>.\<close>

fun test_call :: "ring_type \<Rightarrow> ('g \<Rightarrow> int \<times> 'g) \<Rightarrow> src \<Rightarrow> 'g test_state \<Rightarrow> cpp_call \<Rightarrow>
    ((int \<times> byte list option) \<times> 'g test_state) outcome" where
  "test_call T rand obj (l, r, g) PushObj =
     (case Push_obj T sizeof_A l r obj of
        Value (x, l, r) \<Rightarrow> Value ((x, None), l, r, g) | Waits \<Rightarrow> Waits | Undefined \<Rightarrow> Undefined)"
| "test_call T rand obj (l, r, g) PushRaw =
     (case Push_raw T l r obj sizeof_A of
        Value (x, l, r) \<Rightarrow> Value ((x, None), l, r, g) | Waits \<Rightarrow> Waits | Undefined \<Rightarrow> Undefined)"
| "test_call T rand obj (l, r, g) PopObj =
     (case Pop_obj T sizeof_A l r of
        Value (x, buf, l, r) \<Rightarrow> Value ((x, buf), l, r, g) | Waits \<Rightarrow> Waits | Undefined \<Rightarrow> Undefined)"
| "test_call T rand obj (l, r, g) PopRaw =
     (case Pop_raw T l r sizeof_A of
        Value (x, buf, l, r) \<Rightarrow> Value ((x, buf), l, r, g) | Waits \<Rightarrow> Waits | Undefined \<Rightarrow> Undefined)"
| "test_call T rand obj (l, r, g) (PopCb num_args first_is_pointer callable_is_Pop_cb) =
     (case Pop_w_cb (is_fast_path num_args first_is_pointer callable_is_Pop_cb) T sizeof_A l r (test_cb rand) g of
        Value (x, g, l, r) \<Rightarrow> Value ((x, None), l, r, g) | Waits \<Rightarrow> Waits | Undefined \<Rightarrow> Undefined)"

fun test_calls :: "ring_type \<Rightarrow> ('g \<Rightarrow> int \<times> 'g) \<Rightarrow> src \<Rightarrow> 'g test_state \<Rightarrow> cpp_call list \<Rightarrow>
    ((int \<times> byte list option) list \<times> 'g test_state) outcome" where
  "test_calls T rand obj s [] = Value ([], s)"
| "test_calls T rand obj s (c # cs) =
     (case test_call T rand obj s c of
        Value (x, s) \<Rightarrow>
          (case test_calls T rand obj s cs of
             Value (xs, s) \<Rightarrow> Value (x # xs, s) | Waits \<Rightarrow> Waits | Undefined \<Rightarrow> Undefined)
      | Waits \<Rightarrow> Waits | Undefined \<Rightarrow> Undefined)"

text \<open>
  The body of the loop: eleven pushes and eleven pops, nine of them with a callback: \<open>cb\<close>, \<open>cbb\<close>,
  \<open>cbbb\<close> (whose object is not const), \<open>cbbbb\<close> (two more arguments), the capturing lambda \<open>cb1\<close>, \<open>cb2\<close>,
  and \<open>cb3\<close> to \<open>cb5\<close> (none).
\<close>

definition func_body :: "cpp_call list" where
  "func_body = replicate 11 PushObj @
     [PopObj, PopRaw,
      PopCb 1 True True,
      PopCb 0 True False,
      PopCb 1 True False,
      PopCb 2 True False,
      PopCb 1 True False,
      PopCb 1 True True,
      PopCb 0 True False,
      PopCb 0 True False,
      PopCb 0 True False]"

definition func_loop :: "nat \<Rightarrow> cpp_call list" where
  "func_loop n = concat (replicate n func_body)"

text \<open>What \<open>main\<close> does with \<open>r\<close>, \<open>r1\<close> and \<open>r2\<close>.\<close>

definition main_calls :: "cpp_call list" where
  "main_calls = [PushRaw, PushObj, PopObj]"


section \<open>What the calls give\<close>

text \<open>
  On a queue whose positions are \<open>h\<close> and \<open>t\<close> and which holds copies of one object \<open>v\<close>.
\<close>

fun expected_call :: "('g \<Rightarrow> int \<times> 'g) \<Rightarrow> byte list \<Rightarrow> nat \<times> nat \<times> 'g \<Rightarrow> cpp_call \<Rightarrow>
    (int \<times> byte list option) \<times> nat \<times> nat \<times> 'g" where
  "expected_call rand v (h, t, g) PopObj = ((int t, Some v), h, Suc t, g)"
| "expected_call rand v (h, t, g) PopRaw = ((int t, Some v), h, Suc t, g)"
| "expected_call rand v (h, t, g) (PopCb k p c) = ((fst (rand g), None), h, Suc t, snd (rand g))"
| "expected_call rand v (h, t, g) _ = ((int h, None), Suc h, t, g)"

fun expected :: "('g \<Rightarrow> int \<times> 'g) \<Rightarrow> byte list \<Rightarrow> nat \<times> nat \<times> 'g \<Rightarrow> cpp_call list \<Rightarrow>
    (int \<times> byte list option) list \<times> nat \<times> nat \<times> 'g" where
  "expected rand v q [] = ([], q)"
| "expected rand v q (c # cs) =
     (let (x, q) = expected_call rand v q c; (xs, q) = expected rand v q cs in (x # xs, q))"

text \<open>No push finds the queue full and no pop finds it empty.\<close>

fun is_push :: "cpp_call \<Rightarrow> bool" where
  "is_push PushObj = True" | "is_push PushRaw = True" | "is_push _ = False"

fun flows :: "nat \<Rightarrow> nat \<Rightarrow> nat \<Rightarrow> cpp_call list \<Rightarrow> bool" where
  "flows N h t [] = True"
| "flows N h t (c # cs) =
     (if is_push c then h < t + N \<and> flows N (Suc h) t cs else t < h \<and> flows N h (Suc t) cs)"

text \<open>The object's state: its positions, and copies of \<open>v\<close> between them.\<close>

definition holds_copies :: "ring_type \<Rightarrow> nat \<Rightarrow> byte list \<Rightarrow> nat \<Rightarrow> nat \<Rightarrow> thread \<Rightarrow> ring \<Rightarrow> bool" where
  "holds_copies T N v h t l r \<longleftrightarrow>
     variant_ok T l r \<and> cap r = N \<and> sizeof_A \<le> r_objSize r \<and> length v = unat sizeof_A \<and>
     r_head r = of_nat h \<and> r_tail r = of_nat t \<and> t \<le> h \<and> h < 2 ^ 31 \<and> N \<le> 2 ^ 58 \<and>
     (\<forall>u \<in> set (ring_queue r). take (unat sizeof_A) u = v)"

lemma copies_facts:
  assumes "holds_copies T N v h t l r"
  shows "count r = h - t" "mpmc_room r (Suc 0)" "\<not> r_objSize r < sizeof_A" "ssize_of (r_head r) = int h"
    "ssize_of (r_tail r) = int t" "unat (r_tail r) = t"
proof -
  have n: "h < 2 ^ 31" "t \<le> h" "N \<le> 2 ^ 58" and pos: "r_head r = of_nat h" "r_tail r = of_nat t" "cap r = N"
    using assms by (simp_all add: holds_copies_def)
  have u: "unat (of_nat h :: size_t) = h" "unat (of_nat t :: size_t) = t"
    using n by (simp_all add: unat_of_nat64)
  show "count r = h - t" using n by (simp add: count_def pos unat_ticket_diff)
  show "mpmc_room r (Suc 0)" using n by (simp add: mpmc_room_def pos u)
  show "\<not> r_objSize r < sizeof_A" using assms by (simp add: holds_copies_def not_less)
  show "ssize_of (r_head r) = int h" "ssize_of (r_tail r) = int t" "unat (r_tail r) = t"
    using n ssize_of_small [of "of_nat h"] ssize_of_small [of "of_nat t"] by (simp_all add: pos u)
qed

lemma push_copies:
  assumes st: "holds_copies T N v h t l r" and room: "h < t + N" and h: "Suc h < 2 ^ 31"
  shows "\<exists>l' r'. Push_raw T l r ((!) v) sizeof_A = Value (int h, l', r') \<and> holds_copies T N v (Suc h) t l' r'"
proof -
  note f = copies_facts [OF st]
  have ok: "variant_ok T l r" and some: "count r \<noteq> cap r" and v: "length v = unat sizeof_A"
    using st f(1) room by (auto simp: holds_copies_def)
  from Push_raw_cases [OF ok f(2,3), of "(!) v"] some obtain l' r' where
    call: "Push_raw T l r ((!) v) sizeof_A = Value (int h, l', r')" and ok': "variant_ok T l' r'"
    and q: "ring_queue r' = ring_queue r @ [map ((!) v) [0..<unat sizeof_A] @ drop (unat sizeof_A) (elem r (r_head r))]"
    by (auto simp: f(4))
  have "push_result r sizeof_A (int h) r'" by (rule Push_raw_result [OF call])
  then have "geom r' = geom r" "r_head r' = r_head r + 1" "r_tail r' = r_tail r"
    by (auto simp: push_result_def dest: result_codes_negative)
  moreover have "map ((!) v) [0..<unat sizeof_A] = v" using v by (auto intro: nth_equalityI)
  ultimately have "holds_copies T N v (Suc h) t l' r'"
    using st ok' h v geom_eqD(1,6) [of r' r] unfolding holds_copies_def
    by (auto simp: q add.commute)
  then show ?thesis using call by blast
qed

lemma pop_copies:
  assumes st: "holds_copies T N v h t l r" and some: "t < h"
  shows "\<exists>l' r'. Pop_raw T l r sizeof_A = Value (int t, Some v, l', r') \<and> holds_copies T N v h (Suc t) l' r'"
proof -
  note f = copies_facts [OF st]
  have ok: "variant_ok T l r" and ne: "count r \<noteq> 0" using st f(1) some by (auto simp: holds_copies_def)
  then obtain u us where q: "ring_queue r = u # us"
    using length_ring_queue [of r] by (cases "ring_queue r") auto
  then have u: "take (unat sizeof_A) u = v" using st by (simp add: holds_copies_def)
  from Pop_raw_cases [OF ok f(2,3)] ne obtain l' r' where
    call: "Pop_raw T l r sizeof_A = Value (int t, Some v, l', r')" and ok': "variant_ok T l' r'"
    and q': "ring_queue r' = us"
    by (auto simp: f(5) q u)
  have "pop_result r sizeof_A (int t) (Some v) r'" by (rule Pop_raw_result [OF call])
  then have "geom r' = geom r" "r_head r' = r_head r" "r_tail r' = r_tail r + 1"
    by (auto simp: pop_result_def)
  then have "holds_copies T N v h (Suc t) l' r'"
    using st ok' some q q' geom_eqD(1,6) [of r' r] unfolding holds_copies_def
    by (auto simp: add.commute)
  then show ?thesis using call by blast
qed

lemma callback_copies:
  assumes st: "holds_copies T N v h t l r" and some: "t < h"
  shows "\<exists>l' r'. Pop_w_cb (is_fast_path k p c) T sizeof_A l r (test_cb rand) g =
      Value (fst (rand g), snd (rand g), l', r') \<and> holds_copies T N v h (Suc t) l' r'"
proof -
  note f = copies_facts [OF st]
  have fit: "sizeof_A \<le> r_objSize r" using f(3) by simp
  obtain l' r' where pop: "Pop_obj T sizeof_A l r = Value (int t, Some v, l', r')"
    and st': "holds_copies T N v h (Suc t) l' r'"
    using pop_copies [OF st some] by (auto simp: obj_is_raw)
  have t: "unat (r_tail r) mod 2 ^ 32 < 2 ^ 31" using st f(6) by (simp add: holds_copies_def)
  have given: "fst (BeginPop l r) \<noteq> None" if "T = Spsc"
    using pop pop_in_place [OF f(3), of l] that by (auto split: prod.splits option.splits)
  have reads: "reads_obj sizeof_A (test_cb rand)" by (simp add: reads_obj_def test_cb_def)
  have "Pop_w_cb (is_fast_path k p c) T sizeof_A l r (test_cb rand) g =
      pop_then (test_cb rand) g (Pop_obj T sizeof_A l r)"
    using trampoline_pops [OF fit reads t] pop_w_cb_paths [of T l r] given unfolding Pop_w_cb_def by metis
  then show ?thesis using st' by (simp add: pop pop_then_def test_cb_def Let_def split_beta)
qed

lemma call_expected:
  assumes st: "holds_copies T N v h t l r" and flow: "flows N h t [c]" and h: "Suc h < 2 ^ 31"
    and spec: "expected_call rand v (h, t, g) c = (x, h', t', g')"
  shows "\<exists>l' r'. test_call T rand ((!) v) (l, r, g) c = Value (x, l', r', g') \<and> holds_copies T N v h' t' l' r'"
proof (cases "is_push c")
  case True
  then have room: "h < t + N" and q: "x = (int h, None)" "h' = Suc h" "t' = t" "g' = g"
    using flow spec by (cases c; simp)+
  obtain l' r' where "Push_raw T l r ((!) v) sizeof_A = Value (int h, l', r')" "holds_copies T N v (Suc h) t l' r'"
    using push_copies [OF st room h] by blast
  then show ?thesis using True by (cases c) (simp_all add: obj_is_raw q)
next
  case False
  then have some: "t < h" using flow by simp
  obtain l' r' where pop: "Pop_raw T l r sizeof_A = Value (int t, Some v, l', r')" "holds_copies T N v h (Suc t) l' r'"
    using pop_copies [OF st some] by blast
  show ?thesis
  proof (cases c)
    case (PopCb k p d)
    then show ?thesis using callback_copies [OF st some, of k p d rand g] spec by auto
  qed (use False pop spec in \<open>simp_all add: obj_is_raw\<close>)
qed

lemma calls_expected:
  assumes "holds_copies T N v h t l r" "flows N h t cs" "h + length cs < 2 ^ 31"
    and "expected rand v (h, t, g) cs = (xs, h', t', g')"
  shows "\<exists>l' r'. test_calls T rand ((!) v) (l, r, g) cs = Value (xs, l', r', g') \<and> holds_copies T N v h' t' l' r'"
  using assms
proof (induction cs arbitrary: h t l r g xs)
  case (Cons c cs)
  obtain x h1 t1 g1 where first: "expected_call rand v (h, t, g) c = (x, h1, t1, g1)" by (metis prod_cases4)
  obtain ys where rest: "expected rand v (h1, t1, g1) cs = (ys, h', t', g')" and xs: "xs = x # ys"
    using Cons.prems(4) first by (auto simp: Let_def split: prod.splits)
  have flow: "flows N h t [c]" "flows N h1 t1 cs" "h1 \<le> Suc h"
    using Cons.prems(2) first by (cases c; auto)+
  have h: "Suc h < 2 ^ 31" "h1 + length cs < 2 ^ 31" using Cons.prems(3) flow(3) by simp_all
  obtain l1 r1 where one: "test_call T rand ((!) v) (l, r, g) c = Value (x, l1, r1, g1)"
    and st: "holds_copies T N v h1 t1 l1 r1"
    using call_expected [OF Cons.prems(1) flow(1) h(1) first] by blast
  show ?case using Cons.IH [OF st flow(2) h(2) rest] by (auto simp: one xs)
qed auto

text \<open>The start: a ring the class made, with \<open>sizeof(A)\<close> and \<open>ObjNum\<close>.\<close>

lemma test_ring:
  assumes "sizeof_BRingBuf (mutex_size E) (cond_size E) \<le> 2 ^ 32"
    and "GetRing (RingBufTypeTrait T :: unit trait) E ObjNum sizeof_A (Some SHM) (MAP_SHM OR MAP_NEW) 0 s =
      Some (rc, Some r, s')" and "length v = unat sizeof_A"
  shows "holds_copies T 1024 v 0 0 new_thread r"
proof -
  have sz: "unat sizeof_A = 1028" "unat ObjNum = 1024" by (simp_all add: sizeof_A_def ObjNum_def)
  have fits: "layout_fits ObjNum sizeof_A" by (simp add: layout_fits_def align_nat_def sz)
  have size: "sizeof_BRingBuf (mutex_size E) (cond_size E) + unat ObjNum * align_nat 64 (unat sizeof_A) < 2 ^ 64"
    using assms(1) by (simp add: align_nat_def sz)
  have new: "(MAP_SHM OR MAP_NEW) AND MAP_MALLOC \<noteq> 0 \<or> (MAP_SHM OR MAP_NEW) AND MAP_EXISTS = 0"
    by (simp add: map_flags)
  note fresh = GetRing_fresh [OF fits size new assms(2)]
  then have "sizeof_A \<le> r_objSize r" "ring_queue r = []"
    using align_nat_ge [of 64 "unat sizeof_A"] by (simp_all add: word_le_nat_alt osz_def ring_queue_Nil_iff)
  then show ?thesis using fresh assms(3) by (simp add: holds_copies_def sz)
qed

text \<open>An iteration leaves the queue empty.\<close>

lemma flows_body: "10 < N \<Longrightarrow> flows N h h (func_body @ cs) = flows N (h + 11) (h + 11) cs"
  by (simp add: func_body_def numeral_eq_Suc)

lemma expected_body: "\<exists>ys g'. expected rand v (h, h, g) func_body = (ys, h + 11, h + 11, g')"
  by (simp add: func_body_def numeral_eq_Suc)

lemma expected_append:
  "expected rand v q (xs @ ys) =
    (let (a, q) = expected rand v q xs; (b, q) = expected rand v q ys in (a @ b, q))"
  by (induction xs arbitrary: q) (simp_all add: Let_def split_beta)

lemma flows_loop: "flows 1024 h h (func_loop n)"
  by (induction n arbitrary: h) (simp_all add: func_loop_def flows_body)

lemma expected_loop:
  "\<exists>xs g'. expected rand v (h, h, g) (func_loop n) = (xs, h + 11 * n, h + 11 * n, g')"
proof (induction n arbitrary: h g)
  case (Suc n)
  obtain ys g1 where body: "expected rand v (h, h, g) func_body = (ys, h + 11, h + 11, g1)"
    using expected_body [of rand v h g] by blast
  obtain zs g2 where "expected rand v (h + 11, h + 11, g1) (func_loop n) = (zs, h + 11 + 11 * n, h + 11 + 11 * n, g2)"
    using Suc.IH by blast
  then show ?case using body by (simp add: func_loop_def expected_append)
qed (simp add: func_loop_def)

lemma length_loop: "length (func_loop n) = 22 * n"
  by (induction n) (simp_all add: func_loop_def func_body_def)

section \<open>Property\<close>

text \<open>C23: The wrapper's test program does the same on all four ring types. In every iteration of the
  loop each call succeeds, none waits and none is undefined: the pushes return the eleven next
  positions, the two pops return theirs and the object that was pushed, and each \<open>Pop_w_cb\<close>, on
  whichever path the compiler takes, returns what its callback got from \<open>rand\<close> and removes one
  object, so that \<open>n\<close> iterations end with an empty ring at position \<open>11 * n\<close>. On a new ring
  the calls at the end of \<open>main\<close> return 0, 1 and 0 and leave one of the two objects behind.\<close>

theorem cpp_test_runs:
  assumes "sizeof_BRingBuf (mutex_size E) (cond_size E) \<le> 2 ^ 32"
    and "GetRing (RingBufTypeTrait T :: unit trait) E ObjNum sizeof_A (Some SHM) (MAP_SHM OR MAP_NEW) 0 s =
      Some (rc, Some r, s')"
    and "length v = unat sizeof_A" "n \<le> Loop"
  shows "(\<exists>l' r'. (case expected rand v (0, 0, g) (func_loop n) of (xs, h, t, g') \<Rightarrow>
        test_calls T rand ((!) v) (new_thread, r, g) (func_loop n) = Value (xs, l', r', g')) \<and>
      ring_queue r' = [] \<and> r_head r' = of_nat (11 * n) \<and> r_tail r' = of_nat (11 * n)) \<and>
    (\<exists>l' r'. test_calls T rand ((!) v) (new_thread, r, g) main_calls =
        Value ([(0, None), (1, None), (0, Some v)], l', r', g) \<and> wrap_queue sizeof_A r' = [v])"
proof -
  note st = test_ring [OF assms(1-3)]
  obtain xs g' where ex: "expected rand v (0, 0, g) (func_loop n) = (xs, 11 * n, 11 * n, g')"
    using expected_loop [of rand v 0 g n] by auto
  have "0 + length (func_loop n) < 2 ^ 31" using assms(4) by (simp add: length_loop Loop_def)
  from calls_expected [OF st flows_loop this ex] obtain l' r' where
    loop: "test_calls T rand ((!) v) (new_thread, r, g) (func_loop n) = Value (xs, l', r', g')"
    and st': "holds_copies T 1024 v (11 * n) (11 * n) l' r'"
    by blast
  have "length (ring_queue r') = 0" using copies_facts(1) [OF st'] by simp
  then have "ring_queue r' = []" by (simp only: length_0_conv)
  moreover have "r_head r' = of_nat (11 * n)" "r_tail r' = of_nat (11 * n)"
    using st' by (simp_all add: holds_copies_def)
  moreover obtain l2 r2 where
    last: "test_calls T rand ((!) v) (new_thread, r, g) main_calls = Value ([(0, None), (1, None), (0, Some v)], l2, r2, g)"
    and st2: "holds_copies T 1024 v 2 1 l2 r2"
    using calls_expected [OF st, of main_calls rand g "[(0, None), (1, None), (0, Some v)]" 2 1 g]
    by (auto simp: main_calls_def)
  moreover have "wrap_queue sizeof_A r2 = [v]"
  proof -
    have "length (ring_queue r2) = Suc 0" using copies_facts(1) [OF st2] by simp
    then obtain u where "ring_queue r2 = [u]" unfolding length_Suc_conv by auto
    then show ?thesis using st2 by (simp add: wrap_queue_def holds_copies_def)
  qed
  ultimately show ?thesis using loop ex by auto
qed

text \<open>An environment that maps the file the program asks for.\<close>

definition test_env :: env where
  "test_env = plain_env\<lparr>memory := \<lambda>_. Some blank_block\<rparr>"

lemma test_env_get:
  "\<exists>r s'. GetRing (RingBufTypeTrait Spsc :: unit trait) test_env ObjNum sizeof_A (Some SHM) (MAP_SHM OR MAP_NEW) 0 os_start =
    Some (RINGBUF_SUCCESS, Some r, s')"
proof -
  have n: "ObjNum = 1024" "sizeof_A = 1028" by (simp_all add: ObjNum_def sizeof_A_def)
  have cap: "\<not> (ObjNum < 2 \<or> ObjNum AND (ObjNum - 1) \<noteq> 0)" by (simp add: n)
  have mode: "\<not> NO_SLOT AND (MPSC_SLOT OR MPMC_SLOT OR NO_SLOT) = 0" by (simp add: slot_flags)
  have shm: "(MAP_SHM OR MAP_NEW) AND MAP_MALLOC = 0" "(MAP_SHM OR MAP_NEW) AND MAP_SHM \<noteq> 0"
    "(MAP_SHM OR MAP_NEW) AND MAP_EXISTS = 0" by (simp_all add: map_flags)
  have E: "ret_of test_env c = 3" "memory test_env c = Some blank_block" for c
    by (simp_all add: test_env_def plain_env_def)
  have info: "total_size (get_total_size ObjNum sizeof_A NO_SLOT) = 1114304" by code_simp
  have bytes: "shm_bytes 1114304 0 = Some 1114304" by simp
  have opens: "os_do test_env (shm_open_call (Some SHM)) os_start = (3, os_start\<lparr>os_calls := [Open SHM]\<rparr>)"
    by (simp add: os_do_def E os_start_def SHM_def)
  note step = get_buf_shm_steps [OF disjI2 bytes opens, unfolded size_shm_def]
  show ?thesis
    unfolding RingBufTypeTrait.simps traits trait.simps Get_SpscRingBuf_e_def get_buf_def if_not_P [OF cap]
      if_not_P [OF mode]
    by (simp add: obtain_memory_shm [OF shm(1,2)] shm(3) info step os_do_def E Let_def with_code_def)
qed

theorem cpp_test_runs_witness:
  "\<exists>r s' l' r' l2 r2. GetRing (RingBufTypeTrait Spsc :: unit trait) test_env ObjNum sizeof_A (Some SHM)
      (MAP_SHM OR MAP_NEW) 0 os_start = Some (RINGBUF_SUCCESS, Some r, s') \<and>
    test_calls Spsc (\<lambda>g. (7, Suc g)) ((!) (replicate 1028 9)) (new_thread, r, 0) (func_loop 1) =
      Value (map (\<lambda>k. (int k, None)) [0..<11] @ [(0, Some (replicate 1028 9)), (1, Some (replicate 1028 9))] @
        replicate 9 (7, None), l', r', 9) \<and>
    ring_queue r' = [] \<and>
    test_calls Spsc (\<lambda>g. (7, Suc g)) ((!) (replicate 1028 9)) (new_thread, r, 0) main_calls =
      Value ([(0, None), (1, None), (0, Some (replicate 1028 9))], l2, r2, 0)"
proof -
  let ?v = "replicate 1028 9 :: byte list" and ?rand = "\<lambda>g :: nat. (7 :: int, Suc g)"
  obtain r s' where made: "GetRing (RingBufTypeTrait Spsc :: unit trait) test_env ObjNum sizeof_A (Some SHM)
      (MAP_SHM OR MAP_NEW) 0 os_start = Some (RINGBUF_SUCCESS, Some r, s')"
    using test_env_get by blast
  have size: "sizeof_BRingBuf (mutex_size test_env) (cond_size test_env) \<le> 2 ^ 32"
    by (simp add: test_env_def plain_env_def struct_sizes)
  have v: "length ?v = unat sizeof_A" by (simp add: sizeof_A_def)
  have "expected ?rand u (0, 0, 0) (func_loop 1) =
      (map (\<lambda>k. (int k, None)) [0..<11] @ [(0, Some u), (1, Some u)] @ replicate 9 (7, None), 11, 11, 9)" for u
    by (simp add: func_loop_def func_body_def numeral_eq_Suc)
  then show ?thesis
    using cpp_test_runs [OF size made v, of 1 ?rand 0] made by (auto simp: Loop_def simp del: replicate.simps)
qed

end
