(* ===== verification/Spec2Isabelle.thy ===== *)
theory Spec2Isabelle
  imports RB_Spsc_Slots RB_Mpsc_Conc RB_Mpmc_Lin RB_Block_Live RB_Wrapper_Life RB_Shared RB_Harness RB_Cpp_Test
begin

text \<open>
  RingBuf: a verification development for the ring buffer library under \<^verbatim>\<open>src/src\<close> (C) and its
  C++ wrapper \<^verbatim>\<open>src/cpp/RingBufWrapper.hpp\<close>.

  The program. A ring is one block of memory: a header with the positions \<^verbatim>\<open>head_\<close> and
  \<^verbatim>\<open>tail_\<close>, the capacity (a power of two), the mask and the object size, followed by the
  elements and, for two variants, an atomic slot per element. The allocator in
  \<^verbatim>\<open>RingBuf_common.c\<close> lays it out with \<^verbatim>\<open>malloc\<close>, on an anonymous mapping or on a shared file.
  Four variants give it their \<open>Push\<close> and \<open>Pop\<close>: SPSC with thread-local cached positions, MPSC
  with a status per slot, MPMC with a sequence number per slot, and a blocking ring with a mutex
  and two condition variables. The wrapper selects the variant at compile time and owns the ring
  through a shared pointer.

  The theories, from the bottom.

  \<^item> \<open>RB_Prelude\<close>: \<open>size_t\<close>, \<open>int\<close> and bytes as words, and the facts on power-of-two masks and
    wrapping differences that all variants share. Tickets are unbounded numbers whose image in
    \<open>size_t\<close> is the position.
  \<^item> \<open>RB_Error\<close>: the return codes of \<^verbatim>\<open>RingBuf_public.h\<close> and \<^verbatim>\<open>RingBuf_strerror\<close>.
  \<^item> \<open>RB_Layout\<close>: \<^verbatim>\<open>get_aligned_offset\<close> and \<^verbatim>\<open>get_total_size\<close> with their 64-bit arithmetic, and
    the sizes of the structures of \<^verbatim>\<open>RingBuf_private.h\<close>. \<open>layout_fits\<close> says that nothing in this
    computation wraps around.
  \<^item> \<open>RB_Ring\<close>: \<^verbatim>\<open>RingBuf_t\<close> with the block it heads as one record \<open>ring\<close>, addressed by offsets;
    \<^verbatim>\<open>GET_BUFFER\<close>, \<^verbatim>\<open>GET_SLOT\<close>, \<^verbatim>\<open>memcpy\<close>, compare-and-exchange, and the initialisation branch
    of \<^verbatim>\<open>get_buf\<close> (\<open>init_ring\<close>). \<open>ring_wf\<close> is the invariant of the header, \<open>ring_queue\<close> the
    abstraction: the objects between the two positions, oldest first.
  \<^item> \<open>RB_Fifo\<close>: the contract of a ring used by one thread at a time, a bounded queue, as the
    locale \<open>bounded_queue\<close>. Its lemma is that any sequence of operations does what it does on a
    list. SPSC, MPSC and MPMC interpret it, and the wrapper's operations for every ring type.
  \<^item> \<open>RB_Spsc\<close>, \<open>RB_Mpsc\<close>, \<open>RB_Mpmc\<close>: every function of \<^verbatim>\<open>RingBuf_Spsc.c\<close>, \<^verbatim>\<open>RingBuf_Mpsc.c\<close> and
    \<^verbatim>\<open>RingBuf_Mpmc.c\<close> but the \<open>Get\<close> and \<open>Del\<close> pairs, run without interference. A function takes the
    thread's caches (the \<^verbatim>\<open>static __thread\<close> variables) and the ring and returns its code, the bytes
    it wrote to the caller's buffer, and both updated. Shown are the effect on every branch, the
    refinement of the bounded queue, the zero-copy and callback forms, and what
    goes wrong at the edges: a consumer thread that takes over a ring (an MPSC ring that is empty
    then reports a producer that is writing), one thread with two rings, and positions of \<open>2 ^ 63\<close>.
  \<^item> \<open>RB_Steps\<close>: what the interleaving models share. A system is a step function on actions; a
    schedule is a list of actions. The locales \<open>history_system\<close> (an invariant over the history of
    events, lifted to all schedules), its extension \<open>queue_history\<close> (the events replay on one bounded
    queue, \<open>queue_run\<close>) and \<open>bounded_operations\<close> (a measure gives a bound on the steps of an
    operation) are interpreted by the concurrent systems; \<open>history_system\<close> also by the wrapper's
    objects.
  \<^item> \<open>RB_Spsc_Conc\<close>, \<open>RB_Mpsc_Conc\<close>, \<open>RB_Mpmc_Conc\<close>: the same \<open>Push\<close>, \<open>Pop\<close> and \<open>Pop_w_cb\<close> cut at
    every access to shared memory, single bytes of the copies included; a thread is its program
    counter with its locals. Shown for every schedule: the history is one of a bounded queue (for
    SPSC with the refusals, for MPSC without; for MPMC see \<open>RB_Mpmc_Lin\<close>),
    nothing is lost or duplicated, exclusive use of a slot during a copy, what each failure code says about the
    ring, a bound on the accesses of an operation whatever the others do (no loop waits for
    another thread), and that an operation running alone does what the function of the
    sequential theory does.
  \<^item> \<open>RB_Spsc_Slots\<close>: the rest of the SPSC interface in the same manner, joined with the steps of
    \<open>RB_Spsc_Conc\<close>: the slots handed out by the \<open>Begin\<close> calls, through which the client reads and writes
    single bytes until the \<open>End\<close> call, and the observers, called by any thread. Shown are what each
    event means to the queue of its instant, that the two threads share no byte, and what an
    observer's answer is worth.
  \<^item> \<open>RB_Mpmc_Lin\<close>: linearizability of the MPMC ring. Its compare-and-exchanges, in the order in
    which they succeed, are a run of a bounded queue, and what a pop hands out is what that queue
    hands out at its exchange.
  \<^item> \<open>RB_Alloc\<close>: \<^verbatim>\<open>get_buf\<close>, \<^verbatim>\<open>get_buf_malloc\<close>, \<^verbatim>\<open>get_buf_shm\<close>, \<^verbatim>\<open>del_buf\<close>, \<^verbatim>\<open>get_block_buf\<close>,
    \<^verbatim>\<open>del_block_buf\<close> and the \<open>Get\<close> and \<open>Del\<close> entry points of all variants. Shown are the accounts
    \<^verbatim>\<open>get_buf\<close> and \<^verbatim>\<open>del_buf\<close> keep with the operating system (the calls, the memory they give and
    release, the descriptors they open and close), the disjointness of the regions of a block, what
    attaching to an existing file demands, and what two processes that share a ring release wrongly.
  \<^item> \<open>RB_Block\<close>: \<^verbatim>\<open>RingBuf_Block.c\<close> as an inductive step relation with the mutex, the two
    conditions, spurious wake-ups and single copied bytes, and its two operations as functions
    (\<open>None\<close> where they wait). Shown are that the history is one of a bounded queue, mutual exclusion,
    and that the relation implements the functions.
  \<^item> \<open>RB_Block_Live\<close>: its liveness. No wake-up is lost, and without new calls and spurious wake-ups
    every schedule comes to rest after a bounded number of steps, asleep only on a full or on an
    empty ring.
  \<^item> \<open>RB_Wrapper\<close>: \<^verbatim>\<open>RingBufTypeTrait\<close> as a record of the C functions of a variant, and the
    member functions of \<open>RingBuf\<close>; both compile-time paths of \<open>Pop_w_cb\<close> are \<open>Pop\<close> followed by the
    callback, but for two cases that are shown to fail.
  \<^item> \<open>RB_Wrapper_Fifo\<close>: the contract of the class for all ring types at once. The type of \<open>Push\<close> and
    \<open>Pop\<close> in any state (the codes, the one position moved, the bytes written), and an interpretation
    of \<open>bounded_queue\<close> whose outcomes are read off the return codes.
  \<^item> \<open>RB_Shared\<close>: two processes. What one pushes into a ring it made, another pops after it has
    attached with \<^verbatim>\<open>MAP_EXISTS\<close>.
  \<^item> \<open>RB_Debug\<close>: \<^verbatim>\<open>RingBuf_debug.h\<close> and the four \<open>Push\<close> functions as compiled with \<^verbatim>\<open>DEBUG\<close>, on an
    explicit memory of the caller, since the hook writes to what is then copied. They are the
    release functions on the memory the hook leaves.
  \<^item> \<open>RB_Harness\<close>: the record the test producer fills and the check of the test consumer, which
    accepts exactly such records, joined by a debug push into a ring of any type.
  \<^item> \<open>RB_Cpp_Test\<close>: the calls of the wrapper's test program, \<^verbatim>\<open>src/test/cpp/main.cpp\<close>, whose results
    are the same on all four ring types and are computed by a queue that knows two numbers
    (\<open>expected\<close>).
  \<^item> \<open>RB_Wrapper_Life\<close>: \<open>Init\<close>, the special member functions and the shared pointer as steps on a
    set of objects, control blocks and rings. A ring is deleted once, never while it has an owner.
  \<^item> This theory: the properties that join the allocator and the variants.

  Properties carry their number (C1 and so on) where they are stated; a theorem named after
  one with \<open>_witness\<close> applies it at a concrete input.

  Assumptions. Memory is sequentially consistent; the memory orders of the C code are not
  modelled, so nothing is shown about their sufficiency. The target is x86-64 Linux (\<open>-m64\<close>
  in the Makefile). The operating system and the pthread initialisers are a parameter \<open>env\<close>, which
  may answer anything; a C library call is recorded in the order in which the code makes it.
  Callbacks are functions of the bytes they are shown and of their other argument. The copies take
  their source bytes at call time: a caller does not change its own buffer during a push.

  Bounds. The SPSC and the blocking ring are shown right for ever, the positions wrapping around
  as often as they like. The MPSC ring is shown right for one round of its head,
  \<open>2 ^ 64 - capacity\<close> pushes (\<open>one_round\<close>), because a producer stalled for a whole round is not
  noticed by the compare-and-exchange. The MPMC ring is shown right for \<open>2 ^ 63 - capacity\<close> pushes
  (\<open>below_sign\<close>), because the signed difference overflows there. What is said of all ring types at
  once holds for \<open>2 ^ 62\<close> operations: below the sign bit a return code is negative only when it is
  an error. No definition uses fuel: the
  loops of the code are the copies, which are bounded by the object size, and the waits of the
  blocking ring, which are steps.

  Not modelled. Memory orders and the padding's effect on speed; the contents of a null or dangling
  pointer other than the null checks the code makes; the hook of a debug push between the accesses
  of other threads (\<open>RB_Debug\<close> runs it without interference); the
  observers of the MPSC ring between the accesses of other threads; \<^verbatim>\<open>my_assert\<close>, which nothing uses;
  \<^verbatim>\<open>Batch_pop_BlockRingBuf\<close>, which is declared and not defined; of the programs under \<^verbatim>\<open>src/test\<close>
  what binds cores, sleeps, forks, counts and prints, and the zero-copy calls and explicit
  destructor calls at the end of \<^verbatim>\<open>src/test/cpp/main.cpp\<close>; the build files.
\<close>

section \<open>From allocation to use\<close>

text \<open>C18: What the entry points return can be used. A ring that \<^verbatim>\<open>Get_SpscRingBuf\<close>,
  \<^verbatim>\<open>Get_MpscRingBuf\<close>, \<^verbatim>\<open>Get_MpmcRingBuf\<close> or \<^verbatim>\<open>Get_BlockRingBuf\<close> made anew, whatever the memory
  held and wherever it came from, satisfies the invariant its operations rely on, is empty, has
  the capacity asked for and objects at least as large as asked for, provided that the size
  computation did not wrap around.\<close>

theorem get_buf_ready:
  assumes fits: "layout_fits n sz"
      "sizeof_BRingBuf (mutex_size E) (cond_size E) + unat n * align_nat 64 (unat sz) < 2 ^ 64"
    and new: "prot AND MAP_MALLOC \<noteq> 0 \<or> prot AND MAP_EXISTS = 0"
  shows "(Get_SpscRingBuf E n sz path prot flag s = Some (Some r, s') \<longrightarrow>
      spsc_ok spsc_tls_init r \<and> ring_queue r = [] \<and> cap r = unat n \<and> unat sz \<le> osz r) \<and>
    (Get_MpscRingBuf E n sz path prot flag s = Some (Some r, s') \<longrightarrow>
      mpsc_ok r \<and> ring_queue r = [] \<and> cap r = unat n \<and> unat sz \<le> osz r) \<and>
    (Get_MpmcRingBuf E n sz path prot flag s = Some (Some r, s') \<longrightarrow>
      mpmc_ok r \<and> ring_queue r = [] \<and> cap r = unat n \<and> unat sz \<le> osz r) \<and>
    (Get_BlockRingBuf E n sz path prot flag s = Some (Some r, s') \<longrightarrow>
      block_ok r \<and> ring_queue r = [] \<and> cap r = unat n \<and> unat sz \<le> osz r)"
proof -
  have size: "unat sz \<le> align_nat 64 (unat sz)" by (simp add: align_nat_ge)
  have made: "good_capacity n \<and> (\<exists>p m fd. r = init_ring p (get_total_size n sz u) n m fd u) \<and>
      ring_queue r = [] \<and> cap r = unat n \<and> unat sz \<le> osz r"
    if "get_buf E n sz path prot flag u s = Some (Some r, s')" for u
  proof -
    from get_buf_new [OF that new] obtain p m fd where
      "good_capacity n" "r = init_ring p (get_total_size n sz u) n m fd u" by blast
    moreover from this have "osz r = align_nat 64 (unat sz)"
      using aligned_obj_size [OF fits(1)] by (simp add: osz_def get_total_size_def Let_def)
    ultimately show ?thesis using size by (auto simp: ring_queue_Nil_iff)
  qed
  show ?thesis
  proof (intro conjI impI)
    assume "Get_BlockRingBuf E n sz path prot flag s = Some (Some r, s')"
    then have "get_block_buf E n sz path prot flag s = Some (Some r, s')"
      by (simp add: Get_BlockRingBuf_def)
    from get_block_buf_new [OF this new layout_fitsD(1) [OF fits(1)] fits(2)]
    show "block_ok r" "ring_queue r = []" "cap r = unat n" "unat sz \<le> osz r"
      using size by (simp_all add: block_ok_def ring_queue_Nil_iff)
  qed (use made spsc_ok_init [OF _ fits(1)] mpsc_ok_init [OF _ fits(1)] mpmc_ok_init [OF _ fits(1)] in
      \<open>fastforce simp: Get_SpscRingBuf_def Get_MpscRingBuf_def Get_MpmcRingBuf_def\<close>)+
qed

theorem get_buf_ready_witness:
  "\<exists>r s'. Get_MpmcRingBuf plain_env 4 8 None MAP_MALLOC 0 os_start = Some (Some r, s') \<and> mpmc_ok r"
proof -
  have info: "memory plain_env c = Some blank_block" for c by (simp add: plain_env_def)
  have cap: "\<not> (4 < (2::size_t) \<or> (4::size_t) AND (4 - 1) \<noteq> 0)" by simp
  have mode: "MPMC_SLOT AND (MPSC_SLOT OR MPMC_SLOT OR NO_SLOT) \<noteq> 0" by (simp add: slot_flags)
  have mal: "MAP_MALLOC AND MAP_MALLOC \<noteq> 0" by (simp add: map_flags)
  obtain r s' where made: "Get_MpmcRingBuf plain_env 4 8 None MAP_MALLOC 0 os_start = Some (Some r, s')"
    unfolding Get_MpmcRingBuf_def get_buf_def if_not_P [OF cap]
    using mode by (simp add: obtain_memory_malloc [OF mal] get_buf_malloc_eq info Let_def)
  have "sizeof_BRingBuf (mutex_size plain_env) (cond_size plain_env) + unat (4::size_t) * align_nat 64 (unat (8::size_t)) < 2 ^ 64"
    by (simp add: plain_env_def struct_sizes)
  from get_buf_ready [OF make_ring_4_8(2) this disjI1 [OF mal]] made show ?thesis by blast
qed

text \<open>What goes in comes out. On a new SPSC, MPSC or MPMC ring, any batch of whole objects no
  longer than the capacity is accepted object by object, and as many pops return it unchanged
  and in order.\<close>

lemma batch_roundtrip:
  assumes "good_capacity n" "layout_fits n sz" "length vs \<le> unat n"
    and "\<forall>v \<in> set vs. length v = align_nat 64 (unat sz)"
  shows "let ring = (\<lambda>u. init_ring r0 (get_total_size n sz u) n m fd u);
      xs = map Enq vs @ replicate (length vs) Deq;
      ys = replicate (length vs) (Pushed True) @ map (Popped \<circ> Some) vs
    in fst (run_ops spsc_do (spsc_tls_init, ring NO_SLOT) xs) = ys \<and>
       fst (run_ops mpsc_do (l, ring MPSC_SLOT) xs) = ys \<and>
       fst (run_ops mpmc_do (Some (ring MPMC_SLOT)) xs) = ys"
proof -
  let ?r = "\<lambda>u. init_ring r0 (get_total_size n sz u) n m fd u"
  have size: "osz (?r u) = align_nat 64 (unat sz)" for u
    using aligned_obj_size [OF assms(2)] by (simp add: osz_def get_total_size_def Let_def)
  have new: "ring_queue (?r u) = []" "length vs \<le> cap (?r u)" "list_all (\<lambda>v. length v = osz (?r u)) vs" for u
    using assms(3,4) by (simp_all add: ring_queue_Nil_iff size list_all_iff)
  have room: "mpmc_room (?r MPMC_SLOT) (2 * length vs)"
    using assms(3) layout_capacity [OF assms(2)] by (simp add: mpmc_room_def)
  show ?thesis
    unfolding Let_def
    using spsc.batch_in_order [of "(spsc_tls_init, ?r NO_SLOT)" vs] spsc_ok_init [OF assms(1,2)]
      mpsc.batch_in_order [of "(l, ?r MPSC_SLOT)" vs] mpsc_ok_init [OF assms(1,2)]
      mpmc.batch_in_order [of "Some (?r MPMC_SLOT)" vs] mpmc_ok_init [OF assms(1,2)] new room
    by (intro conjI) simp_all
qed

end
